(* ===== verification/Hoot_Prelude.thy ===== *)
theory Hoot_Prelude
  imports Main "HOL-Library.Word"
begin

text \<open>
  The shared base of the development: the machine types of the C++ sources as type synonyms,
  the collections of simplification rules the component theories extend, and the generic facts
  on words, bytes and lists that several components use.
\<close>

unbundle bit_operations_syntax

type_synonym byte = "8 word"
type_synonym u16 = "16 word"
type_synonym u32 = "32 word"
type_synonym u64 = "64 word"
type_synonym valtype = "byte list"

named_theorems word_nat \<open>conversions of machine-word expressions to natural numbers\<close>
named_theorems wf_intro \<open>well-formedness rules of the components' data\<close>

subsection \<open>Splitting machine words\<close>

lemma unat_ucast_32_64 [word_nat]: "unat (ucast (x :: u32) :: u64) = unat x"
  by (simp add: unsigned_ucast_eq take_bit_nat_eq_self_iff less_le_trans [OF unsigned_less])

lemma unat_low32 [word_nat]: "unat (ucast ((n :: u64) AND 0xffffffff) :: u32) = unat n mod 2 ^ 32"
proof -
  have "(0xffffffff :: u64) = mask 32"
    by (simp add: mask_eq_exp_minus_1)
  then have "n AND 0xffffffff = take_bit 32 n"
    by (simp only: take_bit_eq_mask)
  then have "unat (ucast (n AND 0xffffffff) :: u32) = take_bit 32 (take_bit 32 (unat n))"
    by (simp only: unsigned_ucast_eq unsigned_take_bit_eq) simp
  then show ?thesis
    by (simp add: take_bit_eq_mod)
qed

lemma unat_high32 [word_nat]: "unat (drop_bit 32 (n :: u64)) = unat n div 2 ^ 32"
  by (simp only: unat_drop_bit_eq) (simp only: drop_bit_eq_div)

lemma unat_plus_no_overflow:
  "unat (a :: 'a::len word) + unat b < 2 ^ LENGTH('a) \<Longrightarrow> unat (a + b) = unat a + unat b"
  by (simp add: unat_word_ariths)

lemma unat_times_no_overflow:
  "unat (a :: 'a::len word) * unat b < 2 ^ LENGTH('a) \<Longrightarrow> unat (a * b) = unat a * unat b"
  by (simp add: unat_word_ariths)

lemma unat_u32_less [simp]: "unat (x :: u32) < 4294967296"
  using unsigned_less [of x, where 'a = nat] by simp

lemma unat_u64_less [simp]: "unat (x :: u64) < 18446744073709551616"
  using unsigned_less [of x, where 'a = nat] by simp

text \<open>
  One step of a limb loop: the low half of the 64-bit sum is kept, the high half is the carry
  into the remaining limbs, whose value is taken modulo \<open>M\<close>.
\<close>

lemma low_plus_mod:
  fixes k M :: nat
  assumes "lo < B"
  shows "lo + B * (k mod M) = (lo + B * k) mod (B * M)"
proof (cases "M = 0")
  case True
  then show ?thesis by simp
next
  case False
  have "(lo + B * k) div B = k" and "(lo + B * k) mod B = lo"
    using assms by auto
  then show ?thesis
    by (simp add: mod_mult2_eq)
qed

lemma carry_step:
  fixes n :: u64
  shows "unat (ucast (n AND 0xffffffff) :: u32) + 2 ^ 32 * ((unat (drop_bit 32 n) + k) mod M)
    = (unat n + 2 ^ 32 * k) mod (2 ^ 32 * M)"
proof -
  have "unat (ucast (n AND 0xffffffff) :: u32) + 2 ^ 32 * ((unat (drop_bit 32 n) + k) mod M)
      = unat n mod 2 ^ 32 + 2 ^ 32 * ((unat n div 2 ^ 32 + k) mod M)"
    by (simp only: word_nat)
  also have "\<dots> = (unat n mod 2 ^ 32 + 2 ^ 32 * (unat n div 2 ^ 32 + k)) mod (2 ^ 32 * M)"
    by (rule low_plus_mod) simp
  also have "unat n mod 2 ^ 32 + 2 ^ 32 * (unat n div 2 ^ 32 + k) = unat n + 2 ^ 32 * k"
    by (simp add: algebra_simps)
  finally show ?thesis .
qed

subsection \<open>Bits of natural numbers and words\<close>

lemma not_bit_less: "(m::nat) < 2 ^ Suc k \<Longrightarrow> \<not> bit m k \<Longrightarrow> m < 2 ^ k"
proof -
  assume "m < 2 ^ Suc k" "\<not> bit m k"
  then have "m div 2 ^ k < 2" "even (m div 2 ^ k)"
    by (simp_all add: less_mult_imp_div_less bit_iff_odd mult.commute)
  then have "m div 2 ^ k = 0" using less_2_cases [of "m div 2 ^ k"] by auto
  then show ?thesis by (simp add: div_eq_0_iff)
qed

lemma bit_ge: "bit (m::nat) k \<Longrightarrow> 2 ^ k \<le> m"
  by (metis bit_iff_odd div_less even_zero not_less)

lemma unat_ucast_64_32: "unat (ucast (x :: u64) :: u32) = unat x mod 2 ^ 32"
  by (simp only: unsigned_ucast_eq take_bit_eq_mod) simp

lemma unat_drop_bit_nat: "unat (drop_bit n (w :: 'a::len word)) = unat w div 2 ^ n"
  by (simp only: unat_drop_bit_eq) (simp only: drop_bit_eq_div)

lemma unat_and_mask: "unat (w AND mask n :: 'a::len word) = unat w mod 2 ^ n"
  by (simp only: unsigned_take_bit_eq take_bit_eq_mod [where 'a = nat] flip: take_bit_eq_mask)

lemma bit_if_zero: "bit (if P then x else 0 :: 'a::len word) n \<longleftrightarrow> P \<and> bit x n"
  by simp

lemma not_bit_beyond: "32 \<le> m \<Longrightarrow> \<not> bit (w :: u32) m"
  using bit_imp_le_length [of w m] by auto

subsection \<open>Positions in 32-bit limbs\<close>

lemma div_mod_sub_ge:
  fixes n s :: nat
  assumes "s mod 32 \<le> n mod 32" "s div 32 \<le> n div 32"
  shows "s \<le> n" "(n - s) div 32 = n div 32 - s div 32" "(n - s) mod 32 = n mod 32 - s mod 32"
proof -
  obtain d e where d: "n div 32 = s div 32 + d" and e: "n mod 32 = s mod 32 + e"
    using assms le_Suc_ex by blast
  have "n = 32 * (n div 32) + n mod 32" "s = 32 * (s div 32) + s mod 32" by simp_all
  then have n: "n = s + (32 * d + e)" unfolding d e by simp
  have "e < 32" using e mod_less_divisor [of 32 n] by linarith
  then show "(n - s) div 32 = n div 32 - s div 32" "(n - s) mod 32 = n mod 32 - s mod 32"
    by (simp_all add: d e) (simp_all add: n)
  show "s \<le> n" using n by linarith
qed

lemma div_mod_sub_less:
  fixes n s :: nat
  assumes "n mod 32 < s mod 32" "s div 32 < n div 32"
  shows "s \<le> n" "(n - s) div 32 = n div 32 - s div 32 - 1" "(n - s) mod 32 = 32 + n mod 32 - s mod 32"
proof -
  obtain d where d: "n div 32 = s div 32 + 1 + d"
    using assms(2) less_iff_Suc_add by auto
  have s: "s mod 32 < 32" by simp
  define e where "e = 32 + n mod 32 - s mod 32"
  have e: "32 + n mod 32 = s mod 32 + e" "e < 32"
    using assms(1) s unfolding e_def by linarith+
  have "32 * (S + 1 + d) + N = (32 * S + M) + (32 * d + e)" if "32 + N = M + e" for S N M :: nat
    using that by simp
  from this [OF e(1), of "s div 32"] have n: "n = s + (32 * d + e)"
    by (simp only: flip: d) simp
  show "(n - s) div 32 = n div 32 - s div 32 - 1" using e(2) by (simp add: d) (simp add: n)
  show "(n - s) mod 32 = 32 + n mod 32 - s mod 32" using e(2) by (simp only: e(1)) (simp add: n)
  show "s \<le> n" using n by linarith
qed

subsection \<open>Powers of 256\<close>

lemma pow256: "(256::nat) ^ k = 2 ^ (8 * k)"
  by (simp add: power_mult)

lemma pow256_split: "j \<le> k \<Longrightarrow> (256::nat) ^ k = 256 ^ j * 256 ^ (k - j)"
  by (metis power_add le_add_diff_inverse)

text \<open>Equality of two numbers by their lowest digit and the rest.\<close>

lemma digit_eq_iff:
  fixes x y B :: nat
  assumes "x < B" "y < B"
  shows "x + B * p = y + B * q \<longleftrightarrow> x = y \<and> p = q"
proof
  assume eq: "x + B * p = y + B * q"
  then have "(x + B * p) mod B = (y + B * q) mod B" by simp
  then have "x = y" using assms by simp
  with eq assms show "x = y \<and> p = q" by simp
qed simp

end
