(* ===== verification/Byte_Order.thy ===== *)
theory Byte_Order
  imports Hoot_Prelude
begin

text \<open>
  Model of \<^verbatim>\<open>src/src/crypto/common.h\<close>: reading and writing fixed-width integers in little-endian
  and big-endian byte order, and the bit count of a 64-bit word. A pointer to bytes is the list of
  the bytes from there on, so a reader looks at the first bytes of its list, and a writer returns
  the bytes it stores.
\<close>

unbundle bit_operations_syntax

section \<open>The model\<close>

primrec le_nat :: "byte list \<Rightarrow> nat" where
  "le_nat [] = 0"
| "le_nat (b # bs) = unat b + 256 * le_nat bs"

primrec le_bytes :: "nat \<Rightarrow> nat \<Rightarrow> byte list" where
  "le_bytes 0 n = []"
| "le_bytes (Suc k) n = of_nat n # le_bytes k (n div 256)"

definition ReadLE16 :: "byte list \<Rightarrow> u16" where
  "ReadLE16 ptr = of_nat (le_nat (take 2 ptr))"

definition ReadLE32 :: "byte list \<Rightarrow> u32" where
  "ReadLE32 ptr = of_nat (le_nat (take 4 ptr))"

definition ReadLE64 :: "byte list \<Rightarrow> u64" where
  "ReadLE64 ptr = of_nat (le_nat (take 8 ptr))"

definition WriteLE16 :: "u16 \<Rightarrow> byte list" where
  "WriteLE16 x = le_bytes 2 (unat x)"

definition WriteLE32 :: "u32 \<Rightarrow> byte list" where
  "WriteLE32 x = le_bytes 4 (unat x)"

definition WriteLE64 :: "u64 \<Rightarrow> byte list" where
  "WriteLE64 x = le_bytes 8 (unat x)"

definition ReadBE16 :: "byte list \<Rightarrow> u16" where
  "ReadBE16 ptr = of_nat (le_nat (rev (take 2 ptr)))"

definition ReadBE32 :: "byte list \<Rightarrow> u32" where
  "ReadBE32 ptr = of_nat (le_nat (rev (take 4 ptr)))"

definition ReadBE64 :: "byte list \<Rightarrow> u64" where
  "ReadBE64 ptr = of_nat (le_nat (rev (take 8 ptr)))"

definition WriteBE32 :: "u32 \<Rightarrow> byte list" where
  "WriteBE32 x = rev (le_bytes 4 (unat x))"

definition WriteBE64 :: "u64 \<Rightarrow> byte list" where
  "WriteBE64 x = rev (le_bytes 8 (unat x))"

text \<open>The portable loop of \<^verbatim>\<open>CountBits\<close>; the compiler builtins compute the same number.\<close>

function CountBits :: "u64 \<Rightarrow> nat" where
  "CountBits x = (if x = 0 then 0 else CountBits (drop_bit 1 x) + 1)"
  by pat_completeness auto
termination
proof (relation "measure unat")
  fix x :: u64
  assume "x \<noteq> 0"
  then have "unat x \<noteq> 0" by (simp add: unat_eq_zero)
  then show "(drop_bit 1 x, x) \<in> measure unat" by (simp add: unat_drop_bit_nat)
qed simp

declare CountBits.simps [simp del]

section \<open>Little-endian digits\<close>

lemma length_le_bytes [simp]: "length (le_bytes k n) = k"
  by (induction k arbitrary: n) simp_all

lemma unat_byte_less [simp]: "unat (b :: byte) < 256"
  using unsigned_less [of b, where 'a = nat] by simp

lemma le_nat_le_bytes: "le_nat (le_bytes k n) = n mod 256 ^ k"
proof (induction k arbitrary: n)
  case (Suc k)
  have "unat (of_nat n :: byte) = n mod 256" by (simp add: unat_of_nat)
  then show ?case by (simp add: Suc mod_mult2_eq)
qed simp

lemma le_bytes_le_nat: "le_bytes (length bs) (le_nat bs) = bs"
proof (induction bs)
  case (Cons b bs)
  have "of_nat (le_nat (b # bs)) = b + (256 :: byte) * of_nat (le_nat bs)" by simp
  also have "(256 :: byte) = 0" by simp
  finally have "of_nat (le_nat (b # bs)) = b" by simp
  moreover have "le_nat (b # bs) div 256 = le_nat bs" by simp
  ultimately show ?case using Cons by simp
qed simp

lemma le_nat_less: "le_nat bs < 256 ^ length bs"
proof (induction bs)
  case (Cons b bs)
  have "le_nat (b # bs) < 256 * (le_nat bs + 1)" by simp
  also have "\<dots> \<le> 256 * 256 ^ length bs" using Cons by (intro mult_le_mono2) simp
  finally show ?case by simp
qed simp

lemma le_nat_append: "le_nat (xs @ ys) = le_nat xs + 256 ^ length xs * le_nat ys"
  by (induction xs) simp_all

section \<open>Readers invert writers\<close>

lemma length_WriteLE [simp]:
  "length (WriteLE16 x) = 2" "length (WriteLE32 y) = 4" "length (WriteLE64 z) = 8"
  by (simp_all add: WriteLE16_def WriteLE32_def WriteLE64_def)

lemma ReadLE16_WriteLE16 [simp]: "ReadLE16 (WriteLE16 x @ bs) = x"
  using unsigned_less [of x, where 'a = nat]
  by (simp add: ReadLE16_def WriteLE16_def le_nat_le_bytes)

lemma ReadLE32_WriteLE32 [simp]: "ReadLE32 (WriteLE32 x @ bs) = x"
  using unsigned_less [of x, where 'a = nat]
  by (simp add: ReadLE32_def WriteLE32_def le_nat_le_bytes)

lemma ReadLE64_WriteLE64 [simp]: "ReadLE64 (WriteLE64 x @ bs) = x"
  using unsigned_less [of x, where 'a = nat]
  by (simp add: ReadLE64_def WriteLE64_def le_nat_le_bytes)

lemma WriteLE32_ReadLE32: "length bs = 4 \<Longrightarrow> WriteLE32 (ReadLE32 bs) = bs"
  using le_nat_less [of bs] le_bytes_le_nat [of bs]
  by (simp add: ReadLE32_def WriteLE32_def unat_of_nat)

section \<open>The sign bit of a byte\<close>

lemma unat_and_7f: "unat ((b :: byte) AND 0x7f) = unat b mod 128"
  using unat_and_mask [of b 7] by (simp add: mask_eq_exp_minus_1)

lemma and_7f_eq_0: "(b :: byte) AND 0x7f = 0 \<longleftrightarrow> unat b mod 128 = 0"
  by (metis unat_and_7f unat_eq_zero)

lemma and_80_eq_0: "(b :: byte) AND 0x80 = 0 \<longleftrightarrow> unat b < 128"
proof -
  have "(0x80 :: byte) = 2 ^ 7" by simp
  then have "b AND 0x80 = 0 \<longleftrightarrow> \<not> bit b 7" by (metis and_exp_eq_0_iff_not_bit)
  also have "\<dots> \<longleftrightarrow> \<not> bit (unat b) 7" by (simp add: bit_unsigned_iff)
  also have "\<dots> \<longleftrightarrow> even (unat b div 128)" by (simp add: bit_iff_odd)
  also have "unat b div 128 = 0 \<or> unat b div 128 = 1" using unat_byte_less [of b] by linarith
  then have "even (unat b div 128) \<longleftrightarrow> unat b < 128" by auto
  finally show ?thesis .
qed

lemma byte_mod_128: "\<not> unat (b :: byte) < 128 \<Longrightarrow> unat b mod 128 = unat b - 128"
proof -
  assume "\<not> unat b < 128"
  moreover have "unat b - 128 < 128" using unat_byte_less [of b] by linarith
  ultimately show ?thesis by (simp add: le_mod_geq)
qed

lemma unat_or_80: "unat (b :: byte) < 128 \<Longrightarrow> unat (b OR 0x80) = unat b + 128"
proof -
  assume less: "unat b < 128"
  then have "b AND 0x80 = 0" by (simp add: and_80_eq_0)
  then have "b OR 0x80 = b + 0x80" by (simp add: disjunctive_add_eq_or)
  then show ?thesis using less by (simp add: unat_word_ariths)
qed

lemma unat_byte_of_nat: "n < 256 \<Longrightarrow> unat (of_nat n :: byte) = n"
  by (simp add: unat_of_nat)

end
