(* ===== verification/Arith_Uint256.thy ===== *)
theory Arith_Uint256
  imports Byte_Order
begin

text \<open>
  Model of \<^verbatim>\<open>src/src/arith_uint256.h\<close> and \<^verbatim>\<open>src/src/arith_uint256.cpp\<close>, the 256-bit unsigned
  integers of the proof-of-work arithmetic. The array \<^verbatim>\<open>pn\<close> of a \<^verbatim>\<open>base_uint<256>\<close> is the list
  of its eight 32-bit limbs, least significant first; each operator is the loop of the source on
  that list, with its 64-bit carries. The function \<open>uval\<close> reads a limb list as a natural number;
  the lemmas show that every operator computes the arithmetic operation modulo \<open>2 ^ 256\<close>
  (the bitwise shift-and-subtract division included). The last section packs these laws into the
  interface \<open>modular_uint\<close> that the clients of the class rely on.
\<close>

unbundle bit_operations_syntax

section \<open>The model\<close>

type_synonym base_uint = "u32 list"

definition WIDTH :: nat where
  "WIDTH = 8"

definition wf_uint :: "base_uint \<Rightarrow> bool" where
  "wf_uint a \<longleftrightarrow> length a = WIDTH"

primrec uval :: "base_uint \<Rightarrow> nat" where
  "uval [] = 0"
| "uval (x # xs) = unat x + 2 ^ 32 * uval xs"

definition uint_zero :: base_uint where
  "uint_zero = replicate WIDTH 0"

definition uint_of_u64 :: "u64 \<Rightarrow> base_uint" where
  "uint_of_u64 b = ucast b # ucast (drop_bit 32 b) # replicate (WIDTH - 2) 0"

definition uint_not :: "base_uint \<Rightarrow> base_uint" where
  "uint_not a = map (\<lambda>x. NOT x) a"

primrec uint_inc :: "base_uint \<Rightarrow> base_uint" where
  "uint_inc [] = []"
| "uint_inc (x # xs) = (if x + 1 = 0 then (x + 1) # uint_inc xs else (x + 1) # xs)"

primrec uint_dec :: "base_uint \<Rightarrow> base_uint" where
  "uint_dec [] = []"
| "uint_dec (x # xs) = (if x - 1 = 0xffffffff then (x - 1) # uint_dec xs else (x - 1) # xs)"

definition uint_neg :: "base_uint \<Rightarrow> base_uint" where
  "uint_neg a = uint_inc (map (\<lambda>x. NOT x) a)"

definition uint_xor :: "base_uint \<Rightarrow> base_uint \<Rightarrow> base_uint" where
  "uint_xor a b = map2 (\<lambda>x y. x XOR y) a b"

definition uint_and :: "base_uint \<Rightarrow> base_uint \<Rightarrow> base_uint" where
  "uint_and a b = map2 (\<lambda>x y. x AND y) a b"

definition uint_or :: "base_uint \<Rightarrow> base_uint \<Rightarrow> base_uint" where
  "uint_or a b = map2 (\<lambda>x y. x OR y) a b"

text \<open>The variants for a 64-bit operand touch the two low limbs only.\<close>

definition uint_xor64 :: "base_uint \<Rightarrow> u64 \<Rightarrow> base_uint" where
  "uint_xor64 a b = a[0 := a ! 0 XOR ucast b, 1 := a ! 1 XOR ucast (drop_bit 32 b)]"

definition uint_or64 :: "base_uint \<Rightarrow> u64 \<Rightarrow> base_uint" where
  "uint_or64 a b = a[0 := a ! 0 OR ucast b, 1 := a ! 1 OR ucast (drop_bit 32 b)]"

fun add_loop :: "u64 \<Rightarrow> base_uint \<Rightarrow> base_uint \<Rightarrow> base_uint" where
  "add_loop carry (x # xs) (y # ys) =
     (let n = carry + ucast x + ucast y
      in ucast (n AND 0xffffffff) # add_loop (drop_bit 32 n) xs ys)"
| "add_loop carry _ _ = []"

definition uint_add :: "base_uint \<Rightarrow> base_uint \<Rightarrow> base_uint" where
  "uint_add a b = add_loop 0 a b"

definition uint_sub :: "base_uint \<Rightarrow> base_uint \<Rightarrow> base_uint" where
  "uint_sub a b = uint_add a (uint_neg b)"

definition uint_add64 :: "base_uint \<Rightarrow> u64 \<Rightarrow> base_uint" where
  "uint_add64 a b64 = uint_add a (uint_of_u64 b64)"

definition uint_sub64 :: "base_uint \<Rightarrow> u64 \<Rightarrow> base_uint" where
  "uint_sub64 a b64 = uint_add a (uint_neg (uint_of_u64 b64))"

text \<open>
  \<^verbatim>\<open>operator*=(uint32_t)\<close> and the two nested loops of \<^verbatim>\<open>operator*=(const base_uint&)\<close>: row \<open>j\<close>
  adds \<open>pn[j] * b\<close> to the limbs of the accumulator from position \<open>j\<close> on and stops at the top limb,
  so the recursion carries the suffix of the accumulator that the remaining rows still change.
\<close>

fun mul32_loop :: "u64 \<Rightarrow> u32 \<Rightarrow> base_uint \<Rightarrow> base_uint" where
  "mul32_loop carry b32 (x # xs) =
     (let n = carry + ucast b32 * ucast x
      in ucast (n AND 0xffffffff) # mul32_loop (drop_bit 32 n) b32 xs)"
| "mul32_loop carry b32 [] = []"

definition uint_mul32 :: "base_uint \<Rightarrow> u32 \<Rightarrow> base_uint" where
  "uint_mul32 a b32 = mul32_loop 0 b32 a"

fun mul_row :: "u64 \<Rightarrow> u32 \<Rightarrow> base_uint \<Rightarrow> base_uint \<Rightarrow> base_uint" where
  "mul_row carry p (a # as) (b # bs) =
     (let n = carry + ucast a + ucast p * ucast b
      in ucast (n AND 0xffffffff) # mul_row (drop_bit 32 n) p as bs)"
| "mul_row carry p as bs = as"

fun mul_loop :: "base_uint \<Rightarrow> base_uint \<Rightarrow> base_uint \<Rightarrow> base_uint" where
  "mul_loop (p # ps) b acc =
     (case mul_row 0 p acc b of
        [] \<Rightarrow> []
      | r # rs \<Rightarrow> r # mul_loop ps b rs)"
| "mul_loop [] b acc = acc"

definition uint_mul :: "base_uint \<Rightarrow> base_uint \<Rightarrow> base_uint" where
  "uint_mul a b = mul_loop a b uint_zero"

text \<open>The shifts write into a zeroed array, two limbs of the result for each limb of the operand.\<close>

definition shl_step :: "base_uint \<Rightarrow> nat \<Rightarrow> nat \<Rightarrow> nat \<Rightarrow> base_uint \<Rightarrow> base_uint" where
  "shl_step a k shift i pn =
     (let pn1 = (if i + k + 1 < WIDTH \<and> shift \<noteq> 0
                 then pn[i + k + 1 := pn ! (i + k + 1) OR drop_bit (32 - shift) (a ! i)] else pn)
      in if i + k < WIDTH then pn1[i + k := pn1 ! (i + k) OR push_bit shift (a ! i)] else pn1)"

definition uint_shl :: "base_uint \<Rightarrow> nat \<Rightarrow> base_uint" where
  "uint_shl a shift = fold (shl_step a (shift div 32) (shift mod 32)) [0..<WIDTH] uint_zero"

definition shr_step :: "base_uint \<Rightarrow> nat \<Rightarrow> nat \<Rightarrow> nat \<Rightarrow> base_uint \<Rightarrow> base_uint" where
  "shr_step a k shift i pn =
     (let pn1 = (if k + 1 \<le> i \<and> shift \<noteq> 0
                 then pn[i - k - 1 := pn ! (i - k - 1) OR push_bit (32 - shift) (a ! i)] else pn)
      in if k \<le> i then pn1[i - k := pn1 ! (i - k) OR drop_bit shift (a ! i)] else pn1)"

definition uint_shr :: "base_uint \<Rightarrow> nat \<Rightarrow> base_uint" where
  "uint_shr a shift = fold (shr_step a (shift div 32) (shift mod 32)) [0..<WIDTH] uint_zero"

fun compare_loop :: "base_uint \<Rightarrow> base_uint \<Rightarrow> nat \<Rightarrow> int" where
  "compare_loop a b 0 = 0"
| "compare_loop a b (Suc i) =
     (if a ! i < b ! i then -1 else if a ! i > b ! i then 1 else compare_loop a b i)"

definition CompareTo :: "base_uint \<Rightarrow> base_uint \<Rightarrow> int" where
  "CompareTo a b = compare_loop a b WIDTH"

definition uint_ge :: "base_uint \<Rightarrow> base_uint \<Rightarrow> bool" where
  "uint_ge a b \<longleftrightarrow> CompareTo a b \<ge> 0"

definition uint_gt :: "base_uint \<Rightarrow> base_uint \<Rightarrow> bool" where
  "uint_gt a b \<longleftrightarrow> CompareTo a b > 0"

definition EqualTo :: "base_uint \<Rightarrow> u64 \<Rightarrow> bool" where
  "EqualTo a b \<longleftrightarrow> (\<forall>x \<in> set (drop 2 a). x = 0) \<and> ucast (a ! 1) = drop_bit 32 b
     \<and> ucast (a ! 0) = b AND 0xffffffff"

fun top_bit :: "u32 \<Rightarrow> nat \<Rightarrow> nat" where
  "top_bit w 0 = 1"
| "top_bit w (Suc n) = (if w AND push_bit (Suc n) 1 \<noteq> 0 then Suc n + 1 else top_bit w n)"

fun bits_loop :: "base_uint \<Rightarrow> nat \<Rightarrow> nat" where
  "bits_loop a 0 = 0"
| "bits_loop a (Suc pos) = (if a ! pos \<noteq> 0 then 32 * pos + top_bit (a ! pos) 31 else bits_loop a pos)"

definition uint_bits :: "base_uint \<Rightarrow> nat" where
  "uint_bits a = bits_loop a WIDTH"

definition GetLow64 :: "base_uint \<Rightarrow> u64" where
  "GetLow64 a = ucast (a ! 0) OR push_bit 32 (ucast (a ! 1))"

text \<open>
  Division: the divisor is shifted up to align with the dividend and shifted back bit by bit; a
  division by zero is the \<^verbatim>\<open>uint_error\<close> exception of the source.
\<close>

datatype uint_error = Division_by_zero

fun div_loop :: "nat \<Rightarrow> base_uint \<Rightarrow> base_uint \<Rightarrow> base_uint \<Rightarrow> base_uint" where
  "div_loop 0 num dv pn = pn"
| "div_loop (Suc shift) num dv pn =
     (if uint_ge num dv
      then div_loop shift (uint_sub num dv) (uint_shr dv 1)
             (pn[shift div 32 := pn ! (shift div 32) OR push_bit (shift mod 32) 1])
      else div_loop shift num (uint_shr dv 1) pn)"

definition uint_div :: "base_uint \<Rightarrow> base_uint \<Rightarrow> uint_error + base_uint" where
  "uint_div a b =
     (let num_bits = uint_bits a; div_bits = uint_bits b in
      if div_bits = 0 then Inl Division_by_zero
      else if div_bits > num_bits then Inr uint_zero
      else let shift = num_bits - div_bits
           in Inr (div_loop (Suc shift) a (uint_shl b shift) uint_zero))"

text \<open>A \<^verbatim>\<open>uint256\<close> is the array of its 32 bytes.\<close>

definition ArithToUint256 :: "base_uint \<Rightarrow> byte list" where
  "ArithToUint256 a = concat (map WriteLE32 a)"

definition UintToArith256 :: "byte list \<Rightarrow> base_uint" where
  "UintToArith256 b = map (\<lambda>x. ReadLE32 (drop (x * 4) b)) [0..<WIDTH]"

section \<open>Sums, products and complements of limbs\<close>

lemma val_less: "uval xs < 2 ^ (32 * length xs)"
proof (induction xs)
  case (Cons x xs)
  have "unat x < 2 ^ 32" by simp
  then have "uval (x # xs) < 2 ^ 32 * (uval xs + 1)" by simp
  also have "\<dots> \<le> 2 ^ 32 * 2 ^ (32 * length xs)"
    using Cons by (intro mult_le_mono2) simp
  finally show ?case by (simp add: power_add)
qed simp

lemma val_inject: "length xs = length ys \<Longrightarrow> uval xs = uval ys \<Longrightarrow> xs = ys"
proof (induction xs ys rule: list_induct2)
  case (Cons x xs y ys)
  have "uval (x # xs) mod 2 ^ 32 = unat x" "uval (y # ys) mod 2 ^ 32 = unat y"
    "uval (x # xs) div 2 ^ 32 = uval xs" "uval (y # ys) div 2 ^ 32 = uval ys"
    by simp_all
  with Cons show ?case by (metis word_unat_eq_iff)
qed simp

lemma val_mod [simp]: "uval (x # xs) mod 4294967296 = unat x"
  and val_div [simp]: "uval (x # xs) div 4294967296 = uval xs"
  by simp_all

lemma limb_step:
  fixes n :: u64
  assumes "unat n = m" and "uval rest = (unat (drop_bit 32 n) + k) mod M"
  shows "uval (ucast (n AND 0xffffffff) # rest) = (m + 2 ^ 32 * k) mod (2 ^ 32 * M)"
  using carry_step [of n k M] assms by (simp only: uval.simps)

lemma power_limbs: "(2::nat) ^ (32 * Suc n) = 2 ^ 32 * 2 ^ (32 * n)"
  by (simp only: mult_Suc_right power_add)

lemma high32_less: "unat (drop_bit 32 (n :: u64)) < 2 ^ 32"
  by (simp only: unat_high32) (simp add: less_mult_imp_div_less)

lemma carry_sum3:
  fixes c :: u64 and x y :: u32
  assumes "unat c < 2 ^ 32"
  shows "unat (c + ucast x + ucast y) = unat c + unat x + unat y"
proof -
  have "unat c < 4294967296" using assms by simp
  then have *: "unat c + unat x + unat y < 12884901888"
    using unat_u32_less [of x] unat_u32_less [of y] by linarith
  then have "unat (c + ucast x) = unat c + unat x"
    by (subst unat_plus_no_overflow) (simp_all add: word_nat)
  with * show ?thesis
    by (subst unat_plus_no_overflow) (simp_all add: word_nat)
qed

lemma length_add_loop [simp]: "length (add_loop c xs ys) = min (length xs) (length ys)"
  by (induction c xs ys rule: add_loop.induct) (auto simp: Let_def)

lemma val_add_loop:
  "unat c < 2 ^ 32 \<Longrightarrow> length xs = length ys \<Longrightarrow>
   uval (add_loop c xs ys) = (unat c + uval xs + uval ys) mod 2 ^ (32 * length xs)"
proof (induction c xs ys rule: add_loop.induct)
  case (1 c x xs y ys)
  let ?n = "c + ucast x + ucast y :: u64"
  have "uval (add_loop (drop_bit 32 ?n) xs ys)
      = (unat (drop_bit 32 ?n) + (uval xs + uval ys)) mod 2 ^ (32 * length xs)"
    using "1.IH" high32_less "1.prems" by (simp only: add.assoc) simp
  then have "uval (add_loop c (x # xs) (y # ys))
      = (unat c + unat x + unat y + 2 ^ 32 * (uval xs + uval ys)) mod (2 ^ 32 * 2 ^ (32 * length xs))"
    using carry_sum3 [OF "1.prems"(1)] by (simp only: add_loop.simps Let_def limb_step)
  then show ?case
    by (simp only: power_limbs list.size uval.simps) (simp add: power_add algebra_simps)
qed auto

lemma mul_acc_bound:
  fixes c a p b :: nat
  assumes "c < 2 ^ 32" and "a < 2 ^ 32" and "p < 2 ^ 32" and "b < 2 ^ 32"
  shows "c + a + p * b < 2 ^ 64"
proof -
  have "p * b \<le> (2 ^ 32 - 1) * (2 ^ 32 - 1)"
    using assms by (intro mult_le_mono) simp_all
  then show ?thesis using assms by simp
qed

lemma carry_mul:
  fixes c :: u64 and a p b :: u32
  assumes "unat c < 2 ^ 32"
  shows "unat (c + ucast a + ucast p * ucast b) = unat c + unat a + unat p * unat b"
proof -
  have *: "unat c + unat a + unat p * unat b < 2 ^ 64"
    by (rule mul_acc_bound) (use assms in simp_all)
  have "unat (ucast p * ucast b :: u64) = unat p * unat b"
    using * by (subst unat_times_no_overflow) (simp_all add: word_nat)
  moreover have "unat (c + ucast a) = unat c + unat a"
    using * by (subst unat_plus_no_overflow) (simp_all add: word_nat)
  ultimately show ?thesis
    using * by (subst unat_plus_no_overflow) (simp_all add: word_nat)
qed

lemma length_mul32_loop [simp]: "length (mul32_loop c b xs) = length xs"
  by (induction c b xs rule: mul32_loop.induct) (auto simp: Let_def)

lemma val_mul32_loop:
  "unat c < 2 ^ 32 \<Longrightarrow> uval (mul32_loop c b xs) = (unat c + unat b * uval xs) mod 2 ^ (32 * length xs)"
proof (induction c b xs rule: mul32_loop.induct)
  case (1 c b x xs)
  let ?n = "c + ucast b * ucast x :: u64"
  have "unat ?n = unat c + unat b * unat x"
    using carry_mul [OF "1.prems", of 0 b x] by simp
  moreover have "uval (mul32_loop (drop_bit 32 ?n) b xs)
      = (unat (drop_bit 32 ?n) + unat b * uval xs) mod 2 ^ (32 * length xs)"
    using "1.IH" high32_less by simp
  ultimately have "uval (mul32_loop c b (x # xs))
      = (unat c + unat b * unat x + 2 ^ 32 * (unat b * uval xs)) mod (2 ^ 32 * 2 ^ (32 * length xs))"
    by (simp only: mul32_loop.simps Let_def limb_step)
  then show ?case
    by (simp only: power_limbs list.size uval.simps) (simp add: power_add algebra_simps)
qed simp

lemma length_mul_row [simp]: "length (mul_row c p as bs) = length as"
  by (induction c p as bs rule: mul_row.induct) (auto simp: Let_def)

lemma val_mul_row:
  "unat c < 2 ^ 32 \<Longrightarrow> length as \<le> length bs \<Longrightarrow>
   uval (mul_row c p as bs) = (unat c + uval as + unat p * uval bs) mod 2 ^ (32 * length as)"
proof (induction c p as bs rule: mul_row.induct)
  case (1 c p a as b bs)
  let ?n = "c + ucast a + ucast p * ucast b :: u64"
  have "uval (mul_row (drop_bit 32 ?n) p as bs)
      = (unat (drop_bit 32 ?n) + (uval as + unat p * uval bs)) mod 2 ^ (32 * length as)"
    using "1.IH" high32_less "1.prems" by (simp only: add.assoc) simp
  then have "uval (mul_row c p (a # as) (b # bs))
      = (unat c + unat a + unat p * unat b + 2 ^ 32 * (uval as + unat p * uval bs))
        mod (2 ^ 32 * 2 ^ (32 * length as))"
    using carry_mul [OF "1.prems"(1)] by (simp only: mul_row.simps Let_def limb_step)
  then show ?case
    by (simp only: power_limbs list.size uval.simps) (simp add: power_add algebra_simps)
qed simp_all

lemma length_mul_loop [simp]: "length ps = length acc \<Longrightarrow> length (mul_loop ps b acc) = length acc"
proof (induction ps b acc rule: mul_loop.induct)
  case (1 p ps b acc)
  have "length (mul_row 0 p acc b) = Suc (length ps)" using "1.prems" by simp
  then obtain r rs where "mul_row 0 p acc b = r # rs" and "length rs = length ps"
    by (metis length_Suc_conv)
  with 1 show ?case by simp
qed simp

lemma val_mul_loop:
  "length ps = length acc \<Longrightarrow> length acc \<le> length b \<Longrightarrow>
   uval (mul_loop ps b acc) = (uval acc + uval ps * uval b) mod 2 ^ (32 * length acc)"
proof (induction ps b acc rule: mul_loop.induct)
  case (1 p ps b acc)
  have row: "uval (mul_row 0 p acc b) = (uval acc + unat p * uval b) mod 2 ^ (32 * length acc)"
    using val_mul_row [of 0 acc b p] "1.prems" by simp
  have "length (mul_row 0 p acc b) = Suc (length ps)" using "1.prems" by simp
  then obtain r rs where r: "mul_row 0 p acc b = r # rs" and len: "length rs = length ps"
    by (metis length_Suc_conv)
  have IH: "uval (mul_loop ps b rs) = (uval rs + uval ps * uval b) mod 2 ^ (32 * length ps)"
    using "1.IH" [OF r] "1.prems" len by simp
  have "uval (mul_loop (p # ps) b acc) = unat r + 2 ^ 32 * ((uval rs + uval ps * uval b) mod 2 ^ (32 * length ps))"
    by (simp only: mul_loop.simps r list.case uval.simps IH)
  also have "\<dots> = (unat r + 2 ^ 32 * (uval rs + uval ps * uval b)) mod (2 ^ 32 * 2 ^ (32 * length ps))"
    by (rule low_plus_mod) simp
  also have "2 ^ 32 * 2 ^ (32 * length ps) = (2::nat) ^ (32 * length acc)"
    by (simp add: power_add flip: "1.prems"(1))
  also have "unat r + 2 ^ 32 * (uval rs + uval ps * uval b)
      = (uval acc + unat p * uval b) mod 2 ^ (32 * length acc) + 2 ^ 32 * uval ps * uval b"
    using row unfolding r by (simp add: algebra_simps)
  also have "\<dots> mod 2 ^ (32 * length acc) = (uval acc + uval (p # ps) * uval b) mod 2 ^ (32 * length acc)"
    by (simp only: mod_add_left_eq uval.simps) (simp add: algebra_simps)
  finally show ?case .
qed simp


lemma unat_not: "unat (NOT (x :: u32)) = 2 ^ 32 - 1 - unat x"
proof -
  have "uint (NOT x) = take_bit 32 (NOT (uint x))"
    by (simp add: unsigned_not_eq)
  also have "\<dots> = (- uint x - 1) mod 2 ^ 32"
    by (simp only: take_bit_eq_mod not_eq_complement)
  also have "\<dots> = (2 ^ 32 - 1 - uint x + (- 1) * 2 ^ 32) mod 2 ^ 32"
    by (rule arg_cong [where f = "\<lambda>k. k mod 2 ^ 32"]) simp
  also have "\<dots> = (2 ^ 32 - 1 - uint x) mod 2 ^ 32"
    by (rule mod_mult_self1)
  also have "\<dots> = 2 ^ 32 - 1 - uint x"
  proof (rule mod_pos_pos_trivial)
    show "0 \<le> 2 ^ 32 - 1 - uint x" using uint_lt2p [of x] by simp
    have "0 \<le> uint x" by simp
    then show "2 ^ 32 - 1 - uint x < 2 ^ 32" by linarith
  qed
  finally have "uint (NOT x) = 4294967295 - uint x" by simp
  then have "int (unat (NOT x)) = 4294967295 - int (unat x)" by (simp only: of_nat_unat)
  then have "unat (NOT x) = 4294967295 - unat x" by linarith
  then show ?thesis by simp
qed

lemma length_uint_inc [simp]: "length (uint_inc xs) = length xs"
  by (induction xs) simp_all

lemma val_not: "uval (map (\<lambda>x. NOT x) xs) + uval xs + 1 = 2 ^ (32 * length xs)"
proof (induction xs)
  case (Cons x xs)
  have "unat x \<le> 4294967295" using unat_u32_less [of x] by linarith
  then have "unat (NOT x) + unat x + 1 = 4294967296" by (simp add: unat_not)
  then show ?case
    using arg_cong [OF Cons.IH, of "(*) 4294967296"] by (simp add: power_add)
qed simp

lemma val_uint_inc: "uval (uint_inc xs) = (uval xs + 1) mod 2 ^ (32 * length xs)"
proof (induction xs)
  case (Cons x xs)
  show ?case
  proof (cases "x + 1 = 0")
    case True
    then have "x = - 1" by (simp add: eq_neg_iff_add_eq_0)
    then have x: "unat x = 2 ^ 32 - 1"
      by (simp add: unsigned_minus_1_eq_mask mask_eq_exp_minus_1)
    have "uval (uint_inc (x # xs)) = 0 + 2 ^ 32 * ((uval xs + 1) mod 2 ^ (32 * length xs))"
      using True Cons.IH by simp
    also have "\<dots> = (0 + 2 ^ 32 * (uval xs + 1)) mod (2 ^ 32 * 2 ^ (32 * length xs))"
      by (rule low_plus_mod) simp
    finally show ?thesis by (simp add: x power_add algebra_simps)
  next
    case False
    then have x: "unat (x + 1) = unat x + 1"
      by (metis add.commute Suc_eq_plus1 unatSuc)
    have "uval (x # xs) + 1 = uval ((x + 1) # xs)" by (simp add: x)
    then show ?thesis
      using False val_less [of "(x + 1) # xs"] by simp
  qed
qed simp

lemma val_uint_neg: "uval (uint_neg xs) = (2 ^ (32 * length xs) - uval xs) mod 2 ^ (32 * length xs)"
proof -
  have "uval (map (\<lambda>x. NOT x) xs) + 1 = 2 ^ (32 * length xs) - uval xs"
    using val_not [of xs] val_less [of xs] by linarith
  then show ?thesis
    by (simp add: uint_neg_def val_uint_inc)
qed

section \<open>Shifts\<close>

lemma bit_val: "bit (uval xs) n \<longleftrightarrow> n div 32 < length xs \<and> bit (xs ! (n div 32)) (n mod 32)"
proof (induction xs arbitrary: n)
  case (Cons x xs)
  have lo: "take_bit 32 (uval (x # xs)) = unat x" and hi: "drop_bit 32 (uval (x # xs)) = uval xs"
    by (simp_all add: take_bit_eq_mod drop_bit_eq_div)
  show ?case
  proof (cases "n < 32")
    case True
    then have "bit (uval (x # xs)) n \<longleftrightarrow> bit (take_bit 32 (uval (x # xs))) n"
      by (simp only: bit_take_bit_iff) simp
    also have "\<dots> \<longleftrightarrow> bit x n"
      unfolding lo using True by (simp add: bit_unsigned_iff)
    finally show ?thesis using True by simp
  next
    case False
    then have "bit (uval (x # xs)) n \<longleftrightarrow> bit (drop_bit 32 (uval (x # xs))) (n - 32)"
      by (simp only: bit_drop_bit_eq comp_def) simp
    also have "\<dots> \<longleftrightarrow> bit (uval xs) (n - 32)" unfolding hi ..
    finally show ?thesis
      using False Cons.IH [of "n - 32"] by (simp add: le_div_geq le_mod_geq)
  qed
qed simp

lemma length_shl_step [simp]: "length (shl_step a k s i pn) = length pn"
  by (simp add: shl_step_def Let_def)

lemma nth_shl_step:
  assumes "length pn = WIDTH" and "j < WIDTH"
  shows "shl_step a k s i pn ! j =
    (pn ! j OR (if s \<noteq> 0 \<and> j = i + k + 1 then drop_bit (32 - s) (a ! i) else 0))
      OR (if j = i + k then push_bit s (a ! i) else 0)"
  using assms by (auto simp: shl_step_def Let_def nth_list_update)

lemma nth_shl_fold:
  assumes "j < WIDTH"
  shows "length (fold (shl_step a k s) [0..<m] uint_zero) = WIDTH \<and>
    fold (shl_step a k s) [0..<m] uint_zero ! j =
    (if k \<le> j \<and> j - k < m then push_bit s (a ! (j - k)) else 0) OR
    (if s \<noteq> 0 \<and> k + 1 \<le> j \<and> j - k - 1 < m then drop_bit (32 - s) (a ! (j - k - 1)) else 0)"
proof (induction m)
  case 0
  then show ?case using assms by (simp add: uint_zero_def)
next
  case (Suc m)
  let ?p = "fold (shl_step a k s) [0..<m] uint_zero"
  have len: "length ?p = WIDTH" using Suc by simp
  have nth: "shl_step a k s m ?p ! j =
      (?p ! j OR (if s \<noteq> 0 \<and> j = m + k + 1 then drop_bit (32 - s) (a ! m) else 0))
        OR (if j = m + k then push_bit s (a ! m) else 0)"
    using len assms by (rule nth_shl_step)
  consider "j = m + k" | "j = m + k + 1" | "j < m + k" | "j > m + k + 1" by linarith
  then show ?case
  proof cases
    case 1
    with Suc nth len show ?thesis by (simp add: or.commute)
  next
    case 2
    with Suc nth len show ?thesis by simp
  next
    case 3
    then have "k \<le> j \<and> j - k < Suc m \<longleftrightarrow> k \<le> j \<and> j - k < m"
      and "k + 1 \<le> j \<and> j - k - 1 < Suc m \<longleftrightarrow> k + 1 \<le> j \<and> j - k - 1 < m"
      by linarith+
    with 3 Suc nth len show ?thesis by simp
  next
    case 4
    then have "\<not> (k \<le> j \<and> j - k < Suc m)" "\<not> (k \<le> j \<and> j - k < m)"
      and "\<not> (k + 1 \<le> j \<and> j - k - 1 < Suc m)" "\<not> (k + 1 \<le> j \<and> j - k - 1 < m)"
      by linarith+
    with 4 Suc nth len show ?thesis by simp
  qed
qed

lemma length_uint_shl [simp]: "length (uint_shl a s) = WIDTH"
  using nth_shl_fold [of 0] by (simp add: uint_shl_def WIDTH_def)

lemma nth_uint_shl:
  "j < WIDTH \<Longrightarrow> uint_shl a s ! j =
    (if s div 32 \<le> j then push_bit (s mod 32) (a ! (j - s div 32)) else 0) OR
    (if s mod 32 \<noteq> 0 \<and> s div 32 + 1 \<le> j then drop_bit (32 - s mod 32) (a ! (j - s div 32 - 1)) else 0)"
  using nth_shl_fold [of j a "s div 32" "s mod 32" WIDTH] by (auto simp: uint_shl_def)

lemma shift_cases:
  "s mod 32 \<le> n mod 32 \<and> s div 32 \<le> n div 32 \<or> n mod 32 < s mod 32 \<and> s div 32 < n div 32 \<or> n < s"
  for s n :: nat
proof (cases "s \<le> n")
  case True
  then have "s div 32 \<le> n div 32" by (rule div_le_mono)
  moreover have "s mod 32 \<le> n mod 32" if "s div 32 = n div 32"
    using True that mult_div_mod_eq [of 32 s] mult_div_mod_eq [of 32 n] by linarith
  ultimately show ?thesis by linarith
qed simp

lemma bit_limb_shl:
  assumes len: "length a = WIDTH" and n: "n < 256"
  shows "bit (uint_shl a s ! (n div 32)) (n mod 32) \<longleftrightarrow> s \<le> n \<and> bit (uval a) (n - s)"
proof -
  let ?j = "n div 32" and ?r = "n mod 32" and ?k = "s div 32" and ?t = "s mod 32"
  have rt: "?r < 32" "?t < 32" by simp_all
  have j: "?j < WIDTH" using n by (simp add: WIDTH_def div_less_iff_less_mult)
  have bits: "bit (uint_shl a s ! ?j) ?r \<longleftrightarrow>
      ?k \<le> ?j \<and> ?t \<le> ?r \<and> bit (a ! (?j - ?k)) (?r - ?t) \<or>
      ?t \<noteq> 0 \<and> ?k + 1 \<le> ?j \<and> bit (a ! (?j - ?k - 1)) (32 - ?t + ?r)"
    using n rt by (simp add: nth_uint_shl j bit_or_iff bit_push_bit_iff bit_drop_bit_eq comp_def)
  consider (same) "?t \<le> ?r" "?k \<le> ?j" | (carry) "?r < ?t" "?k < ?j" | (out) "n < s"
    using shift_cases [of s n] by blast
  then show ?thesis
  proof cases
    case same
    note d = div_mod_sub_ge [OF same]
    have "?j - ?k < length a" using j len by simp
    moreover have "\<not> bit (a ! (?j - ?k - 1)) (32 - ?t + ?r)"
      using same rt by (intro not_bit_beyond) linarith
    ultimately show ?thesis using bits same d by (simp add: bit_val)
  next
    case carry
    note d = div_mod_sub_less [OF carry]
    have "?j - ?k - 1 < length a" using j len by simp
    moreover have "32 - ?t + ?r = 32 + ?r - ?t" using rt by simp
    ultimately show ?thesis using bits carry d by (simp add: bit_val)
  next
    case out
    then have "\<not> (?t \<le> ?r \<and> ?k \<le> ?j)" "\<not> (?r < ?t \<and> ?k < ?j)"
      using div_mod_sub_ge(1) [of s n] div_mod_sub_less(1) [of n s] by auto
    moreover have "\<not> bit (a ! (?j - ?k - 1)) (32 - ?t + ?r)" if "?t \<le> ?r"
      using that rt by (intro not_bit_beyond) linarith
    ultimately show ?thesis using bits out by auto
  qed
qed

lemma val_uint_shl:
  assumes "wf_uint a"
  shows "uval (uint_shl a s) = take_bit 256 (push_bit s (uval a))"
proof (rule bit_eqI)
  fix n :: nat
  have len: "length a = WIDTH" using assms by (simp add: wf_uint_def)
  have j: "n div 32 < WIDTH \<longleftrightarrow> n < 256" by (simp add: WIDTH_def div_less_iff_less_mult)
  show "bit (uval (uint_shl a s)) n \<longleftrightarrow> bit (take_bit 256 (push_bit s (uval a))) n"
    using bit_limb_shl [OF len]
    by (auto simp: bit_val [of "uint_shl a s"] j bit_take_bit_iff bit_push_bit_iff)
qed

lemma length_shr_step [simp]: "length (shr_step a k s i pn) = length pn"
  by (simp add: shr_step_def Let_def)

lemma nth_shr_step:
  assumes "length pn = WIDTH" and "j < WIDTH"
  shows "shr_step a k s i pn ! j =
    (pn ! j OR (if s \<noteq> 0 \<and> j + k + 1 = i then push_bit (32 - s) (a ! i) else 0))
      OR (if j + k = i then drop_bit s (a ! i) else 0)"
  using assms by (auto simp: shr_step_def Let_def nth_list_update)

lemma nth_shr_fold:
  assumes "j < WIDTH"
  shows "length (fold (shr_step a k s) [0..<m] uint_zero) = WIDTH \<and>
    fold (shr_step a k s) [0..<m] uint_zero ! j =
    (if j + k < m then drop_bit s (a ! (j + k)) else 0) OR
    (if s \<noteq> 0 \<and> j + k + 1 < m then push_bit (32 - s) (a ! (j + k + 1)) else 0)"
proof (induction m)
  case 0
  then show ?case using assms by (simp add: uint_zero_def)
next
  case (Suc m)
  let ?p = "fold (shr_step a k s) [0..<m] uint_zero"
  have len: "length ?p = WIDTH" using Suc by simp
  have nth: "shr_step a k s m ?p ! j =
      (?p ! j OR (if s \<noteq> 0 \<and> j + k + 1 = m then push_bit (32 - s) (a ! m) else 0))
        OR (if j + k = m then drop_bit s (a ! m) else 0)"
    using len assms by (rule nth_shr_step)
  consider "m = j + k" | "m = j + k + 1" | "m < j + k" | "m > j + k + 1" by linarith
  then show ?case
    by cases (use Suc nth len in simp_all)
qed

lemma length_uint_shr [simp]: "length (uint_shr a s) = WIDTH"
  using nth_shr_fold [of 0] by (simp add: uint_shr_def WIDTH_def)

lemma nth_uint_shr:
  "j < WIDTH \<Longrightarrow> uint_shr a s ! j =
    (if j + s div 32 < WIDTH then drop_bit (s mod 32) (a ! (j + s div 32)) else 0) OR
    (if s mod 32 \<noteq> 0 \<and> j + s div 32 + 1 < WIDTH then push_bit (32 - s mod 32) (a ! (j + s div 32 + 1)) else 0)"
  using nth_shr_fold [of j a "s div 32" "s mod 32" WIDTH] by (auto simp: uint_shr_def)

lemma val_uint_shr:
  assumes "wf_uint a"
  shows "uval (uint_shr a s) = drop_bit s (uval a)"
proof (rule bit_eqI)
  fix n :: nat
  have len: "length a = WIDTH" using assms by (simp add: wf_uint_def)
  let ?j = "n div 32" and ?r = "n mod 32" and ?k = "s div 32" and ?t = "s mod 32"
  have rt: "?r < 32" "?t < 32" by simp_all
  have bits: "bit (uval (uint_shr a s)) n \<longleftrightarrow> ?j < WIDTH \<and>
      (?j + ?k < WIDTH \<and> bit (a ! (?j + ?k)) (?t + ?r) \<or>
       ?t \<noteq> 0 \<and> ?j + ?k + 1 < WIDTH \<and> 32 - ?t \<le> ?r \<and> bit (a ! (?j + ?k + 1)) (?r - (32 - ?t)))"
    using rt by (auto simp: bit_val nth_uint_shr bit_or_iff bit_push_bit_iff bit_drop_bit_eq bit_if_zero
        simp del: One_nat_def)
  have rhs: "bit (drop_bit s (uval a)) n \<longleftrightarrow>
      (s + n) div 32 < WIDTH \<and> bit (a ! ((s + n) div 32)) ((s + n) mod 32)"
    by (simp add: bit_drop_bit_eq bit_val len)
  have kj: "?k + ?j = ?j + ?k" by (rule add.commute)
  have dm: "(s + n) div 32 = ?k + ?j + (?t + ?r) div 32" "(s + n) mod 32 = (?t + ?r) mod 32"
    by (rule div_add1_eq, rule mod_add_eq [symmetric])
  show "bit (uval (uint_shr a s)) n \<longleftrightarrow> bit (drop_bit s (uval a)) n"
  proof (cases "?t + ?r < 32")
    case True
    then have e: "(s + n) div 32 = ?j + ?k" "(s + n) mod 32 = ?t + ?r"
      by (simp_all only: dm mod_less div_less add_0_right kj)
    have "?j + ?k < WIDTH \<longrightarrow> ?j < WIDTH" "\<not> 32 - ?t \<le> ?r"
      using True by linarith+
    then show ?thesis unfolding bits rhs e by blast
  next
    case False
    then have "(?t + ?r) div 32 = 1" "(?t + ?r) mod 32 = ?t + ?r - 32"
      using rt by (simp_all add: le_div_geq le_mod_geq)
    moreover have "?t + ?r - 32 = ?r - (32 - ?t)" using rt by linarith
    ultimately have e: "(s + n) div 32 = ?j + ?k + 1" "(s + n) mod 32 = ?r - (32 - ?t)"
      by (simp_all only: dm kj)
    have "?j + ?k + 1 < WIDTH \<longrightarrow> ?j < WIDTH" "32 - ?t \<le> ?r" "?t \<noteq> 0"
      using False rt by linarith+
    moreover have "\<not> bit (a ! (?j + ?k)) (?t + ?r)"
      using False by (intro not_bit_beyond) linarith
    ultimately show ?thesis unfolding bits rhs e by blast
  qed
qed

section \<open>Comparison, size and division\<close>

lemma val_append: "uval (xs @ ys) = uval xs + 2 ^ (32 * length xs) * uval ys"
  by (induction xs) (simp_all add: power_add algebra_simps)

lemma val_take_Suc: "n < length xs \<Longrightarrow> uval (take (Suc n) xs) = uval (take n xs) + 2 ^ (32 * n) * unat (xs ! n)"
  by (simp add: take_Suc_conv_app_nth val_append)

lemma val_take_less: "uval (take n xs) < 2 ^ (32 * n)"
  by (rule less_le_trans [OF val_less]) simp

lemma limb_less:
  fixes va vb x y M :: nat
  assumes "va < M" "vb < M"
  shows "x < y \<Longrightarrow> va + M * x < vb + M * y"
proof -
  assume "x < y"
  then have "M * (x + 1) \<le> M * y" by (intro mult_le_mono2) simp
  then show ?thesis using assms by simp
qed

lemma compare_loop_val:
  assumes "n \<le> length a" "n \<le> length b"
  shows "compare_loop a b n =
    (if uval (take n a) < uval (take n b) then -1 else if uval (take n b) < uval (take n a) then 1 else 0)"
  using assms
proof (induction n)
  case (Suc n)
  note t = val_take_Suc [of n a] val_take_Suc [of n b] val_take_less [of n a] val_take_less [of n b]
  consider "a ! n < b ! n" | "b ! n < a ! n" | "a ! n = b ! n" by (rule linorder_cases)
  then show ?case
  proof cases
    case 1
    then have "unat (a ! n) < unat (b ! n)" by (simp add: word_less_nat_alt)
    with limb_less [OF t(3,4) this] 1 Suc.prems t(1,2) show ?thesis by simp
  next
    case 2
    then have "unat (b ! n) < unat (a ! n)" by (simp add: word_less_nat_alt)
    with limb_less [OF t(4,3) this] 2 Suc.prems t(1,2) show ?thesis by auto
  next
    case 3
    with Suc t(1,2) show ?thesis by simp
  qed
qed simp

lemma CompareTo_val:
  assumes "wf_uint a" "wf_uint b"
  shows "CompareTo a b = (if uval a < uval b then -1 else if uval b < uval a then 1 else 0)"
  using compare_loop_val [of WIDTH a b] assms by (simp add: CompareTo_def wf_uint_def)

lemma uint_ge_val: "wf_uint a \<Longrightarrow> wf_uint b \<Longrightarrow> uint_ge a b \<longleftrightarrow> uval b \<le> uval a"
  by (simp add: uint_ge_def CompareTo_val)

lemma uint_gt_val: "wf_uint a \<Longrightarrow> wf_uint b \<Longrightarrow> uint_gt a b \<longleftrightarrow> uval b < uval a"
  by (simp add: uint_gt_def CompareTo_val)

lemma top_bit_val:
  assumes "w \<noteq> 0" "unat w < 2 ^ Suc m" "m < 32"
  shows "2 ^ (top_bit w m - 1) \<le> unat w \<and> unat w < 2 ^ top_bit w m \<and> 0 < top_bit w m"
  using assms
proof (induction m)
  case 0
  have "unat w \<noteq> 0" using 0 by (simp add: unat_eq_zero)
  with 0 show ?case by simp
next
  case (Suc m)
  have b: "w AND push_bit (Suc m) 1 \<noteq> 0 \<longleftrightarrow> bit (unat w) (Suc m)"
    using Suc.prems by (simp only: flip: bit_iff_and_push_bit_not_eq_0) (simp add: bit_unsigned_iff)
  show ?case
  proof (cases "bit (unat w) (Suc m)")
    case True
    with b bit_ge [OF True] Suc.prems show ?thesis by simp
  next
    case False
    have "unat w < 2 ^ Suc m" using Suc.prems(2) False by (rule not_bit_less)
    with Suc b False show ?thesis by simp
  qed
qed

lemma bits_loop_val:
  "n \<le> length a \<Longrightarrow> uval (take n a) < 2 ^ bits_loop a n \<and>
   (bits_loop a n = 0 \<longleftrightarrow> uval (take n a) = 0) \<and>
   (bits_loop a n \<noteq> 0 \<longrightarrow> 2 ^ (bits_loop a n - 1) \<le> uval (take n a))"
proof (induction n)
  case (Suc n)
  note t = val_take_Suc [of n a]
  show ?case
  proof (cases "a ! n = 0")
    case True
    with Suc t show ?thesis by auto
  next
    case False
    let ?w = "a ! n" and ?b = "top_bit (a ! n) 31"
    have tb: "2 ^ (?b - 1) \<le> unat ?w" "unat ?w < 2 ^ ?b" "0 < ?b"
      using top_bit_val [OF False, of 31] by simp_all
    have v: "uval (take (Suc n) a) = uval (take n a) + 2 ^ (32 * n) * unat ?w"
      using t Suc.prems by simp
    have "(2::nat) ^ (32 * n) * 2 ^ (?b - 1) \<le> 2 ^ (32 * n) * unat ?w"
      using tb by (intro mult_le_mono2)
    then have lo: "(2::nat) ^ (32 * n + ?b - 1) \<le> uval (take (Suc n) a)"
      using v tb(3) by (simp flip: power_add)
    have "uval (take n a) + 2 ^ (32 * n) * unat ?w < 2 ^ (32 * n) * 2 ^ ?b"
    proof -
      have "2 ^ (32 * n) * (unat ?w + 1) \<le> (2::nat) ^ (32 * n) * 2 ^ ?b"
        using tb(2) by (intro mult_le_mono2) simp
      then show ?thesis using val_take_less [of n a] by (simp add: algebra_simps)
    qed
    then have hi: "uval (take (Suc n) a) < 2 ^ (32 * n + ?b)"
      using v by (simp add: power_add)
    have "0 < uval (take (Suc n) a)" using lo by (metis less_le_trans zero_less_numeral zero_less_power)
    with False lo hi tb(3) show ?thesis by simp
  qed
qed simp

lemma uint_bits_le_iff:
  assumes "wf_uint a"
  shows "uint_bits a \<le> n \<longleftrightarrow> uval a < 2 ^ n"
proof -
  have *: "uval a < 2 ^ uint_bits a" "uint_bits a = 0 \<longleftrightarrow> uval a = 0"
    "uint_bits a \<noteq> 0 \<longrightarrow> 2 ^ (uint_bits a - 1) \<le> uval a"
    using bits_loop_val [of WIDTH a] assms by (auto simp: uint_bits_def wf_uint_def)
  show ?thesis
  proof
    assume "uint_bits a \<le> n"
    then have "(2::nat) ^ uint_bits a \<le> 2 ^ n" by simp
    with *(1) show "uval a < 2 ^ n" by linarith
  next
    assume "uval a < 2 ^ n"
    show "uint_bits a \<le> n"
    proof (rule ccontr)
      assume "\<not> ?thesis"
      then have "(2::nat) ^ n \<le> 2 ^ (uint_bits a - 1)" "uint_bits a \<noteq> 0" by auto
      with * \<open>uval a < 2 ^ n\<close> show False by linarith
    qed
  qed
qed

lemma uint_bits_0_iff: "wf_uint a \<Longrightarrow> uint_bits a = 0 \<longleftrightarrow> uval a = 0"
  using uint_bits_le_iff [of a 0] by simp

lemma val_less_256: "wf_uint a \<Longrightarrow> uval a < 2 ^ 256"
  using val_less [of a] by (simp add: wf_uint_def WIDTH_def)

lemma wf_uint_zero [simp, wf_intro]: "wf_uint uint_zero"
  by (simp add: wf_uint_def uint_zero_def)

lemma val_replicate_0 [simp]: "uval (replicate n 0) = 0"
  by (induction n) simp_all

lemma val_uint_zero [simp]: "uval uint_zero = 0"
  by (simp add: uint_zero_def)

lemma wf_uint_shl [simp, wf_intro]: "wf_uint (uint_shl a s)"
  by (simp add: wf_uint_def)

lemma wf_uint_shr [simp, wf_intro]: "wf_uint (uint_shr a s)"
  by (simp add: wf_uint_def)

lemma wf_uint_add [simp, wf_intro]: "wf_uint a \<Longrightarrow> wf_uint b \<Longrightarrow> wf_uint (uint_add a b)"
  by (simp add: wf_uint_def uint_add_def)

lemma wf_uint_neg [simp, wf_intro]: "wf_uint a \<Longrightarrow> wf_uint (uint_neg a)"
  by (simp add: wf_uint_def uint_neg_def)

lemma wf_uint_sub [simp, wf_intro]: "wf_uint a \<Longrightarrow> wf_uint b \<Longrightarrow> wf_uint (uint_sub a b)"
  by (simp add: uint_sub_def)

lemma val_uint_add: "wf_uint a \<Longrightarrow> wf_uint b \<Longrightarrow> uval (uint_add a b) = (uval a + uval b) mod 2 ^ 256"
  using val_add_loop [of 0 a b] by (simp add: uint_add_def wf_uint_def WIDTH_def)

lemma val_uint_sub:
  assumes "wf_uint a" "wf_uint b"
  shows "uval (uint_sub a b) = (2 ^ 256 + uval a - uval b) mod 2 ^ 256"
proof -
  have "uval (uint_neg b) = (2 ^ 256 - uval b) mod 2 ^ 256"
    using assms val_uint_neg [of b] by (simp add: wf_uint_def WIDTH_def)
  then have "uval (uint_sub a b) = (uval a + (2 ^ 256 - uval b)) mod 2 ^ 256"
    using assms by (simp only: uint_sub_def val_uint_add wf_uint_neg mod_add_right_eq)
  moreover have "uval a + (2 ^ 256 - uval b) = 2 ^ 256 + uval a - uval b"
    using val_less_256 [OF assms(2)] by simp
  ultimately show ?thesis by (simp only:)
qed

lemma val_uint_sub_le:
  assumes "wf_uint a" "wf_uint b" "uval b \<le> uval a"
  shows "uval (uint_sub a b) = uval a - uval b"
proof -
  have "2 ^ 256 + uval a - uval b = 2 ^ 256 + (uval a - uval b)" using assms(3) by simp
  moreover have "uval a - uval b < 2 ^ 256"
    using val_less_256 [OF assms(1)] by (rule le_less_trans [OF diff_le_self])
  ultimately show ?thesis using assms by (simp only: val_uint_sub mod_add_self1 mod_less)
qed

lemma val_set_bit:
  assumes "wf_uint q" "s < 256" "\<not> bit (uval q) s"
  shows "uval (q[s div 32 := q ! (s div 32) OR push_bit (s mod 32) 1]) = uval q + 2 ^ s"
proof -
  let ?q = "q[s div 32 := q ! (s div 32) OR push_bit (s mod 32) 1]"
  have len: "length q = WIDTH" and s: "s div 32 < WIDTH"
    using assms by (simp_all add: wf_uint_def WIDTH_def div_less_iff_less_mult)
  have "uval ?q = set_bit s (uval q)"
  proof (rule bit_eqI)
    fix n :: nat
    show "bit (uval ?q) n \<longleftrightarrow> bit (set_bit s (uval q)) n"
    proof (cases "n div 32 = s div 32")
      case True
      then have "n mod 32 = s mod 32 \<longleftrightarrow> n = s" by (metis mult_div_mod_eq)
      with True len s show ?thesis
        by (auto simp: bit_val bit_or_iff bit_set_bit_iff bit_exp_iff)
    next
      case False
      with len show ?thesis by (auto simp: bit_val bit_set_bit_iff)
    qed
  qed
  with assms(3) show ?thesis by (simp add: set_bit_eq)
qed


lemma length_div_loop [simp]: "length (div_loop c num dv pn) = length pn"
  by (induction c num dv pn rule: div_loop.induct) simp_all

lemma val_div_loop:
  assumes "wf_uint num" "wf_uint dv" "wf_uint pn" "c \<le> 256"
    and "uval num < B * 2 ^ c" "2 ^ c dvd uval pn" "0 < c \<longrightarrow> uval dv = B * 2 ^ (c - 1)"
  shows "uval (div_loop c num dv pn) = uval pn + uval num div B"
  using assms
proof (induction c arbitrary: num dv pn)
  case (Suc s)
  have dv: "uval dv = B * 2 ^ s" using Suc.prems(7) by simp
  have shr: "0 < s \<longrightarrow> uval (uint_shr dv 1) = B * 2 ^ (s - 1)"
    using Suc.prems(2) dv
    by (cases s) (simp_all add: val_uint_shr drop_bit_eq_div)
  have B: "0 < B" using Suc.prems(5) by (cases B) simp_all
  show ?case
  proof (cases "uval dv \<le> uval num")
    case True
    let ?q = "pn[s div 32 := pn ! (s div 32) OR push_bit (s mod 32) 1]" and ?n = "uint_sub num dv"
    have n: "uval ?n = uval num - uval dv" using Suc.prems(1,2) True by (rule val_uint_sub_le)
    have "\<not> bit (uval pn) s"
      using Suc.prems(6) by (auto simp: bit_iff_odd elim: dvdE)
    with Suc.prems(3,4) have q: "uval ?q = uval pn + 2 ^ s"
      by (intro val_set_bit) simp_all
    have "uval (div_loop s ?n (uint_shr dv 1) ?q) = uval ?q + uval ?n div B"
    proof (rule Suc.IH)
      show "uval ?n < B * 2 ^ s" using n dv Suc.prems(5) by simp
      have "2 ^ s dvd uval pn" using Suc.prems(6) by (rule dvd_trans [rotated]) simp
      then show "2 ^ s dvd uval ?q" using q by simp
    qed (use Suc.prems shr in \<open>simp_all add: wf_uint_def uint_sub_def uint_add_def uint_neg_def\<close>)
    also have "\<dots> = uval pn + uval num div B"
    proof -
      have "uval num = uval ?n + 2 ^ s * B" using n dv True by simp
      then show ?thesis using q B by simp
    qed
    finally show ?thesis
      using True Suc.prems(1,2) by (simp add: uint_ge_val)
  next
    case False
    have "uval (div_loop s num (uint_shr dv 1) pn) = uval pn + uval num div B"
    proof (rule Suc.IH)
      show "2 ^ s dvd uval pn" using Suc.prems(6) by (rule dvd_trans [rotated]) simp
    qed (use Suc.prems shr dv False in simp_all)
    then show ?thesis
      using False Suc.prems(1,2) by (simp add: uint_ge_val)
  qed
qed simp

lemma val_div_aligned:
  assumes "wf_uint a" "wf_uint b" "uval b \<noteq> 0" "uint_bits b \<le> uint_bits a"
  defines "s \<equiv> uint_bits a - uint_bits b"
  shows "uval (div_loop (Suc s) a (uint_shl b s) uint_zero) = uval a div uval b"
proof -
  let ?n = "uint_bits a" and ?d = "uint_bits b"
  have d: "?d \<noteq> 0" using assms(3) uint_bits_0_iff [OF assms(2)] by simp
  have an: "uval a < 2 ^ ?n" using uint_bits_le_iff [OF assms(1), of ?n] by simp
  have bd: "uval b < 2 ^ ?d" using uint_bits_le_iff [OF assms(2), of ?d] by simp
  have "\<not> ?d \<le> ?d - 1" using d by simp
  then have bd': "\<not> uval b < 2 ^ (?d - 1)" by (metis uint_bits_le_iff [OF assms(2)])
  have n: "?n \<le> 256" using uint_bits_le_iff [OF assms(1), of 256] val_less_256 [OF assms(1)] by simp
  have "uval b * 2 ^ s < 2 ^ ?d * 2 ^ s" using bd by simp
  also have "\<dots> = 2 ^ (?d + s)" by (rule power_add [symmetric])
  also have "\<dots> \<le> (2::nat) ^ 256" using n assms(4) by (intro power_increasing) (simp_all add: s_def)
  finally have shl: "uval (uint_shl b s) = uval b * 2 ^ s"
    using val_uint_shl [OF assms(2), of s] by (simp add: push_bit_eq_mult take_bit_nat_eq_self)
  have "?n = ?d - 1 + Suc s" using assms(4) d by (simp add: s_def)
  then have "2 ^ ?n = (2::nat) ^ (?d - 1 + Suc s)" by (rule arg_cong)
  also have "\<dots> = 2 ^ (?d - 1) * 2 ^ Suc s" by (rule power_add)
  also have "\<dots> \<le> uval b * 2 ^ Suc s" using bd' by (intro mult_le_mono1) simp
  finally have "uval a < uval b * 2 ^ Suc s" using an by linarith
  have "uval (div_loop (Suc s) a (uint_shl b s) uint_zero) = uval uint_zero + uval a div uval b"
  proof (rule val_div_loop)
    show "uval a < uval b * 2 ^ Suc s" by fact
  qed (use assms d n shl in \<open>simp_all add: s_def\<close>)
  then show ?thesis by simp
qed

lemma val_uint_div:
  assumes "wf_uint a" "wf_uint b"
  shows "(case uint_div a b of Inl e \<Rightarrow> uval b = 0
          | Inr q \<Rightarrow> uval b \<noteq> 0 \<and> wf_uint q \<and> uval q = uval a div uval b)"
proof (cases "uval b = 0")
  case True
  then show ?thesis using assms by (simp add: uint_div_def uint_bits_0_iff)
next
  case False
  let ?n = "uint_bits a" and ?d = "uint_bits b"
  have d: "?d \<noteq> 0" using False uint_bits_0_iff [OF assms(2)] by simp
  show ?thesis
  proof (cases "?d > ?n")
    case True
    have "uval a < 2 ^ ?n" using uint_bits_le_iff [OF assms(1), of ?n] by simp
    moreover have "\<not> uval b < 2 ^ ?n" using uint_bits_le_iff [OF assms(2), of ?n] True by simp
    ultimately have "uval a div uval b = 0" by simp
    with True d False show ?thesis by (simp add: uint_div_def)
  next
    case le: False
    then have "uval (div_loop (Suc (?n - ?d)) a (uint_shl b (?n - ?d)) uint_zero) = uval a div uval b"
      using assms False by (intro val_div_aligned) simp_all
    with le d False show ?thesis
      by (simp add: uint_div_def Let_def wf_uint_def uint_zero_def del: div_loop.simps)
  qed
qed

lemma wf_uint_of_u64 [simp, wf_intro]: "wf_uint (uint_of_u64 b)"
  by (simp add: wf_uint_def uint_of_u64_def WIDTH_def)

lemma val_uint_of_u64 [simp]: "uval (uint_of_u64 b) = unat b"
proof -
  have "unat (drop_bit 32 b) < 2 ^ 32" by (rule high32_less)
  then have "uval (uint_of_u64 b) = unat b mod 2 ^ 32 + 2 ^ 32 * (unat b div 2 ^ 32)"
    by (simp only: uint_of_u64_def uval.simps val_replicate_0 unat_ucast_64_32 unat_high32) simp
  then show ?thesis by simp
qed

lemma GetLow64_val:
  assumes "wf_uint a"
  shows "unat (GetLow64 a) = uval a mod 2 ^ 64"
proof -
  have len: "length a = 8" using assms by (simp add: wf_uint_def WIDTH_def)
  have "unat (GetLow64 a) = take_bit 64 (uval a)"
  proof (rule bit_eqI)
    fix n :: nat
    consider "n < 32" | "32 \<le> n" "n < 64" | "64 \<le> n" by linarith
    then show "bit (unat (GetLow64 a)) n \<longleftrightarrow> bit (take_bit 64 (uval a)) n"
    proof cases
      case 1
      then show ?thesis
        by (simp add: len GetLow64_def bit_unsigned_iff bit_or_iff bit_push_bit_iff bit_ucast_iff bit_take_bit_iff bit_val)
    next
      case 2
      then have "n div 32 = 1" "n mod 32 = n - 32" "n - 32 < 64" by (simp_all add: le_div_geq le_mod_geq)
      moreover have "\<not> bit (a ! 0) n" using 2 bit_imp_le_length [of "a ! 0" n] by auto
      ultimately show ?thesis using 2
        by (simp add: len GetLow64_def bit_unsigned_iff bit_or_iff bit_push_bit_iff bit_ucast_iff bit_take_bit_iff bit_val)
    next
      case 3
      then have "\<not> bit (GetLow64 a) n" using bit_imp_le_length [of "GetLow64 a" n] by auto
      with 3 show ?thesis by (simp add: bit_unsigned_iff bit_take_bit_iff)
    qed
  qed
  then show ?thesis by (simp only: take_bit_eq_mod)
qed

lemma wf_uint_not [simp, wf_intro]: "wf_uint a \<Longrightarrow> wf_uint (uint_not a)"
  by (simp add: wf_uint_def uint_not_def)

lemma val_uint_not: "wf_uint a \<Longrightarrow> uval (uint_not a) + uval a + 1 = 2 ^ 256"
  using val_not [of a] by (simp add: wf_uint_def uint_not_def WIDTH_def)

lemma wf_uint_mul32 [simp, wf_intro]: "wf_uint a \<Longrightarrow> wf_uint (uint_mul32 a b)"
  by (simp add: wf_uint_def uint_mul32_def)

lemma val_uint_mul32: "wf_uint a \<Longrightarrow> uval (uint_mul32 a b) = (uval a * unat b) mod 2 ^ 256"
  using val_mul32_loop [of 0 b a] by (simp add: uint_mul32_def wf_uint_def WIDTH_def mult.commute)

lemma wf_uint_mul [simp, wf_intro]: "wf_uint a \<Longrightarrow> wf_uint b \<Longrightarrow> wf_uint (uint_mul a b)"
  by (simp add: wf_uint_def uint_mul_def uint_zero_def)

lemma val_uint_mul: "wf_uint a \<Longrightarrow> wf_uint b \<Longrightarrow> uval (uint_mul a b) = (uval a * uval b) mod 2 ^ 256"
  using val_mul_loop [of a uint_zero b] by (simp add: uint_mul_def wf_uint_def uint_zero_def WIDTH_def)

lemma ucast_u32_eq_iff: "(ucast (x :: u32) :: u64) = y \<longleftrightarrow> unat x = unat y"
proof -
  have "unat x < 2 ^ 64" by (rule less_trans [OF unat_u32_less]) simp
  then have "unat (ucast x :: u64) = unat x" by (simp add: unsigned_ucast_eq take_bit_nat_eq_self)
  then show ?thesis by (simp add: word_unat_eq_iff)
qed

lemma EqualTo_val:
  assumes "wf_uint a"
  shows "EqualTo a b \<longleftrightarrow> uval a = unat b"
proof -
  obtain x0 x1 r where a: "a = x0 # x1 # r"
    using assms by (auto simp: wf_uint_def WIDTH_def length_Suc_conv eval_nat_numeral)
  have r: "(\<forall>x \<in> set r. x = 0) \<longleftrightarrow> uval r = 0"
    by (induction r) (auto simp: unat_eq_zero)
  have "0xffffffff = (mask 32 :: u64)" by (simp add: mask_eq_exp_minus_1)
  then have m: "unat (b AND 0xffffffff) = unat b mod 4294967296"
    using unat_and_mask [of b 32] by simp
  have b: "unat b = unat (b AND 0xffffffff) + 4294967296 * unat (drop_bit 32 b)"
    using mod_mult_div_eq [of "unat b" 4294967296] m by (simp add: unat_drop_bit_nat)
  have less: "unat (b AND 0xffffffff) < 4294967296" "unat (drop_bit 32 b) < 4294967296"
    using high32_less [of b] m by simp_all
  have "EqualTo a b \<longleftrightarrow> uval r = 0 \<and> unat x1 = unat (drop_bit 32 b) \<and> unat x0 = unat (b AND 0xffffffff)"
    using r by (simp add: EqualTo_def a ucast_u32_eq_iff)
  also have "\<dots> \<longleftrightarrow> uval a = unat b"
    using digit_eq_iff [OF unat_u32_less less(1), of x0 "uval (x1 # r)" "unat (drop_bit 32 b)"]
      digit_eq_iff [OF unat_u32_less less(2), of x1 "uval r" 0]
    by (subst b) (auto simp: a)
  finally show ?thesis .
qed

lemma val_uint_bitwise:
  assumes "wf_uint a" "wf_uint b"
  shows "uval (uint_xor a b) = uval a XOR uval b" "uval (uint_and a b) = uval a AND uval b"
    "uval (uint_or a b) = uval a OR uval b"
  using assms
  by (auto intro!: bit_eqI
      simp: wf_uint_def bit_val uint_xor_def uint_and_def uint_or_def bit_xor_iff bit_and_iff bit_or_iff)

lemma wf_uint_bitwise [simp, wf_intro]:
  assumes "wf_uint a" "wf_uint b"
  shows "wf_uint (uint_xor a b)" "wf_uint (uint_and a b)" "wf_uint (uint_or a b)"
  using assms by (simp_all add: wf_uint_def uint_xor_def uint_and_def uint_or_def)

section \<open>Byte arrays\<close>

lemma le_nat_concat: "le_nat (concat (map WriteLE32 a)) = uval a"
  using unat_u32_less by (induction a) (simp_all add: le_nat_append WriteLE32_def le_nat_le_bytes)

lemma length_ArithToUint256: "length (ArithToUint256 a) = 4 * length a"
  by (induction a) (simp_all add: ArithToUint256_def)

lemma drop_concat_WriteLE32:
  "i < length a \<Longrightarrow> ReadLE32 (drop (i * 4) (concat (map WriteLE32 a))) = a ! i"
  by (induction a arbitrary: i) (auto simp: nth_Cons split: nat.split)

lemma UintToArith256_ArithToUint256: "wf_uint a \<Longrightarrow> UintToArith256 (ArithToUint256 a) = a"
  by (rule nth_equalityI)
    (auto simp: UintToArith256_def ArithToUint256_def wf_uint_def drop_concat_WriteLE32)

lemma uval_read_words: "length b = 4 * n \<Longrightarrow> uval (map (\<lambda>x. ReadLE32 (drop (x * 4) b)) [0..<n]) = le_nat b"
proof (induction n arbitrary: b)
  case (Suc n)
  have "length (take 4 b) = 4" using Suc.prems by simp
  then have w: "unat (ReadLE32 b) = le_nat (take 4 b)"
    using le_nat_less [of "take 4 b"] by (simp add: ReadLE32_def unat_of_nat)
  have "map (\<lambda>x. ReadLE32 (drop (x * 4) b)) [0..<Suc n] =
      ReadLE32 b # map (\<lambda>x. ReadLE32 (drop (x * 4) (drop 4 b))) [0..<n]"
    by (simp add: upt_conv_Cons map_Suc_upt [symmetric] comp_def add.commute del: upt_Suc)
  moreover have "le_nat b = le_nat (take 4 b) + 256 ^ 4 * le_nat (drop 4 b)"
    using le_nat_append [of "take 4 b" "drop 4 b"] Suc.prems by simp
  ultimately show ?case using Suc.IH [of "drop 4 b"] Suc.prems w by simp
qed simp

lemma val_UintToArith256: "length b = 32 \<Longrightarrow> uval (UintToArith256 b) = le_nat b"
  using uval_read_words [of b WIDTH] by (simp add: UintToArith256_def WIDTH_def)

lemma wf_UintToArith256 [simp, wf_intro]: "wf_uint (UintToArith256 b)"
  by (simp add: UintToArith256_def wf_uint_def)

section \<open>The interface of the class\<close>

text \<open>
  What the clients (\<^verbatim>\<open>pow.cpp\<close>, \<^verbatim>\<open>chain.cpp\<close>) rely on: a well-formed number has a value below
  \<open>2 ^ 256\<close>, the operators compute modulo \<open>2 ^ 256\<close>, and the division fails exactly on a zero divisor.
  The client computations are proved once from these laws.
\<close>

locale modular_uint =
  fixes wf :: "'a \<Rightarrow> bool" and nat_of :: "'a \<Rightarrow> nat"
    and of_u64 :: "u64 \<Rightarrow> 'a"
    and add sub mul :: "'a \<Rightarrow> 'a \<Rightarrow> 'a" and mul32 :: "'a \<Rightarrow> u32 \<Rightarrow> 'a"
    and inv :: "'a \<Rightarrow> 'a" and quot :: "'a \<Rightarrow> 'a \<Rightarrow> 'e + 'a"
  assumes nat_of_less: "wf a \<Longrightarrow> nat_of a < 2 ^ 256"
    and of_u64_law: "wf (of_u64 n) \<and> nat_of (of_u64 n) = unat n"
    and add_law: "wf a \<Longrightarrow> wf b \<Longrightarrow> wf (add a b) \<and> nat_of (add a b) = (nat_of a + nat_of b) mod 2 ^ 256"
    and sub_law: "wf a \<Longrightarrow> wf b \<Longrightarrow> nat_of b \<le> nat_of a \<Longrightarrow>
          wf (sub a b) \<and> nat_of (sub a b) = nat_of a - nat_of b"
    and mul_law: "wf a \<Longrightarrow> wf b \<Longrightarrow> wf (mul a b) \<and> nat_of (mul a b) = (nat_of a * nat_of b) mod 2 ^ 256"
    and mul32_law: "wf a \<Longrightarrow> wf (mul32 a c) \<and> nat_of (mul32 a c) = (nat_of a * unat c) mod 2 ^ 256"
    and inv_law: "wf a \<Longrightarrow> wf (inv a) \<and> nat_of (inv a) + nat_of a + 1 = 2 ^ 256"
    and quot_law: "wf a \<Longrightarrow> wf b \<Longrightarrow>
          (case quot a b of Inl e \<Rightarrow> nat_of b = 0
           | Inr q \<Rightarrow> nat_of b \<noteq> 0 \<and> wf q \<and> nat_of q = nat_of a div nat_of b)"
begin

lemma quot_exact:
  assumes "wf a" "wf b" "nat_of b \<noteq> 0"
  obtains q where "quot a b = Inr q" "wf q" "nat_of q = nat_of a div nat_of b"
  using quot_law [OF assms(1,2)] assms(3) by (auto split: sum.splits)

lemma quot_fails: "wf a \<Longrightarrow> wf b \<Longrightarrow> nat_of b = 0 \<Longrightarrow> \<exists>e. quot a b = Inl e"
  using quot_law [of a b] by (auto split: sum.splits)

text \<open>One step of a running average: no wrap-around as long as the weighted sum fits.\<close>

lemma average_step:
  assumes "wf a" "wf t" "unat c < unat d" "nat_of a * unat c + nat_of t < 2 ^ 256"
  obtains q where "quot (add (mul32 a c) t) (of_u64 d) = Inr q" "wf q"
    "nat_of q = (nat_of a * unat c + nat_of t) div unat d"
proof -
  have m: "wf (mul32 a c)" "nat_of (mul32 a c) = nat_of a * unat c"
    using mul32_law [OF assms(1), of c] assms(4) by simp_all
  have s: "wf (add (mul32 a c) t)" "nat_of (add (mul32 a c) t) = nat_of a * unat c + nat_of t"
    using add_law [OF m(1) assms(2)] m(2) assms(4) by simp_all
  show thesis
    using quot_exact [OF s(1), of "of_u64 d"] of_u64_law [of d] assms(3) s(2) that by auto
qed

text \<open>Scaling by a ratio of two machine integers.\<close>

lemma scale_ratio:
  assumes "wf a" "unat d \<noteq> 0" "nat_of a * unat c < 2 ^ 256"
  obtains q where "quot (mul32 a c) (of_u64 d) = Inr q" "wf q" "nat_of q = nat_of a * unat c div unat d"
  using quot_exact [of "mul32 a c" "of_u64 d"] mul32_law [OF assms(1), of c] of_u64_law [of d] assms(2,3)
    that by auto

text \<open>
  \<open>2 ^ 256 div (t + 1)\<close> does not fit the type as written; \<open>~t / (t + 1) + 1\<close> computes it, except
  for \<open>t = 0\<close>, where the result wraps to zero.
\<close>

lemma inverse_share:
  assumes "wf t" "nat_of t + 1 < 2 ^ 256" "nat_of t \<noteq> 0"
  obtains q where "quot (inv t) (add t (of_u64 1)) = Inr q" "wf (add q (of_u64 1))"
    "nat_of (add q (of_u64 1)) = 2 ^ 256 div (nat_of t + 1)"
proof -
  let ?d = "add t (of_u64 1)"
  have d: "wf ?d" "nat_of ?d = nat_of t + 1"
    using add_law [OF assms(1), of "of_u64 1"] of_u64_law [of 1] assms(2) by simp_all
  have i: "wf (inv t)" "nat_of (inv t) + nat_of t + 1 = 2 ^ 256"
    using inv_law [OF assms(1)] by auto
  have eq: "nat_of (inv t) div (nat_of t + 1) + 1 = (2 ^ 256) div (nat_of t + 1)"
    using div_add_self2 [of "nat_of t + 1" "nat_of (inv t)"] i(2) by (simp add: add.assoc)
  obtain q where q: "quot (inv t) ?d = Inr q" "wf q" "nat_of q = nat_of (inv t) div (nat_of t + 1)"
    using quot_exact [OF i(1) d(1)] d(2) by auto
  have "2 ^ 256 div (nat_of t + 1) \<le> 2 ^ 256 div (2::nat)"
    using assms(3) by (intro div_le_mono2) simp_all
  also have "\<dots> < 2 ^ 256" by simp
  finally have "nat_of q + 1 < 2 ^ 256" using q(3) eq by simp
  then have "nat_of (add q (of_u64 1)) = 2 ^ 256 div (nat_of t + 1)" "wf (add q (of_u64 1))"
    using add_law [OF q(2), of "of_u64 1"] of_u64_law [of 1] q(3) eq by simp_all
  with q show thesis by (intro that) simp_all
qed

end

interpretation uint256: modular_uint wf_uint uval uint_of_u64 uint_add uint_sub uint_mul uint_mul32 uint_not uint_div
proof unfold_locales
  show "\<And>a b. wf_uint a \<Longrightarrow> wf_uint b \<Longrightarrow> uval b \<le> uval a \<Longrightarrow>
      wf_uint (uint_sub a b) \<and> uval (uint_sub a b) = uval a - uval b"
    by (simp add: val_uint_sub_le)
  show "\<And>a. wf_uint a \<Longrightarrow> uval a < 2 ^ 256" by (rule val_less_256)
  show "\<And>a. wf_uint a \<Longrightarrow> wf_uint (uint_not a) \<and> uval (uint_not a) + uval a + 1 = 2 ^ 256"
    using val_uint_not wf_uint_not by blast
qed (simp_all add: val_uint_add val_uint_mul val_uint_mul32 val_uint_div)

section \<open>Refinement of natural-number arithmetic\<close>

lemma val_uint_dec: "uval (uint_dec xs) = (uval xs + 2 ^ (32 * length xs) - 1) mod 2 ^ (32 * length xs)"
proof (induction xs)
  case (Cons x xs)
  define M where "M = (2::nat) ^ (32 * length xs)"
  have M: "2 ^ (32 * length (x # xs)) = 4294967296 * M" by (simp add: M_def power_add)
  have pos: "0 < M" by (simp add: M_def)
  have less: "uval xs < M" using val_less [of xs] by (simp add: M_def)
  show ?case
  proof (cases "x = 0")
    case True
    have eq: "4294967296 * uval xs + 4294967296 * M - 1 = 4294967295 + 4294967296 * (uval xs + M - 1)"
      using pos by (simp add: algebra_simps)
    have "(4294967295 + 4294967296 * (uval xs + M - 1)) mod (4294967296 * M) =
        4294967295 + 4294967296 * ((uval xs + M - 1) mod M)"
      by (simp add: mod_mult2_eq)
    moreover have "uval (uint_dec (x # xs)) = 4294967295 + 4294967296 * ((uval xs + M - 1) mod M)"
      using True Cons by (simp add: M_def unsigned_minus_1_eq_mask mask_eq_exp_minus_1)
    moreover have "uval (x # xs) = 4294967296 * uval xs" using True by simp
    ultimately show ?thesis by (simp only: M eq)
  next
    case False
    then have x: "unat (x - 1) = unat x - 1" "0 < unat x"
      by (simp_all add: unat_minus_one unat_gt_0)
    then have "unat (x - 1) < 4294967295" using unat_u32_less [of x] by linarith
    then have ne: "x - 1 \<noteq> 0xffffffff" by (auto simp: word_unat_eq_iff)
    have b: "unat x + 4294967296 * uval xs < 4294967296 * M"
      using less unat_u32_less [of x] by linarith
    have "(uval (x # xs) + 4294967296 * M - 1) mod (4294967296 * M) =
      (unat x + 4294967296 * uval xs - 1 + 4294967296 * M) mod (4294967296 * M)"
      using x(2) by simp
    also have "\<dots> = unat x + 4294967296 * uval xs - 1" using b by (simp only: mod_add_self2) simp
    also have "\<dots> = uval (uint_dec (x # xs))"
      using x by (simp only: uint_dec.simps ne if_False) simp
    finally show ?thesis by (simp only: M)
  qed
qed simp

text \<open>
  C1. On well-formed 256-bit numbers the limb loops compute arithmetic on natural numbers modulo
  \<open>2 ^ 256\<close>: sum, difference, both products, complement, shifts and comparison; and the long division
  throws exactly on a zero divisor and otherwise returns the exact quotient.
\<close>

theorem arith_uint256_refines_nat:
  assumes "wf_uint a" "wf_uint b"
  shows "uval (uint_add a b) = (uval a + uval b) mod 2 ^ 256
    \<and> uval (uint_sub a b) = (uval a + 2 ^ 256 - uval b) mod 2 ^ 256
    \<and> uval (uint_mul a b) = (uval a * uval b) mod 2 ^ 256
    \<and> uval (uint_mul32 a c) = (uval a * unat c) mod 2 ^ 256
    \<and> uval (uint_not a) = 2 ^ 256 - 1 - uval a
    \<and> uval (uint_shl a s) = (uval a * 2 ^ s) mod 2 ^ 256
    \<and> uval (uint_shr a s) = uval a div 2 ^ s
    \<and> sgn (CompareTo a b) = sgn (int (uval a) - int (uval b))
    \<and> (uval b = 0 \<and> uint_div a b = Inl Division_by_zero
       \<or> uval b \<noteq> 0 \<and> (\<exists>q. uint_div a b = Inr q \<and> wf_uint q \<and> uval q = uval a div uval b))"
proof (intro conjI)
  show "uval (uint_not a) = 2 ^ 256 - 1 - uval a" using val_uint_not [OF assms(1)] by simp
  show "uval (uint_shl a s) = (uval a * 2 ^ s) mod 2 ^ 256"
    using val_uint_shl [OF assms(1)] by (simp only: push_bit_eq_mult take_bit_eq_mod)
  show "uval (uint_shr a s) = uval a div 2 ^ s"
    using val_uint_shr [OF assms(1)] by (simp only: drop_bit_eq_div)
  show "sgn (CompareTo a b) = sgn (int (uval a) - int (uval b))"
    using CompareTo_val [OF assms] by simp
  show "uval b = 0 \<and> uint_div a b = Inl Division_by_zero
    \<or> uval b \<noteq> 0 \<and> (\<exists>q. uint_div a b = Inr q \<and> wf_uint q \<and> uval q = uval a div uval b)"
    using val_uint_div [OF assms] uint_error.exhaust by (auto split: sum.splits)
  show "uval (uint_sub a b) = (uval a + 2 ^ 256 - uval b) mod 2 ^ 256"
    using val_uint_sub [OF assms] by (simp only: add.commute [of "2 ^ 256"])
qed (use assms in \<open>simp_all only: val_uint_add val_uint_mul val_uint_mul32\<close>)

theorem arith_uint256_refines_nat_witness:
  "wf_uint (uint_of_u64 1000) \<and> wf_uint (uint_of_u64 7)
    \<and> (\<exists>q. uint_div (uint_of_u64 1000) (uint_of_u64 7) = Inr q \<and> wf_uint q \<and> uval q = 142)"
  using arith_uint256_refines_nat [OF wf_uint_of_u64 [of 1000] wf_uint_of_u64 [of 7]] by simp

end
