(* ===== verification/Arith_Compact.thy ===== *)
theory Arith_Compact
  imports Arith_Uint256
begin

text \<open>
  The compact representation of 256-bit numbers (\<^verbatim>\<open>SetCompact\<close> and \<^verbatim>\<open>GetCompact\<close> of
  \<^verbatim>\<open>src/src/arith_uint256.cpp\<close>), the format of the difficulty field \<^verbatim>\<open>nBits\<close> of a block header: a
  size byte, a sign bit and a 23-bit mantissa. The lemmas give both functions as arithmetic on
  natural numbers and show that encoding loses at most a relative \<open>2 ^ -15\<close> and that an encoded
  number is encoded again to the same word.
\<close>

unbundle bit_operations_syntax

section \<open>The model\<close>

text \<open>
  \<open>SetCompact\<close> returns the number and the two flags the source writes through its pointers
  (negative, overflow). \<open>GetCompact\<close> returns \<open>None\<close> where one of the assertions of the source fails.
\<close>

definition SetCompact :: "u32 \<Rightarrow> base_uint \<times> bool \<times> bool" where
  "SetCompact nCompact =
     (let nSize = unat (drop_bit 24 nCompact);
          nWord0 = nCompact AND 0x007fffff;
          nWord = (if nSize \<le> 3 then drop_bit (8 * (3 - nSize)) nWord0 else nWord0);
          bn = (if nSize \<le> 3 then uint_of_u64 (ucast nWord)
                else uint_shl (uint_of_u64 (ucast nWord)) (8 * (nSize - 3)));
          fNegative = (nWord \<noteq> 0 \<and> (nCompact AND 0x00800000) \<noteq> 0);
          fOverflow = (nWord \<noteq> 0 \<and> (nSize > 34 \<or> nWord > 0xff \<and> nSize > 33 \<or> nWord > 0xffff \<and> nSize > 32))
      in (bn, fNegative, fOverflow))"

definition GetCompact :: "base_uint \<Rightarrow> bool \<Rightarrow> u32 option" where
  "GetCompact a fNegative =
     (let nSize0 = (uint_bits a + 7) div 8;
          nCompact0 = (if nSize0 \<le> 3 then ucast (push_bit (8 * (3 - nSize0)) (GetLow64 a)) :: u32
                       else ucast (GetLow64 (uint_shr a (8 * (nSize0 - 3)))));
          nCompact1 = (if nCompact0 AND 0x00800000 \<noteq> 0 then drop_bit 8 nCompact0 else nCompact0);
          nSize = (if nCompact0 AND 0x00800000 \<noteq> 0 then nSize0 + 1 else nSize0)
      in if (nCompact1 AND NOT 0x007fffff) \<noteq> 0 \<or> \<not> nSize < 256 then None
         else let nCompact2 = nCompact1 OR push_bit 24 (of_nat nSize)
              in Some (nCompact2 OR (if fNegative \<and> nCompact2 AND 0x007fffff \<noteq> 0 then 0x00800000 else 0)))"


section \<open>Decoding as arithmetic\<close>

lemma unat_mantissa: "unat ((c :: u32) AND 0x007fffff) = unat c mod 2 ^ 23"
  using unat_and_mask [of c 23] by (simp add: mask_eq_exp_minus_1)

lemma and_bit23: "(c :: u32) AND 0x00800000 \<noteq> 0 \<longleftrightarrow> bit (unat c) 23"
proof -
  have "(0x00800000 :: u32) = push_bit 23 1" by (simp add: push_bit_eq_mult)
  then show ?thesis
    by (simp only: flip: bit_iff_and_push_bit_not_eq_0) (simp add: bit_unsigned_iff)
qed

lemma and_high_zero: "(c :: u32) AND NOT 0x007fffff = 0 \<longleftrightarrow> unat c < 2 ^ 23"
proof -
  have m: "(0x007fffff :: u32) = mask 23" by (simp add: mask_eq_exp_minus_1)
  have "c AND NOT (mask 23) = 0 \<longleftrightarrow> take_bit 23 c = c"
    by (simp add: bit_eq_iff bit_and_iff bit_not_iff bit_mask_iff bit_take_bit_iff) blast
  also have "\<dots> \<longleftrightarrow> unat c < 2 ^ 23"
    by (simp only: word_unat_eq_iff unsigned_take_bit_eq) (simp add: take_bit_nat_eq_self_iff)
  finally show ?thesis unfolding m .
qed


lemma unat_ucast_u32_u64 [simp]: "unat (ucast (x :: u32) :: u64) = unat x"
  by (rule unat_ucast_32_64)

lemma wf_SetCompact [simp, wf_intro]: "wf_uint (fst (SetCompact c))"
  by (simp add: SetCompact_def Let_def)

lemma val_SetCompact:
  "uval (fst (SetCompact c)) =
    (let n = unat c div 2 ^ 24; m = unat c mod 2 ^ 23
     in if n \<le> 3 then m div 256 ^ (3 - n) else m * 256 ^ (n - 3) mod 2 ^ 256)"
proof -
  let ?n = "unat c div 2 ^ 24" and ?m = "unat c mod 2 ^ 23"
  have p: "(256::nat) ^ k = 2 ^ (8 * k)" for k by (simp add: power_mult)
  have "uval (uint_shl (uint_of_u64 (ucast (c AND 0x007fffff))) (8 * (?n - 3))) = ?m * 256 ^ (?n - 3) mod 2 ^ 256"
    by (simp only: val_uint_shl wf_uint_of_u64 val_uint_of_u64 unat_ucast_u32_u64 unat_mantissa
        push_bit_eq_mult take_bit_eq_mod p)
  then have hi: "uval (uint_shl (uint_of_u64 (ucast (c AND 0x007fffff))) (8 * (unat (drop_bit 24 c) - 3)))
      = ?m * 256 ^ (?n - 3) mod 2 ^ 256"
    by (simp only: unat_drop_bit_nat)
  have "uval (uint_of_u64 (ucast (drop_bit (8 * (3 - ?n)) (c AND 0x007fffff)))) = ?m div 256 ^ (3 - ?n)"
    by (simp only: val_uint_of_u64 unat_ucast_u32_u64 unat_drop_bit_nat unat_mantissa p)
  then have lo: "uval (uint_of_u64 (ucast (drop_bit (8 * (3 - unat (drop_bit 24 c))) (c AND 0x007fffff))))
      = ?m div 256 ^ (3 - ?n)"
    by (simp only: unat_drop_bit_nat)
  have n: "unat (drop_bit 24 c) \<le> 3 \<longleftrightarrow> ?n \<le> 3" by (simp only: unat_drop_bit_nat)
  show ?thesis
    by (cases "?n \<le> 3") (simp_all only: SetCompact_def Let_def fst_conv n lo hi if_True if_False)
qed

lemma compact_decode:
  fixes m n :: nat
  assumes "m < 2 ^ 23" "n < 256"
  shows "(m + n * 2 ^ 24) div 2 ^ 24 = n" "(m + n * 2 ^ 24) mod 2 ^ 23 = m" "m + n * 2 ^ 24 < 2 ^ 32"
proof -
  have "n * 2 ^ 24 = (2 * n) * 2 ^ 23" by simp
  then show "(m + n * 2 ^ 24) mod 2 ^ 23 = m" using assms by (simp only: mod_mult_self1 mod_less)
  show "(m + n * 2 ^ 24) div 2 ^ 24 = n" using assms by simp
  have "n * 2 ^ 24 \<le> 255 * 2 ^ 24" using assms(2) by (intro mult_le_mono1) simp
  then show "m + n * 2 ^ 24 < 2 ^ 32" using assms(1) by simp
qed

section \<open>Encoding as arithmetic\<close>

text \<open>The number of bytes of a value, and its three leading bytes as \<open>GetCompact\<close> extracts them.\<close>

definition uint_bytes :: "base_uint \<Rightarrow> nat" where
  "uint_bytes a = (uint_bits a + 7) div 8"

definition lead3 :: "base_uint \<Rightarrow> nat" where
  "lead3 a = (if uint_bytes a \<le> 3 then uval a * 256 ^ (3 - uint_bytes a)
              else uval a div 256 ^ (uint_bytes a - 3))"

definition compact_size :: "base_uint \<Rightarrow> nat" where
  "compact_size a = (if lead3 a < 2 ^ 23 then uint_bytes a else uint_bytes a + 1)"

definition compact_mantissa :: "base_uint \<Rightarrow> nat" where
  "compact_mantissa a = (if lead3 a < 2 ^ 23 then lead3 a else lead3 a div 256)"

lemma or_size_byte:
  fixes c :: u32
  assumes "unat c < 2 ^ 23" "n < 256"
  shows "unat (c OR push_bit 24 (of_nat n)) = unat c + n * 2 ^ 24"
proof -
  have n: "unat (of_nat n :: u32) = n" using assms(2) by (simp add: unat_of_nat)
  have pn: "unat (push_bit 24 (of_nat n :: u32)) = n * 2 ^ 24"
    using assms(2) compact_decode(3) [of 0 n]
    by (simp add: push_bit_eq_mult unat_word_ariths n mult.commute)
  have "c AND push_bit 24 (of_nat n) = 0"
  proof (rule bit_eqI)
    fix k
    have "\<not> bit c k" if "24 \<le> k"
    proof -
      have "(2::nat) ^ 23 \<le> 2 ^ k" using that by (intro power_increasing) simp_all
      then have "unat c < 2 ^ k" using assms(1) by linarith
      then show ?thesis using bit_ge [of "unat c" k] by (auto simp: bit_unsigned_iff dest: bit_imp_le_length)
    qed
    then show "bit (c AND push_bit 24 (of_nat n)) k \<longleftrightarrow> bit (0 :: u32) k"
      by (auto simp: bit_and_iff bit_push_bit_iff)
  qed
  then have "c OR push_bit 24 (of_nat n) = c + push_bit 24 (of_nat n)"
    by (simp add: disjunctive_add_eq_or)
  then show ?thesis
    using compact_decode(3) [OF assms] pn by (simp only:) (subst unat_plus_no_overflow, simp_all)
qed

lemma uint_bytes_eq:
  assumes "wf_uint x" "256 ^ (k - 1) \<le> uval x" "uval x < 256 ^ k" "0 < k"
  shows "uint_bytes x = k"
proof -
  have "uint_bits x \<le> 8 * k" using assms(3) by (simp only: uint_bits_le_iff [OF assms(1)] pow256)
  moreover have "\<not> uint_bits x \<le> 8 * (k - 1)"
    using assms(2) by (simp only: uint_bits_le_iff [OF assms(1)] pow256 not_less)
  ultimately show ?thesis using assms(4) unfolding uint_bytes_def by linarith
qed

lemma uint_bytes_bounds:
  assumes "wf_uint x"
  shows "uval x < 256 ^ (uint_bytes x)"
    and "uint_bytes x \<noteq> 0 \<Longrightarrow> 256 ^ (uint_bytes x - 1) \<le> uval x"
    and "uint_bytes x \<le> 32"
proof -
  let ?b = "uint_bytes x"
  have "uint_bits x \<le> 8 * ?b" by (simp add: uint_bytes_def)
  then show "uval x < 256 ^ ?b" by (simp only: uint_bits_le_iff [OF assms] pow256)
  have "uint_bits x \<le> 256"
    using uint_bits_le_iff [OF assms, of 256] val_less_256 [OF assms] by simp
  then show "?b \<le> 32" by (simp add: uint_bytes_def)
  show "256 ^ (?b - 1) \<le> uval x" if "?b \<noteq> 0"
  proof -
    have "\<not> uint_bits x \<le> 8 * (?b - 1)" using that unfolding uint_bytes_def by linarith
    then show ?thesis by (metis uint_bits_le_iff [OF assms] pow256 not_less)
  qed
qed

lemma lead3_less:
  assumes "wf_uint a"
  shows "lead3 a < 2 ^ 24"
proof (cases "uint_bytes a \<le> 3")
  case True
  have "uval a * 256 ^ (3 - uint_bytes a) < 256 ^ uint_bytes a * 256 ^ (3 - uint_bytes a)"
    using uint_bytes_bounds(1) [OF assms] by simp
  also have "\<dots> = 256 ^ 3" using True by (simp flip: power_add)
  finally show ?thesis using True by (simp add: lead3_def)
next
  case False
  have "(256::nat) ^ uint_bytes a = 256 ^ (3 + (uint_bytes a - 3))" using False by simp
  then have "uval a < 256 ^ 3 * 256 ^ (uint_bytes a - 3)"
    using uint_bytes_bounds(1) [OF assms] by (simp only: power_add)
  then have "uval a div 256 ^ (uint_bytes a - 3) < 256 ^ 3" by (rule less_mult_imp_div_less)
  then show ?thesis using False by (simp add: lead3_def)
qed

lemma compact_parts_less:
  assumes "wf_uint a"
  shows "compact_mantissa a < 2 ^ 23" "compact_size a \<le> 33" "compact_size a < 256"
    "compact_size a = 33 \<longrightarrow> compact_mantissa a < 2 ^ 16"
  using lead3_less [OF assms] uint_bytes_bounds(3) [OF assms]
  by (auto simp: compact_mantissa_def compact_size_def div_less_iff_less_mult)

lemma unat_lead3:
  assumes "wf_uint a"
  shows "unat (if uint_bytes a \<le> 3 then ucast (push_bit (8 * (3 - uint_bytes a)) (GetLow64 a)) :: u32
               else ucast (GetLow64 (uint_shr a (8 * (uint_bytes a - 3))))) = lead3 a"
proof (cases "uint_bytes a \<le> 3")
  case True
  have "(256::nat) ^ uint_bytes a \<le> 256 ^ 3" using True by (rule power_increasing) simp
  then have "unat (GetLow64 a) = uval a"
    using uint_bytes_bounds(1) [OF assms] GetLow64_val [OF assms] by simp
  then have "unat (push_bit (8 * (3 - uint_bytes a)) (GetLow64 a)) = lead3 a mod 2 ^ 64"
    using True
    by (simp only: unsigned_push_bit_eq push_bit_eq_mult [where 'a = nat] take_bit_eq_mod [where 'a = nat]
        pow256 lead3_def if_True) simp
  then show ?thesis using True lead3_less [OF assms] by (simp add: unat_ucast_64_32)
next
  case False
  have "uval (uint_shr a (8 * (uint_bytes a - 3))) = lead3 a"
    using False assms by (simp add: val_uint_shr drop_bit_eq_div lead3_def pow256)
  then show ?thesis
    using False lead3_less [OF assms] by (simp add: unat_ucast_64_32 GetLow64_val)
qed

lemma GetCompact_nat:
  assumes "wf_uint a"
  shows "\<exists>c. GetCompact a False = Some c \<and> unat c = compact_mantissa a + compact_size a * 2 ^ 24"
proof -
  define c0 where "c0 = (if uint_bytes a \<le> 3 then ucast (push_bit (8 * (3 - uint_bytes a)) (GetLow64 a)) :: u32
                         else ucast (GetLow64 (uint_shr a (8 * (uint_bytes a - 3)))))"
  have c0: "unat c0 = lead3 a" using unat_lead3 [OF assms] by (simp only: c0_def)
  have sgn: "c0 AND 0x00800000 \<noteq> 0 \<longleftrightarrow> \<not> lead3 a < 2 ^ 23"
    using lead3_less [OF assms] not_bit_less [of "lead3 a" 23] bit_ge [of "lead3 a" 23]
    by (auto simp: and_bit23 c0)
  define c1 where "c1 = (if c0 AND 0x00800000 \<noteq> 0 then drop_bit 8 c0 else c0)"
  have c1: "unat c1 = compact_mantissa a"
    unfolding c1_def sgn by (simp add: compact_mantissa_def c0 unat_drop_bit_nat)
  have n: "(if c0 AND 0x00800000 \<noteq> 0 then uint_bytes a + 1 else uint_bytes a) = compact_size a"
    unfolding sgn by (simp add: compact_size_def)
  have "GetCompact a False = (if c1 AND NOT 0x007fffff \<noteq> 0 \<or> \<not> compact_size a < 256 then None
      else Some (c1 OR push_bit 24 (of_nat (compact_size a))))"
    by (simp only: GetCompact_def Let_def n simp_thms if_False or.right_neutral
        flip: uint_bytes_def c0_def c1_def)
  then have "GetCompact a False = Some (c1 OR push_bit 24 (of_nat (compact_size a)))"
    using compact_parts_less [OF assms] c1 and_high_zero [of c1] by simp
  then show ?thesis
    using or_size_byte [of c1 "compact_size a"] c1 compact_parts_less [OF assms] by auto
qed

text \<open>
  Decoding an encoded number: up to three bytes nothing is lost, above that the mantissa is the
  leading part and has at least 16 significant bits.
\<close>

lemma compact_short:
  assumes "compact_size a \<le> 3"
  shows "compact_mantissa a div 256 ^ (3 - compact_size a) = uval a"
proof (cases "lead3 a < 2 ^ 23")
  case True
  with assms show ?thesis by (simp add: compact_mantissa_def compact_size_def lead3_def)
next
  case False
  with assms have b: "uint_bytes a \<le> 2" "compact_size a = uint_bytes a + 1"
    by (simp_all add: compact_size_def)
  then have "lead3 a = (uval a * 256 ^ (2 - uint_bytes a)) * 256"
    using pow256_split [of 1 "3 - uint_bytes a"] by (simp add: lead3_def)
  then show ?thesis using False b by (simp add: compact_mantissa_def)
qed

lemma compact_long:
  assumes "\<not> compact_size a \<le> 3"
  shows "compact_mantissa a = uval a div 256 ^ (compact_size a - 3)"
proof (cases "lead3 a < 2 ^ 23")
  case True
  with assms show ?thesis by (simp add: compact_mantissa_def compact_size_def lead3_def)
next
  case hi: False
  have b3: "3 \<le> uint_bytes a" using assms by (simp add: compact_size_def split: if_splits)
  then have "lead3 a = uval a div 256 ^ (uint_bytes a - 3)"
    by (cases "uint_bytes a = 3") (simp_all add: lead3_def)
  moreover have "(256::nat) ^ (uint_bytes a + 1 - 3) = 256 ^ (uint_bytes a - 3) * 256"
  proof -
    have "uint_bytes a + 1 - 3 = (uint_bytes a - 3) + 1" using b3 by simp
    then show ?thesis by (simp only: power_add) simp
  qed
  ultimately show ?thesis
    using hi by (simp only: compact_mantissa_def compact_size_def if_False div_mult2_eq)
qed

lemma compact_long_ge:
  assumes "wf_uint a" "\<not> compact_size a \<le> 3"
  shows "2 ^ 15 \<le> compact_mantissa a"
proof (cases "lead3 a < 2 ^ 23")
  case True
  then have n: "compact_size a = uint_bytes a" by (simp add: compact_size_def)
  have "256 ^ (uint_bytes a - 1) = 256 ^ 2 * (256::nat) ^ (uint_bytes a - 3)"
    using assms(2) n pow256_split [of 2 "uint_bytes a - 1"] by (simp add: diff_diff_left)
  then have "256 ^ 2 * 256 ^ (uint_bytes a - 3) \<le> uval a"
    using uint_bytes_bounds(2) [OF assms(1)] assms(2) n by simp
  then have "256 ^ 2 \<le> uval a div 256 ^ (uint_bytes a - 3)" by (simp add: less_eq_div_iff_mult_less_eq)
  then show ?thesis using compact_long [OF assms(2)] n by simp
next
  case False
  then have "2 ^ 23 div 256 \<le> lead3 a div 256" by (intro div_le_mono) simp
  with False show ?thesis by (simp add: compact_mantissa_def)
qed

text \<open>A mantissa between \<open>2 ^ 15\<close> and \<open>2 ^ 23\<close> with its size is its own encoding.\<close>

lemma compact_canonical:
  assumes "wf_uint x" "uval x = m * 256 ^ (n - 3)" "2 ^ 15 \<le> m" "m < 2 ^ 23" "4 \<le> n"
  shows "compact_mantissa x = m" "compact_size x = n"
proof -
  define k where "k = (if 2 ^ 16 \<le> m then n else n - 1)"
  define M where "M = (if 2 ^ 16 \<le> m then m else m * 256)"
  have k: "3 \<le> k" using assms(5) unfolding k_def by (cases "2 ^ 16 \<le> m") simp_all
  have "n - 3 = 1 + (n - 4)" using assms(5) by simp
  then have "(256::nat) ^ (n - 3) = 256 * 256 ^ (n - 4)" by (simp only: power_add) simp
  then have v: "uval x = M * 256 ^ (k - 3)" using assms(2) by (simp add: M_def k_def)
  have M: "2 ^ 16 \<le> M" "M < 2 ^ 24" using assms(3,4) by (auto simp: M_def)
  have "(256::nat) ^ (k - 1) = 256 ^ 2 * 256 ^ (k - 3)" "(256::nat) ^ k = 256 ^ 3 * 256 ^ (k - 3)"
    using k pow256_split [of 2 "k - 1"] pow256_split [of 3 k] by (simp_all add: diff_diff_left)
  then have "256 ^ (k - 1) \<le> uval x" "uval x < 256 ^ k" using v M by simp_all
  then have b: "uint_bytes x = k" using assms(1) k by (intro uint_bytes_eq) simp_all
  have "lead3 x = M" using k v by (cases "k = 3") (simp_all add: lead3_def b)
  moreover have "M < 2 ^ 23 \<longleftrightarrow> 2 ^ 16 \<le> m" using assms(3,4) by (auto simp: M_def)
  ultimately show "compact_mantissa x = m" "compact_size x = n"
    using assms(5) by (auto simp: compact_mantissa_def compact_size_def b k_def M_def)
qed

lemma SetCompact_flags:
  assumes "unat c = m + n * 2 ^ 24" "m < 2 ^ 23" "n < 256" "0 < m \<longrightarrow> n \<le> 33" "n = 33 \<longrightarrow> m < 2 ^ 16"
  shows "snd (SetCompact c) = (False, False)"
proof -
  have d: "unat (drop_bit 24 c) = n" "unat (c AND 0x007fffff) = m"
    using assms(1) compact_decode [OF assms(2,3)] by (simp_all only: unat_drop_bit_nat unat_mantissa)
  have "\<not> bit (unat c) 23"
  proof -
    have "unat c = m + (2 * n) * 2 ^ 23" using assms(1) by simp
    then have "unat c div 2 ^ 23 = 2 * n" using assms(2) by simp
    then show ?thesis by (simp only: bit_iff_odd) simp
  qed
  then have neg: "\<not> c AND 0x00800000 \<noteq> 0" by (simp add: and_bit23)
  have z: "c AND 0x007fffff = 0 \<longleftrightarrow> m = 0" using d(2) by (metis unat_eq_zero)
  have big: "c AND 0x007fffff > 0xffff \<longleftrightarrow> 0xffff < m" using d(2) by (simp add: word_less_nat_alt)
  show ?thesis
    using assms(3-5) neg z big d(1)
    by (auto simp: SetCompact_def Let_def)
qed

section \<open>Round trip\<close>

lemma compact_precision:
  fixes a P m :: nat
  assumes "m = a div P" "0 < P" "2 ^ 15 \<le> m"
  shows "m * P \<le> a" "(a - m * P) * 2 ^ 15 \<le> m * P"
proof -
  have a: "a = m * P + a mod P" unfolding assms(1) by (rule div_mult_mod_eq [symmetric])
  then show "m * P \<le> a" by linarith
  have "a - m * P \<le> P" using a mod_less_divisor [OF assms(2), of a] by linarith
  then have "(a - m * P) * 2 ^ 15 \<le> 2 ^ 15 * P" by simp
  also have "\<dots> \<le> m * P" using assms(3) by (rule mult_le_mono1)
  finally show "(a - m * P) * 2 ^ 15 \<le> m * P" .
qed

lemma SetCompact_GetCompact:
  assumes wf: "wf_uint a" and c: "unat c = compact_mantissa a + compact_size a * 2 ^ 24"
  obtains bn where "SetCompact c = (bn, False, False)" "wf_uint bn"
    "uval bn = (if compact_size a \<le> 3 then uval a
                else compact_mantissa a * 256 ^ (compact_size a - 3))"
proof
  let ?m = "compact_mantissa a" and ?n = "compact_size a"
  note less = compact_parts_less [OF wf]
  show "SetCompact c = (fst (SetCompact c), False, False)"
    using SetCompact_flags [OF c less(1,3)] less by (simp add: prod_eq_iff)
  have dec: "uval (fst (SetCompact c)) = (if ?n \<le> 3 then ?m div 256 ^ (3 - ?n) else ?m * 256 ^ (?n - 3) mod 2 ^ 256)"
    using val_SetCompact [of c] unfolding c compact_decode [OF less(1,3)] by (simp only: Let_def)
  have "?m * 256 ^ (?n - 3) \<le> uval a" if "\<not> ?n \<le> 3"
    using compact_precision(1) [OF compact_long [OF that]] compact_long_ge [OF wf that] by simp
  then show "uval (fst (SetCompact c)) = (if ?n \<le> 3 then uval a else ?m * 256 ^ (?n - 3))"
    using dec val_less_256 [OF wf] compact_short [of a] by auto
qed simp

lemma GetCompact_SetCompact:
  assumes wf: "wf_uint a"
  shows "\<exists>c bn. GetCompact a False = Some c \<and> SetCompact c = (bn, False, False) \<and>
    uval bn \<le> uval a \<and> (uval a - uval bn) * 2 ^ 15 \<le> uval bn \<and> GetCompact bn False = Some c"
proof -
  obtain c where c: "GetCompact a False = Some c" "unat c = compact_mantissa a + compact_size a * 2 ^ 24"
    using GetCompact_nat [OF wf] by blast
  obtain bn where bn: "SetCompact c = (bn, False, False)" "wf_uint bn"
      "uval bn = (if compact_size a \<le> 3 then uval a else compact_mantissa a * 256 ^ (compact_size a - 3))"
    using SetCompact_GetCompact [OF wf c(2)] .
  show ?thesis
  proof (cases "compact_size a \<le> 3")
    case True
    then have "bn = a" using bn wf by (intro val_inject) (simp_all add: wf_uint_def)
    with c bn show ?thesis by auto
  next
    case False
    note ge = compact_long_ge [OF wf False]
    have "compact_mantissa bn = compact_mantissa a" "compact_size bn = compact_size a"
      using compact_canonical [OF bn(2), of "compact_mantissa a" "compact_size a"] bn(3) False ge
        compact_parts_less [OF wf] by simp_all
    moreover obtain c' where c': "GetCompact bn False = Some c'"
      "unat c' = compact_mantissa bn + compact_size bn * 2 ^ 24"
      using GetCompact_nat [OF bn(2)] by blast
    ultimately have "c' = c" using c(2) by (simp add: word_unat_eq_iff)
    with c c' bn False compact_precision [OF compact_long [OF False] _ ge] show ?thesis by auto
  qed
qed

text \<open>
  C2. Encoding any 256-bit number in compact form never trips an assertion; decoding the result sets
  neither the negative nor the overflow flag, gives a number that is not larger and differs by at
  most a relative \<open>2 ^ -15\<close>, and encoding that number again gives the same word.
\<close>

theorem compact_roundtrip:
  assumes wf: "wf_uint a"
  shows "\<exists>c bn. GetCompact a False = Some c \<and> SetCompact c = (bn, False, False) \<and>
    uval bn \<le> uval a \<and> (uval a - uval bn) * 2 ^ 15 \<le> uval bn \<and> GetCompact bn False = Some c"
  using assms by (rule GetCompact_SetCompact)

theorem compact_roundtrip_witness:
  "\<exists>c bn. GetCompact (uint_of_u64 0x1234567890) False = Some c \<and> SetCompact c = (bn, False, False) \<and>
    uval bn \<le> 0x1234567890 \<and> (0x1234567890 - uval bn) * 2 ^ 15 \<le> uval bn \<and> GetCompact bn False = Some c"
  using compact_roundtrip [OF wf_uint_of_u64 [of "0x1234567890"]] by simp

end
