(* ===== verification/Block_Header.thy ===== *)
theory Block_Header
  imports Byte_Order "HOL-Library.Signed_Division"
begin

text \<open>
  Model of \<^verbatim>\<open>src/src/primitives/pureheader.h\<close> and \<^verbatim>\<open>src/src/primitives/pureheader.cpp\<close>: the 80-byte block
  header and the fields packed into its version (base version, merge-mining flag, chain ID). A
  signed C++ integer is an \<open>int\<close>; division and remainder truncate towards zero. The X11 hash of
  the serialized header is a parameter of the functions that need it.
\<close>

unbundle bit_operations_syntax

section \<open>The model\<close>

type_synonym uint256 = "byte list"

record CPureBlockHeader =
  hdr_nVersion :: int
  hashPrevBlock :: uint256
  hdr_hashMerkleRoot :: uint256
  hdr_nTime :: u32
  hdr_nBits :: u32
  hdr_nNonce :: u32

definition VERSION_AUXPOW :: int where
  "VERSION_AUXPOW = push_bit 8 1"

definition VERSION_CHAIN_START :: int where
  "VERSION_CHAIN_START = push_bit 16 1"

definition header_SetNull :: CPureBlockHeader where
  "header_SetNull = \<lparr>hdr_nVersion = 0, hashPrevBlock = replicate 32 0, hdr_hashMerkleRoot = replicate 32 0,
     hdr_nTime = 0, hdr_nBits = 0, hdr_nNonce = 0\<rparr>"

definition header_IsNull :: "CPureBlockHeader \<Rightarrow> bool" where
  "header_IsNull h \<longleftrightarrow> hdr_nBits h = 0"

definition serialize_header :: "CPureBlockHeader \<Rightarrow> byte list" where
  "serialize_header h = WriteLE32 (word_of_int (hdr_nVersion h)) @ hashPrevBlock h @ hdr_hashMerkleRoot h @
     WriteLE32 (hdr_nTime h) @ WriteLE32 (hdr_nBits h) @ WriteLE32 (hdr_nNonce h)"

definition GetPoWHash :: "(byte list \<Rightarrow> uint256) \<Rightarrow> CPureBlockHeader \<Rightarrow> uint256" where
  "GetPoWHash HashX11 h = HashX11 (serialize_header h)"

definition header_GetHash :: "(byte list \<Rightarrow> uint256) \<Rightarrow> CPureBlockHeader \<Rightarrow> uint256" where
  "header_GetHash HashX11 h = GetPoWHash HashX11 h"

definition header_GetBlockTime :: "CPureBlockHeader \<Rightarrow> int" where
  "header_GetBlockTime h = uint (hdr_nTime h)"

definition GetBaseVersion :: "int \<Rightarrow> int" where
  "GetBaseVersion ver = ver smod VERSION_AUXPOW"

definition GetChainId :: "CPureBlockHeader \<Rightarrow> int" where
  "GetChainId h = hdr_nVersion h sdiv VERSION_CHAIN_START"

definition SetChainId :: "int \<Rightarrow> CPureBlockHeader \<Rightarrow> CPureBlockHeader" where
  "SetChainId chainId h =
    h\<lparr>hdr_nVersion := (hdr_nVersion h smod VERSION_CHAIN_START) OR (chainId * VERSION_CHAIN_START)\<rparr>"

definition IsAuxpow :: "CPureBlockHeader \<Rightarrow> bool" where
  "IsAuxpow h \<longleftrightarrow> hdr_nVersion h AND VERSION_AUXPOW \<noteq> 0"

definition SetAuxpowVersion :: "bool \<Rightarrow> CPureBlockHeader \<Rightarrow> CPureBlockHeader" where
  "SetAuxpowVersion auxpow h =
    (if auxpow then h\<lparr>hdr_nVersion := hdr_nVersion h OR VERSION_AUXPOW\<rparr>
     else h\<lparr>hdr_nVersion := hdr_nVersion h AND NOT VERSION_AUXPOW\<rparr>)"

definition IsLegacy :: "CPureBlockHeader \<Rightarrow> bool" where
  "IsLegacy h \<longleftrightarrow> hdr_nVersion h = 1"

text \<open>\<open>None\<close> where an assertion of the source fails.\<close>

definition SetBaseVersion :: "int \<Rightarrow> int \<Rightarrow> CPureBlockHeader \<Rightarrow> CPureBlockHeader option" where
  "SetBaseVersion nBaseVersion nChainId h =
    (if \<not> (nBaseVersion \<ge> 1 \<and> nBaseVersion < VERSION_AUXPOW) \<or> IsAuxpow h then None
     else Some (h\<lparr>hdr_nVersion := nBaseVersion OR (nChainId * VERSION_CHAIN_START)\<rparr>))"

section \<open>The packed version\<close>

lemma version_consts [simp]: "VERSION_AUXPOW = 256" "VERSION_CHAIN_START = 65536"
  by (simp_all add: VERSION_AUXPOW_def VERSION_CHAIN_START_def)

text \<open>A low part below a power of two and a multiple of that power do not overlap.\<close>

lemma or_shifted:
  fixes b c :: int
  assumes "0 \<le> b" "b < 2 ^ n"
  shows "b OR (c * 2 ^ n) = b + c * 2 ^ n"
proof -
  have t: "take_bit n b = b" using assms by (rule take_bit_int_eq_self)
  have high: "\<not> bit b k" if "n \<le> k" for k
  proof -
    have "\<not> bit (take_bit n b) k" using that by (simp only: bit_take_bit_iff) simp
    then show ?thesis unfolding t .
  qed
  have "b AND push_bit n c = 0"
    by (rule bit_eqI) (use high in \<open>auto simp: bit_and_iff bit_push_bit_iff\<close>)
  then have "b OR push_bit n c = b + push_bit n c" by (rule disjunctive_add_eq_or [symmetric])
  then show ?thesis by (simp only: push_bit_eq_mult)
qed

lemma smod_nonneg: "0 \<le> a \<Longrightarrow> 0 < b \<Longrightarrow> a smod b = a mod b" for a b :: int
  by (simp add: signed_modulo_int_def sgn_if)

lemma sdiv_nonneg: "0 \<le> a \<Longrightarrow> 0 < b \<Longrightarrow> a sdiv b = a div b" for a b :: int
  by (simp add: signed_divide_int_def sgn_if)

lemma IsAuxpow_bit: "IsAuxpow h \<longleftrightarrow> bit (hdr_nVersion h) 8"
  using and_exp_eq_0_iff_not_bit [of "hdr_nVersion h" 8] by (simp add: IsAuxpow_def)

lemma SetBaseVersion_fields:
  assumes "SetBaseVersion v c h = Some h'" "0 \<le> c"
  shows "GetBaseVersion (hdr_nVersion h') = v" "GetChainId h' = c" "\<not> IsAuxpow h'"
proof -
  have v: "1 \<le> v" "v < 256" and h': "hdr_nVersion h' = v OR (c * 65536)"
    using assms(1) by (auto simp: SetBaseVersion_def split: if_splits)
  have e: "hdr_nVersion h' = v + c * 65536" using or_shifted [of v 16 c] v h' by simp
  have "(v + (c * 256) * 256) mod 256 = v" using v by (simp only: mod_mult_self1) simp
  then show "GetBaseVersion (hdr_nVersion h') = v"
    using v assms(2) by (simp add: GetBaseVersion_def e smod_nonneg mult.commute)
  show "GetChainId h' = c" using v assms(2) by (simp add: GetChainId_def e sdiv_nonneg)
  have "c * 65536 = push_bit 16 c" by (simp add: push_bit_eq_mult)
  then have "\<not> bit (c * 65536) 8" by (simp only: bit_push_bit_iff) simp
  moreover have "\<not> bit v 8" using v by (simp add: bit_iff_odd)
  ultimately show "\<not> IsAuxpow h'" by (simp add: IsAuxpow_bit h' bit_or_iff)
qed

lemma IsAuxpow_SetAuxpowVersion [simp]: "IsAuxpow (SetAuxpowVersion a h) = a"
proof -
  have "bit VERSION_AUXPOW 8" by (simp add: bit_iff_odd)
  then show ?thesis
    by (simp add: IsAuxpow_bit SetAuxpowVersion_def bit_or_iff bit_and_iff bit_not_iff
        del: version_consts)
qed

lemma length_serialize_header:
  "length (hashPrevBlock h) = 32 \<Longrightarrow> length (hdr_hashMerkleRoot h) = 32 \<Longrightarrow> length (serialize_header h) = 80"
  by (simp add: serialize_header_def)

end
