(* ===== verification/Block_Index.thy ===== *)
theory Block_Index
  imports Arith_Compact Block_Header "HOL-Library.Monad_Syntax"
begin

text \<open>
  Model of the block index of \<^verbatim>\<open>src/src/chain.h\<close>, \<^verbatim>\<open>src/src/chain.cpp\<close> and of
  \<^verbatim>\<open>BlockManager::AddToBlockIndex\<close> in \<^verbatim>\<open>src/src/validation.cpp\<close>. The objects live in a store that maps
  pointers to \<^verbatim>\<open>CBlockIndex\<close> records; a null pointer is \<open>None\<close>. An operation that may fail an
  assertion, dereference a dangling pointer or loop forever returns an option: \<open>None\<close> means that it
  does not return to its caller, and the theorems show that on a well-formed index it always does.
  The main results: the skip-list walk of \<^verbatim>\<open>GetAncestor\<close> agrees with following \<^verbatim>\<open>pprev\<close>, adding a
  block keeps the index well-formed, and the proof of a block is \<open>2 ^ 256 div (target + 1)\<close>.
\<close>

unbundle bit_operations_syntax

section \<open>The model\<close>

type_synonym blockptr = nat

abbreviation BLOCK_VALID_UNKNOWN :: u32 where "BLOCK_VALID_UNKNOWN \<equiv> 0"
abbreviation BLOCK_VALID_RESERVED :: u32 where "BLOCK_VALID_RESERVED \<equiv> 1"
abbreviation BLOCK_VALID_TREE :: u32 where "BLOCK_VALID_TREE \<equiv> 2"
abbreviation BLOCK_VALID_TRANSACTIONS :: u32 where "BLOCK_VALID_TRANSACTIONS \<equiv> 3"
abbreviation BLOCK_VALID_CHAIN :: u32 where "BLOCK_VALID_CHAIN \<equiv> 4"
abbreviation BLOCK_VALID_SCRIPTS :: u32 where "BLOCK_VALID_SCRIPTS \<equiv> 5"

definition BLOCK_VALID_MASK :: u32 where
  "BLOCK_VALID_MASK = BLOCK_VALID_RESERVED OR BLOCK_VALID_TREE OR BLOCK_VALID_TRANSACTIONS OR
     BLOCK_VALID_CHAIN OR BLOCK_VALID_SCRIPTS"

abbreviation BLOCK_HAVE_DATA :: u32 where "BLOCK_HAVE_DATA \<equiv> 8"
abbreviation BLOCK_HAVE_UNDO :: u32 where "BLOCK_HAVE_UNDO \<equiv> 16"
abbreviation BLOCK_FAILED_VALID :: u32 where "BLOCK_FAILED_VALID \<equiv> 32"
abbreviation BLOCK_FAILED_CHILD :: u32 where "BLOCK_FAILED_CHILD \<equiv> 64"
abbreviation BLOCK_CONFLICT_CHAINLOCK :: u32 where "BLOCK_CONFLICT_CHAINLOCK \<equiv> 128"

definition BLOCK_FAILED_MASK :: u32 where
  "BLOCK_FAILED_MASK = BLOCK_FAILED_VALID OR BLOCK_FAILED_CHILD"

record CBlockIndex =
  phashBlock :: uint256
  pprev :: "blockptr option"
  pskip :: "blockptr option"
  nHeight :: int
  nFile :: int
  nDataPos :: u32
  nUndoPos :: u32
  nChainWork :: base_uint
  nTx :: u32
  nChainTx :: u32
  nStatus :: u32
  nVersion :: int
  hashMerkleRoot :: uint256
  nTime :: u32
  nBits :: u32
  nNonce :: u32
  nSequenceId :: int
  nTimeMax :: u32

type_synonym block_store = "blockptr \<rightharpoonup> CBlockIndex"

text \<open>\<^verbatim>\<open>CBlockIndex(const CBlockHeader&)\<close>; the hash pointer is set when the entry is inserted.\<close>

definition new_CBlockIndex :: "CPureBlockHeader \<Rightarrow> uint256 \<Rightarrow> CBlockIndex" where
  "new_CBlockIndex block hash =
    \<lparr>phashBlock = hash, pprev = None, pskip = None, nHeight = 0, nFile = 0, nDataPos = 0, nUndoPos = 0,
     nChainWork = uint_zero, nTx = 0, nChainTx = 0, nStatus = 0, nVersion = hdr_nVersion block,
     hashMerkleRoot = hdr_hashMerkleRoot block, nTime = hdr_nTime block, nBits = hdr_nBits block,
     nNonce = hdr_nNonce block, nSequenceId = 0, nTimeMax = 0\<rparr>"

definition GetBlockTime :: "CBlockIndex \<Rightarrow> int" where
  "GetBlockTime b = uint (nTime b)"

definition GetBlockTimeMax :: "CBlockIndex \<Rightarrow> int" where
  "GetBlockTimeMax b = uint (nTimeMax b)"

definition HaveTxsDownloaded :: "CBlockIndex \<Rightarrow> bool" where
  "HaveTxsDownloaded b \<longleftrightarrow> nChainTx b \<noteq> 0"

definition GetBlockPos :: "CBlockIndex \<Rightarrow> (int \<times> u32) option" where
  "GetBlockPos b = (if nStatus b AND BLOCK_HAVE_DATA \<noteq> 0 then Some (nFile b, nDataPos b) else None)"

definition GetUndoPos :: "CBlockIndex \<Rightarrow> (int \<times> u32) option" where
  "GetUndoPos b = (if nStatus b AND BLOCK_HAVE_UNDO \<noteq> 0 then Some (nFile b, nUndoPos b) else None)"

text \<open>\<open>IsValid\<close> and \<open>RaiseValidity\<close> assert that the level has no bit outside the validity mask.\<close>

definition IsValid :: "CBlockIndex \<Rightarrow> u32 \<Rightarrow> bool option" where
  "IsValid b nUpTo =
    (if nUpTo AND NOT BLOCK_VALID_MASK \<noteq> 0 then None
     else if nStatus b AND BLOCK_FAILED_MASK \<noteq> 0 then Some False
     else Some (nStatus b AND BLOCK_VALID_MASK \<ge> nUpTo))"

definition RaiseValidity :: "CBlockIndex \<Rightarrow> u32 \<Rightarrow> (bool \<times> CBlockIndex) option" where
  "RaiseValidity b nUpTo =
    (if nUpTo AND NOT BLOCK_VALID_MASK \<noteq> 0 then None
     else if nStatus b AND BLOCK_FAILED_MASK \<noteq> 0 then Some (False, b)
     else if nStatus b AND BLOCK_VALID_MASK < nUpTo
     then Some (True, b\<lparr>nStatus := (nStatus b AND NOT BLOCK_VALID_MASK) OR nUpTo\<rparr>)
     else Some (False, b))"

definition nMedianTimeSpan :: nat where
  "nMedianTimeSpan = 11"

text \<open>The loop fills \<^verbatim>\<open>pmedian\<close> from its end, so the collected times are in chain order.\<close>

fun median_times :: "block_store \<Rightarrow> nat \<Rightarrow> blockptr option \<Rightarrow> int list \<Rightarrow> int list option" where
  "median_times S 0 pindex acc = Some acc"
| "median_times S (Suc i) None acc = Some acc"
| "median_times S (Suc i) (Some p) acc =
    (case S p of None \<Rightarrow> None
     | Some b \<Rightarrow> median_times S i (pprev b) (GetBlockTime b # acc))"

definition GetMedianTimePast :: "block_store \<Rightarrow> blockptr \<Rightarrow> int option" where
  "GetMedianTimePast S p =
    map_option (\<lambda>ts. sort ts ! (length ts div 2)) (median_times S nMedianTimeSpan (Some p) [])"

definition InvertLowestOne :: "int \<Rightarrow> int" where
  "InvertLowestOne n = n AND (n - 1)"

definition GetSkipHeight :: "int \<Rightarrow> int" where
  "GetSkipHeight height =
    (if height < 2 then 0
     else if height AND 1 \<noteq> 0 then InvertLowestOne (InvertLowestOne (height - 1)) + 1
     else InvertLowestOne height)"

partial_function (option) GetAncestor_loop :: "block_store \<Rightarrow> int \<Rightarrow> blockptr \<Rightarrow> int \<Rightarrow> blockptr option" where
  "GetAncestor_loop S height pindexWalk heightWalk =
    (if heightWalk > height then
       do {
         b \<leftarrow> S pindexWalk;
         let heightSkip = GetSkipHeight heightWalk;
         let heightSkipPrev = GetSkipHeight (heightWalk - 1);
         if pskip b \<noteq> None \<and> (heightSkip = height \<or> (heightSkip > height \<and>
              \<not> (heightSkipPrev < heightSkip - 2 \<and> heightSkipPrev \<ge> height)))
         then do { s \<leftarrow> pskip b; GetAncestor_loop S height s heightSkip }
         else do { q \<leftarrow> pprev b; GetAncestor_loop S height q (heightWalk - 1) }
       }
     else Some pindexWalk)"

definition GetAncestor :: "block_store \<Rightarrow> blockptr \<Rightarrow> int \<Rightarrow> blockptr option option" where
  "GetAncestor S p height = do {
     b \<leftarrow> S p;
     if height > nHeight b \<or> height < 0 then Some None
     else do { q \<leftarrow> GetAncestor_loop S height p (nHeight b); Some (Some q) }
   }"

definition BuildSkip :: "block_store \<Rightarrow> CBlockIndex \<Rightarrow> CBlockIndex option" where
  "BuildSkip S b = (case pprev b of
     None \<Rightarrow> Some b
   | Some q \<Rightarrow> do { s \<leftarrow> GetAncestor S q (GetSkipHeight (nHeight b)); Some (b\<lparr>pskip := s\<rparr>) })"

definition GetBlockProof :: "CBlockIndex \<Rightarrow> uint_error + base_uint" where
  "GetBlockProof block =
    (let (bnTarget, fNegative, fOverflow) = SetCompact (nBits block)
     in if fNegative \<or> fOverflow \<or> EqualTo bnTarget 0 then Inr uint_zero
        else case uint_div (uint_not bnTarget) (uint_add bnTarget (uint_of_u64 1)) of
               Inl e \<Rightarrow> Inl e
             | Inr q \<Rightarrow> Inr (uint_add q (uint_of_u64 1)))"

definition GetBlockProofEquivalentTime ::
    "CBlockIndex \<Rightarrow> CBlockIndex \<Rightarrow> CBlockIndex \<Rightarrow> u64 \<Rightarrow> uint_error + int" where
  "GetBlockProofEquivalentTime to from tip nPowTargetSpacing =
    (let (r, sgn) = if uint_gt (nChainWork to) (nChainWork from)
                    then (uint_sub (nChainWork to) (nChainWork from), 1)
                    else (uint_sub (nChainWork from) (nChainWork to), -1)
     in case GetBlockProof tip of
          Inl e \<Rightarrow> Inl e
        | Inr proof_tip \<Rightarrow>
            (case uint_div (uint_mul r (uint_of_u64 nPowTargetSpacing)) proof_tip of
               Inl e \<Rightarrow> Inl e
             | Inr r \<Rightarrow> if uint_bits r > 63 then Inr (sgn * 0x7fffffffffffffff)
                        else Inr (sint (of_int sgn * GetLow64 r))))"

text \<open>
  The block manager: the objects, the next free address (the result of \<^verbatim>\<open>new\<close>), the map from
  hashes to entries, the multimap from parent hashes to children, the best header and the set of
  entries to write to disk.
\<close>

record BlockManager =
  blocks :: block_store
  next_ptr :: blockptr
  m_block_index :: "uint256 \<rightharpoonup> blockptr"
  m_prev_block_index :: "(uint256 \<times> blockptr) list"
  pindexBestHeader :: "blockptr option"
  setDirtyBlockIndex :: "blockptr set"

definition link_prev :: "BlockManager \<Rightarrow> CPureBlockHeader \<Rightarrow> CBlockIndex \<Rightarrow> CBlockIndex option" where
  "link_prev bm block b = (case m_block_index bm (hashPrevBlock block) of
     None \<Rightarrow> Some b
   | Some q \<Rightarrow> do {
       bq \<leftarrow> blocks bm q;
       BuildSkip (blocks bm) (b\<lparr>pprev := Some q, nHeight := nHeight bq + 1\<rparr>)
     })"

definition chain_totals :: "BlockManager \<Rightarrow> CBlockIndex \<Rightarrow> CBlockIndex option" where
  "chain_totals bm b = do {
     (tmax, work) \<leftarrow> (case pprev b of
         None \<Rightarrow> Some (nTime b, uint_zero)
       | Some q \<Rightarrow> map_option (\<lambda>bq. (max (nTimeMax bq) (nTime b), nChainWork bq)) (blocks bm q));
     w \<leftarrow> (case GetBlockProof b of Inl e \<Rightarrow> None | Inr w \<Rightarrow> Some w);
     Some (b\<lparr>nTimeMax := tmax, nChainWork := uint_add work w\<rparr>)
   }"

definition set_status :: "CBlockIndex \<Rightarrow> u32 \<Rightarrow> CBlockIndex option" where
  "set_status b st =
    (if st AND BLOCK_VALID_MASK \<noteq> 0 then map_option snd (RaiseValidity b st)
     else map_option (\<lambda>(_, b'). b'\<lparr>nStatus := nStatus b' OR st\<rparr>) (RaiseValidity b BLOCK_VALID_TREE))"

definition best_header :: "BlockManager \<Rightarrow> blockptr \<Rightarrow> CBlockIndex \<Rightarrow> u32 \<Rightarrow> blockptr option option" where
  "best_header bm p b st =
    (if st AND BLOCK_VALID_MASK \<noteq> 0 then
       (case pindexBestHeader bm of
          None \<Rightarrow> Some (Some p)
        | Some q \<Rightarrow> do { bq \<leftarrow> blocks bm q;
                         Some (if CompareTo (nChainWork bq) (nChainWork b) < 0 then Some p else Some q) })
     else Some (pindexBestHeader bm))"

definition AddToBlockIndex :: "BlockManager \<Rightarrow> CPureBlockHeader \<Rightarrow> uint256 \<Rightarrow> u32 \<Rightarrow> (blockptr \<times> BlockManager) option" where
  "AddToBlockIndex bm block hash st =
    (if st AND BLOCK_FAILED_MASK \<noteq> 0 then None
     else case m_block_index bm hash of
       Some p \<Rightarrow> Some (p, bm)
     | None \<Rightarrow> (let p = next_ptr bm; bm1 = bm\<lparr>m_block_index := (m_block_index bm)(hash \<mapsto> p)\<rparr> in
         do {
           b1 \<leftarrow> link_prev bm1 block (new_CBlockIndex block hash);
           b2 \<leftarrow> chain_totals bm1 b1;
           b3 \<leftarrow> set_status b2 st;
           best \<leftarrow> best_header bm1 p b3 st;
           children \<leftarrow> (case pprev b3 of
               None \<Rightarrow> Some (m_prev_block_index bm)
             | Some q \<Rightarrow> map_option (\<lambda>bq. (phashBlock bq, p) # m_prev_block_index bm) (blocks bm q));
           Some (p, bm1\<lparr>blocks := (blocks bm)(p \<mapsto> b3), next_ptr := p + 1, m_prev_block_index := children,
                        pindexBestHeader := best, setDirtyBlockIndex := insert p (setDirtyBlockIndex bm)\<rparr>)
         }))"

section \<open>Skip heights\<close>

lemma InvertLowestOne_bounds: "0 < n \<Longrightarrow> 0 \<le> InvertLowestOne n \<and> InvertLowestOne n \<le> n - 1"
  by (simp add: InvertLowestOne_def AND_upper2)

lemma GetSkipHeight_bounds: "0 < h \<Longrightarrow> 0 \<le> GetSkipHeight h \<and> GetSkipHeight h < h"
proof (cases "h < 2")
  case False
  have i: "InvertLowestOne 0 = 0" by (simp add: InvertLowestOne_def)
  have "0 \<le> InvertLowestOne (h - 1)" "InvertLowestOne (h - 1) \<le> h - 2"
    using InvertLowestOne_bounds [of "h - 1"] False by auto
  then have "0 \<le> InvertLowestOne (InvertLowestOne (h - 1))"
      "InvertLowestOne (InvertLowestOne (h - 1)) \<le> h - 2"
    using InvertLowestOne_bounds [of "InvertLowestOne (h - 1)"] i
    by (cases "InvertLowestOne (h - 1) = 0"; simp)+
  then show ?thesis using False InvertLowestOne_bounds [of h] by (auto simp: GetSkipHeight_def)
qed (simp add: GetSkipHeight_def)

section \<open>Well-formed block indexes\<close>

text \<open>The reference notion of an ancestor: following \<^verbatim>\<open>pprev\<close> a number of times.\<close>

primrec prev_iter :: "block_store \<Rightarrow> nat \<Rightarrow> blockptr \<Rightarrow> blockptr option" where
  "prev_iter S 0 p = Some p"
| "prev_iter S (Suc n) p = Option.bind (Option.bind (S p) pprev) (prev_iter S n)"

text \<open>
  Heights count the distance from a root, and a skip pointer points to the ancestor at the skip
  height.
\<close>

definition wf_entry :: "block_store \<Rightarrow> blockptr \<Rightarrow> CBlockIndex \<Rightarrow> bool" where
  "wf_entry S p b \<longleftrightarrow> 0 \<le> nHeight b \<and>
     (case pprev b of
        None \<Rightarrow> nHeight b = 0 \<and> pskip b = None
      | Some q \<Rightarrow> (case S q of None \<Rightarrow> False | Some bq \<Rightarrow> nHeight b = nHeight bq + 1)) \<and>
     (case pskip b of
        None \<Rightarrow> True
      | Some s \<Rightarrow> prev_iter S (nat (nHeight b - GetSkipHeight (nHeight b))) p = Some s)"

definition wf_store :: "block_store \<Rightarrow> bool" where
  "wf_store S \<longleftrightarrow> (\<forall>p b. S p = Some b \<longrightarrow> wf_entry S p b)"

lemma prev_iter_add: "prev_iter S (m + n) p = Option.bind (prev_iter S m p) (prev_iter S n)"
proof (induction m arbitrary: p)
  case (Suc m)
  then show ?case by (cases "Option.bind (S p) pprev") simp_all
qed simp

lemma wf_storeD: "wf_store S \<Longrightarrow> S p = Some b \<Longrightarrow> wf_entry S p b"
  by (simp add: wf_store_def)

lemma wf_prev:
  assumes "wf_store S" "S p = Some b" "0 < nHeight b"
  obtains q bq where "pprev b = Some q" "S q = Some bq" "nHeight bq = nHeight b - 1"
  using wf_storeD [OF assms(1,2)] assms(3) by (auto simp: wf_entry_def split: option.splits)

lemma wf_height: "wf_store S \<Longrightarrow> S p = Some b \<Longrightarrow> 0 \<le> nHeight b"
  using wf_storeD by (auto simp: wf_entry_def)

lemma wf_prev_height:
  assumes "wf_store S" "S p = Some b" "pprev b = Some q"
  obtains bq where "S q = Some bq" "nHeight bq = nHeight b - 1"
  using wf_storeD [OF assms(1,2)] assms(3) by (auto simp: wf_entry_def split: option.splits)

lemma prev_iter_height:
  assumes "wf_store S" "S p = Some b" "int n \<le> nHeight b"
  shows "\<exists>q bq. prev_iter S n p = Some q \<and> S q = Some bq \<and> nHeight bq = nHeight b - int n"
  using assms(2,3)
proof (induction n arbitrary: p b)
  case (Suc n)
  obtain q bq where q: "pprev b = Some q" "S q = Some bq" "nHeight bq = nHeight b - 1"
    using wf_prev [OF assms(1) Suc.prems(1)] Suc.prems(2) by auto
  obtain r br where "prev_iter S n q = Some r" "S r = Some br" "nHeight br = nHeight bq - int n"
    using Suc.IH [OF q(2)] q(3) Suc.prems(2) by auto
  then show ?case using q Suc.prems(1) by auto
qed simp

section \<open>Ancestors\<close>

lemma GetAncestor_loop_correct:
  assumes "wf_store S" "0 \<le> h" "S p = Some b" "h \<le> nHeight b"
  shows "GetAncestor_loop S h p (nHeight b) = prev_iter S (nat (nHeight b - h)) p"
  using assms(3,4)
proof (induction "nat (nHeight b)" arbitrary: p b rule: less_induct)
  case less
  let ?k = "nHeight b" and ?s = "GetSkipHeight (nHeight b)"
  show ?case
  proof (cases "h < ?k")
    case False
    then show ?thesis using less.prems(2) by (subst GetAncestor_loop.simps) simp
  next
    case True
    then have k: "0 < ?k" using assms(2) by simp
    obtain q bq where q: "pprev b = Some q" "S q = Some bq" "nHeight bq = ?k - 1"
      using wf_prev [OF assms(1) less.prems(1) k] .
    have "nat (?k - h) = Suc (nat (nHeight bq - h))" using q(3) True by simp
    moreover have "GetAncestor_loop S h q (nHeight bq) = prev_iter S (nat (nHeight bq - h)) q"
      by (rule less.hyps [OF _ q(2)]) (use q(3) k True in simp_all)
    ultimately have prev: "GetAncestor_loop S h q (?k - 1) = prev_iter S (nat (?k - h)) p"
      using q less.prems(1) by simp
    have skip: "GetAncestor_loop S h s ?s = prev_iter S (nat (?k - h)) p" if s: "pskip b = Some s" "h \<le> ?s" for s
    proof -
      have it: "prev_iter S (nat (?k - ?s)) p = Some s"
        using wf_storeD [OF assms(1) less.prems(1)] s by (simp add: wf_entry_def)
      obtain bs where bs: "S s = Some bs" "nHeight bs = ?s"
        using prev_iter_height [OF assms(1) less.prems(1), of "nat (?k - ?s)"] it GetSkipHeight_bounds [OF k] by auto
      have n: "nat (?k - h) = nat (?k - ?s) + nat (?s - h)"
        using s(2) GetSkipHeight_bounds [OF k] by linarith
      have "GetAncestor_loop S h s (nHeight bs) = prev_iter S (nat (nHeight bs - h)) s"
        by (rule less.hyps [OF _ bs(1)]) (use bs(2) s(2) GetSkipHeight_bounds [OF k] in simp_all)
      then show ?thesis unfolding n prev_iter_add it bs(2) by simp
    qed
    show ?thesis
    proof (cases "pskip b")
      case None
      then show ?thesis
        by (subst GetAncestor_loop.simps) (simp add: True less.prems(1) q(1) prev Let_def)
    next
      case (Some s)
      show ?thesis
        by (subst GetAncestor_loop.simps)
          (use skip [OF Some] in \<open>auto simp: True less.prems(1) q(1) prev Let_def Some\<close>)
    qed
  qed
qed

lemma GetAncestor_prev:
  assumes "wf_store S" "S p = Some b"
  shows "GetAncestor S p h =
    Some (if 0 \<le> h \<and> h \<le> nHeight b then prev_iter S (nat (nHeight b - h)) p else None)"
proof (cases "0 \<le> h \<and> h \<le> nHeight b")
  case True
  then obtain q where "prev_iter S (nat (nHeight b - h)) p = Some q"
    using prev_iter_height [OF assms, of "nat (nHeight b - h)"] by auto
  then show ?thesis
    using True assms GetAncestor_loop_correct [OF assms(1) _ assms(2), of h] by (simp add: GetAncestor_def)
qed (use assms in \<open>auto simp: GetAncestor_def\<close>)

text \<open>
  C3. On a well-formed block index the skip-list search returns: for a height between zero and the
  height of the block it finds exactly the block reached by following \<^verbatim>\<open>pprev\<close> that many times, and
  for any other height the null pointer.
\<close>

theorem GetAncestor_is_prev_iter:
  assumes "wf_store S" "S p = Some b"
  shows "GetAncestor S p h =
    Some (if 0 \<le> h \<and> h \<le> nHeight b then prev_iter S (nat (nHeight b - h)) p else None)"
  using assms by (rule GetAncestor_prev)

text \<open>A chain of three blocks.\<close>

definition demo_block :: "blockptr option \<Rightarrow> blockptr option \<Rightarrow> int \<Rightarrow> CBlockIndex" where
  "demo_block pp ps h = (new_CBlockIndex \<lparr>hdr_nVersion = 1, hashPrevBlock = [], hdr_hashMerkleRoot = [], hdr_nTime = 0,
     hdr_nBits = 0x1e0fffff, hdr_nNonce = 0\<rparr> [])\<lparr>pprev := pp, pskip := ps, nHeight := h\<rparr>"

definition demo_store :: block_store where
  "demo_store = [0 \<mapsto> demo_block None None 0, 1 \<mapsto> demo_block (Some 0) (Some 0) 1,
     2 \<mapsto> demo_block (Some 1) (Some 0) 2]"

lemma wf_demo_store: "wf_store demo_store"
  by (auto simp: wf_store_def wf_entry_def demo_store_def demo_block_def GetSkipHeight_def InvertLowestOne_def
      numeral_2_eq_2 split: if_splits)

theorem GetAncestor_is_prev_iter_witness:
  "GetAncestor demo_store 2 1 = Some (Some 1) \<and> GetAncestor demo_store 2 3 = Some None"
proof -
  have "prev_iter demo_store (nat 1) 2 = Some 1" by (simp add: demo_store_def demo_block_def)
  moreover have "nHeight (demo_block (Some 1) (Some 0) 2) = 2" by (simp add: demo_block_def)
  moreover have S: "demo_store 2 = Some (demo_block (Some 1) (Some 0) 2)" by (simp add: demo_store_def)
  ultimately show ?thesis
    using GetAncestor_is_prev_iter [OF wf_demo_store S, of 1] GetAncestor_is_prev_iter [OF wf_demo_store S, of 3]
    by simp
qed

section \<open>Block proofs\<close>

definition block_work :: "u32 \<Rightarrow> nat" where
  "block_work bits =
    (let (t, neg, ovf) = SetCompact bits in if neg \<or> ovf \<or> uval t = 0 then 0 else 2 ^ 256 div (uval t + 1))"

lemma SetCompact_not_max: "uval (fst (SetCompact c)) + 1 < 2 ^ 256"
proof -
  let ?n = "unat c div 2 ^ 24" and ?m = "unat c mod 2 ^ 23"
  have m: "?m < 2 ^ 23" by (rule mod_less_divisor) simp
  show ?thesis
  proof (cases "?n \<le> 3")
    case True
    have "?m div 256 ^ (3 - ?n) < 2 ^ 23" using div_le_dividend m by (rule le_less_trans)
    then have "uval (fst (SetCompact c)) + 1 \<le> 2 ^ 23" using True by (simp add: val_SetCompact)
    also have "\<dots> < (2::nat) ^ 256" by simp
    finally show ?thesis .
  next
    case False
    have "(256::nat) dvd 256 ^ (?n - 3)" using False by simp
    then have "(256::nat) dvd ?m * 256 ^ (?n - 3) mod 2 ^ 256" by (simp add: dvd_mod)
    then have "256 dvd uval (fst (SetCompact c))" using False by (simp add: val_SetCompact)
    moreover have "\<not> 256 dvd (2 ^ 256 - 1 :: nat)" by simp
    ultimately have "uval (fst (SetCompact c)) \<noteq> 2 ^ 256 - 1" by metis
    then show ?thesis using val_less_256 [OF wf_SetCompact, of c] by simp
  qed
qed

lemma GetBlockProof_val:
  "\<exists>w. GetBlockProof block = Inr w \<and> wf_uint w \<and> uval w = block_work (nBits block)"
proof -
  obtain t neg ovf where t: "SetCompact (nBits block) = (t, neg, ovf)" by (cases "SetCompact (nBits block)")
  have wf: "wf_uint t" and less: "uval t + 1 < 2 ^ 256"
    using wf_SetCompact [of "nBits block"] SetCompact_not_max [of "nBits block"] by (simp_all add: t)
  show ?thesis
  proof (cases "neg \<or> ovf \<or> uval t = 0")
    case True
    then show ?thesis using wf by (auto simp: GetBlockProof_def block_work_def t EqualTo_val)
  next
    case False
    then obtain q where q: "uint_div (uint_not t) (uint_add t (uint_of_u64 1)) = Inr q"
        "wf_uint (uint_add q (uint_of_u64 1))" "uval (uint_add q (uint_of_u64 1)) = 2 ^ 256 div (uval t + 1)"
      using uint256.inverse_share [OF wf less] by blast
    then show ?thesis
      using False wf by (simp add: GetBlockProof_def block_work_def t EqualTo_val)
  qed
qed

text \<open>
  The proof of a block never divides by zero: it is zero for a negative, overflowing or zero
  target and otherwise the expected number of hashes \<open>2 ^ 256 div (target + 1)\<close>, although that
  dividend does not fit the type.
\<close>

theorem GetBlockProof_exact:
  "\<exists>w t neg ovf. GetBlockProof block = Inr w \<and> wf_uint w \<and> SetCompact (nBits block) = (t, neg, ovf) \<and>
    uval w = (if neg \<or> ovf \<or> uval t = 0 then 0 else 2 ^ 256 div (uval t + 1))"
  using GetBlockProof_val [of block]
  by (cases "SetCompact (nBits block)") (simp only: block_work_def Let_def prod.case prod.inject, metis)

section \<open>Adding blocks\<close>

definition wf_totals :: "block_store \<Rightarrow> CBlockIndex \<Rightarrow> bool" where
  "wf_totals S b \<longleftrightarrow> wf_uint (nChainWork b) \<and>
     (case pprev b of
        None \<Rightarrow> nTimeMax b = nTime b \<and> uval (nChainWork b) = block_work (nBits b) mod 2 ^ 256
      | Some q \<Rightarrow> (case S q of None \<Rightarrow> False
          | Some bq \<Rightarrow> nTimeMax b = max (nTimeMax bq) (nTime b) \<and>
              uval (nChainWork b) = (uval (nChainWork bq) + block_work (nBits b)) mod 2 ^ 256))"

definition wf_best :: "block_store \<Rightarrow> blockptr option \<Rightarrow> bool" where
  "wf_best S best \<longleftrightarrow> (case best of
        None \<Rightarrow> \<forall>p b. S p = Some b \<longrightarrow> nStatus b AND BLOCK_CONFLICT_CHAINLOCK \<noteq> 0
      | Some q \<Rightarrow> (case S q of None \<Rightarrow> False
          | Some bq \<Rightarrow> \<forall>p b. S p = Some b \<longrightarrow> nStatus b AND BLOCK_CONFLICT_CHAINLOCK = 0
              \<longrightarrow> uval (nChainWork b) \<le> uval (nChainWork bq)))"

text \<open>
  The invariant of the block manager: a well-formed store with correct running totals, in which
  every entry is found under its hash, and a best header that no entry without a conflict mark
  exceeds in work.
\<close>

definition wf_bm :: "BlockManager \<Rightarrow> bool" where
  "wf_bm bm \<longleftrightarrow> wf_store (blocks bm) \<and>
     (\<forall>p b. blocks bm p = Some b \<longrightarrow> p < next_ptr bm \<and> wf_totals (blocks bm) b) \<and>
     (\<forall>h p. m_block_index bm h = Some p \<longleftrightarrow> (\<exists>b. blocks bm p = Some b \<and> phashBlock b = h)) \<and>
     wf_best (blocks bm) (pindexBestHeader bm)"

lemma prev_iter_extend:
  "S p = None \<Longrightarrow> prev_iter S n q = Some r \<Longrightarrow> prev_iter (S(p \<mapsto> b)) n q = Some r"
proof (induction n arbitrary: q)
  case (Suc n)
  obtain bq q' where q: "S q = Some bq" "pprev bq = Some q'" "prev_iter S n q' = Some r"
    using Suc.prems(2) by (auto simp: bind_eq_Some_conv)
  then have "q \<noteq> p" using Suc.prems(1) by auto
  then show ?case using q Suc.IH [OF Suc.prems(1) q(3)] by simp
qed simp

lemma wf_entry_extend: "S p = None \<Longrightarrow> wf_entry S q bq \<Longrightarrow> wf_entry (S(p \<mapsto> b)) q bq"
  by (auto simp: wf_entry_def prev_iter_extend split: option.splits)

lemma wf_totals_extend: "S p = None \<Longrightarrow> wf_totals S bq \<Longrightarrow> wf_totals (S(p \<mapsto> b)) bq"
  by (auto simp: wf_totals_def split: option.splits)

lemma wf_totals_status [simp]: "wf_totals S (b\<lparr>nStatus := x\<rparr>) \<longleftrightarrow> wf_totals S b"
  by (auto simp: wf_totals_def split: option.splits)

lemma wf_store_extend:
  "wf_store S \<Longrightarrow> S p = None \<Longrightarrow> wf_entry (S(p \<mapsto> b)) p b \<Longrightarrow> wf_store (S(p \<mapsto> b))"
  by (auto simp: wf_store_def intro: wf_entry_extend)

lemma BuildSkip_wf:
  assumes "wf_store S" "S q = Some bq" "pprev b = Some q" "nHeight b = nHeight bq + 1"
  shows "\<exists>s. BuildSkip S b = Some (b\<lparr>pskip := Some s\<rparr>) \<and>
    prev_iter S (nat (nHeight bq - GetSkipHeight (nHeight b))) q = Some s"
proof -
  have "0 \<le> nHeight bq" using wf_height assms(1,2) .
  then have sk: "0 \<le> GetSkipHeight (nHeight b)" "GetSkipHeight (nHeight b) \<le> nHeight bq"
    using GetSkipHeight_bounds [of "nHeight b"] assms(4) by auto
  then obtain s where "prev_iter S (nat (nHeight bq - GetSkipHeight (nHeight b))) q = Some s"
    using prev_iter_height [OF assms(1,2), of "nat (nHeight bq - GetSkipHeight (nHeight b))"] by auto
  then show ?thesis
    using sk assms(2,3) GetAncestor_loop_correct [OF assms(1) sk(1) assms(2) sk(2)]
    by (simp add: BuildSkip_def GetAncestor_def)
qed

lemma BuildSkip_entry:
  assumes "wf_store S" "S q = Some bq" "pprev b = Some q" "nHeight b = nHeight bq + 1" "S p = None"
    and "BuildSkip S b = Some b'" "pprev b'' = pprev b'" "pskip b'' = pskip b'" "nHeight b'' = nHeight b'"
  shows "wf_entry (S(p \<mapsto> b'')) p b''"
proof -
  obtain s where s: "b' = b\<lparr>pskip := Some s\<rparr>"
      "prev_iter S (nat (nHeight bq - GetSkipHeight (nHeight b))) q = Some s"
    using BuildSkip_wf [OF assms(1-4)] assms(6) by auto
  have h: "0 \<le> nHeight bq" using wf_height assms(1,2) .
  then have n: "nat (nHeight b - GetSkipHeight (nHeight b)) = Suc (nat (nHeight bq - GetSkipHeight (nHeight b)))"
    using GetSkipHeight_bounds [of "nHeight b"] assms(4) by linarith
  have "q \<noteq> p" using assms(2,5) by auto
  then show ?thesis
    using s h assms prev_iter_extend [OF assms(5) s(2)] unfolding wf_entry_def
    by (simp add: n [unfolded assms(4)])
qed

lemma link_prev_wf:
  assumes "wf_bm bm" "hash \<noteq> hashPrevBlock block"
    and bm1_def: "bm1 = bm\<lparr>m_block_index := (m_block_index bm)(hash \<mapsto> p)\<rparr>"
  shows "\<exists>b1. link_prev bm1 block (new_CBlockIndex block hash) = Some b1 \<and> nStatus b1 = 0 \<and> phashBlock b1 = hash \<and>
    (pprev b1 = None \<and> nHeight b1 = 0 \<and> pskip b1 = None \<or>
     (\<exists>q bq b0. pprev b1 = Some q \<and> blocks bm q = Some bq \<and> pprev b0 = Some q \<and> nHeight b0 = nHeight bq + 1 \<and>
        BuildSkip (blocks bm) b0 = Some b1))"
proof (cases "m_block_index bm (hashPrevBlock block)")
  case None
  then show ?thesis using assms(2) by (simp add: link_prev_def bm1_def new_CBlockIndex_def)
next
  case (Some q)
  define b0 where "b0 = (new_CBlockIndex block hash)\<lparr>pprev := Some q\<rparr>"
  obtain bq where bq: "blocks bm q = Some bq" using assms(1) Some by (auto simp: wf_bm_def)
  define b0' where "b0' = b0\<lparr>nHeight := nHeight bq + 1\<rparr>"
  have "wf_store (blocks bm)" using assms(1) by (simp add: wf_bm_def)
  then obtain s where s: "BuildSkip (blocks bm) b0' = Some (b0'\<lparr>pskip := Some s\<rparr>)"
    using BuildSkip_wf [of "blocks bm" q bq b0'] bq by (auto simp: b0'_def b0_def)
  have "link_prev bm1 block (new_CBlockIndex block hash) = BuildSkip (blocks bm) b0'"
    using Some bq assms(2) by (simp add: link_prev_def bm1_def b0'_def b0_def)
  then show ?thesis
    using s bq by (auto simp: b0'_def b0_def new_CBlockIndex_def intro!: exI [of _ b0'])
qed

lemma chain_totals_wf:
  assumes "\<forall>q. pprev b = Some q \<longrightarrow> (\<exists>bq. blocks bm q = Some bq \<and> wf_uint (nChainWork bq))"
  shows "\<exists>b'. chain_totals bm b = Some b' \<and> wf_totals (blocks bm) b' \<and>
    (\<exists>t w. b' = b\<lparr>nTimeMax := t, nChainWork := w\<rparr>)"
proof -
  obtain w where w: "GetBlockProof b = Inr w" "wf_uint w" "uval w = block_work (nBits b)"
    using GetBlockProof_val [of b] by blast
  show ?thesis
  proof (cases "pprev b")
    case None
    then show ?thesis using w
      by (auto simp: chain_totals_def wf_totals_def val_uint_add bind_eq_Some_conv)
  next
    case (Some q)
    then obtain bq where "blocks bm q = Some bq" "wf_uint (nChainWork bq)" using assms by auto
    then show ?thesis using w Some
      by (auto simp: chain_totals_def wf_totals_def val_uint_add bind_eq_Some_conv)
  qed
qed

lemma set_status_fresh:
  assumes "nStatus b = 0" "st = BLOCK_VALID_TREE \<or> st = BLOCK_CONFLICT_CHAINLOCK"
  shows "set_status b st = Some (b\<lparr>nStatus := (if st = BLOCK_VALID_TREE then 2 else 130)\<rparr>)"
  using assms by (auto simp: set_status_def RaiseValidity_def BLOCK_VALID_MASK_def BLOCK_FAILED_MASK_def)

lemma best_header_wf:
  assumes "wf_bm bm" "wf_uint (nChainWork b)" "st = BLOCK_VALID_TREE \<or> st = BLOCK_CONFLICT_CHAINLOCK"
    and "blocks bm' = blocks bm" "pindexBestHeader bm' = pindexBestHeader bm" "blocks bm p = None"
    and "nStatus b = (if st = BLOCK_VALID_TREE then 2 else 130)"
  shows "\<exists>best. best_header bm' p b st = Some best \<and>
    wf_best ((blocks bm)(p \<mapsto> b)) best"
proof (cases "pindexBestHeader bm")
  case None
  then show ?thesis using assms by (auto simp: best_header_def wf_bm_def wf_best_def BLOCK_VALID_MASK_def)
next
  case (Some q)
  then obtain bq where bq: "blocks bm q = Some bq"
      "\<forall>r c. blocks bm r = Some c \<longrightarrow> nStatus c AND BLOCK_CONFLICT_CHAINLOCK = 0 \<longrightarrow>
         uval (nChainWork c) \<le> uval (nChainWork bq)"
    using assms(1) by (auto simp: wf_bm_def wf_best_def split: option.splits)
  have wq: "wf_uint (nChainWork bq)" using assms(1) bq(1) by (auto simp: wf_bm_def wf_totals_def)
  have "q \<noteq> p" using bq(1) assms(6) by auto
  then show ?thesis
    using Some bq assms(2-7) CompareTo_val [OF wq assms(2)]
    by (auto simp: best_header_def wf_best_def BLOCK_VALID_MASK_def) (meson less_imp_le order_trans)
qed

lemma wf_bm_insert:
  assumes "wf_bm bm" "m_block_index bm hash = None" "phashBlock b = hash" "p = next_ptr bm"
    and "wf_entry ((blocks bm)(p \<mapsto> b)) p b" "wf_totals (blocks bm) b"
    and "wf_best ((blocks bm)(p \<mapsto> b)) best"
    and "blocks bm' = (blocks bm)(p \<mapsto> b)" "next_ptr bm' = p + 1" "pindexBestHeader bm' = best"
      "m_block_index bm' = (m_block_index bm)(hash \<mapsto> p)"
  shows "wf_bm bm'"
proof -
  have fresh: "blocks bm p = None"
    using assms(1,4) by (cases "blocks bm p") (auto simp: wf_bm_def)
  have "wf_store (blocks bm')"
    using assms(1,5,8) fresh by (auto simp: wf_bm_def intro: wf_store_extend)
  moreover have "\<forall>r c. blocks bm' r = Some c \<longrightarrow> r < next_ptr bm' \<and> wf_totals (blocks bm') c"
    using assms(1,4,6,8,9) fresh wf_totals_extend [of "blocks bm" p, OF fresh] by (auto simp: wf_bm_def less_Suc_eq)
  moreover have "m_block_index bm' h = Some r \<longleftrightarrow> (\<exists>c. blocks bm' r = Some c \<and> phashBlock c = h)" for h r
  proof -
    have old: "m_block_index bm h = Some r \<longleftrightarrow> (\<exists>c. blocks bm r = Some c \<and> phashBlock c = h)"
      using assms(1) by (simp add: wf_bm_def)
    moreover have "\<not> (\<exists>c. blocks bm r = Some c \<and> phashBlock c = hash)"
      using assms(1,2) unfolding wf_bm_def by (metis option.distinct(1))
    ultimately show ?thesis using fresh assms(3,8,11) by auto
  qed
  ultimately show ?thesis unfolding wf_bm_def using assms(7,8,10) by simp
qed

text \<open>The entry that \<open>AddToBlockIndex\<close> constructs, before it is stored.\<close>

lemma new_entry_wf:
  assumes "wf_bm bm" "st = BLOCK_VALID_TREE \<or> st = BLOCK_CONFLICT_CHAINLOCK" "hash \<noteq> hashPrevBlock block"
    and "blocks bm p = None" and bm1_def: "bm1 = bm\<lparr>m_block_index := (m_block_index bm)(hash \<mapsto> p)\<rparr>"
  obtains b1 b2 b3 where "link_prev bm1 block (new_CBlockIndex block hash) = Some b1"
    "chain_totals bm1 b1 = Some b2" "set_status b2 st = Some b3" "phashBlock b3 = hash"
    "nStatus b3 = (if st = BLOCK_VALID_TREE then 2 else 130)" "wf_totals (blocks bm) b3"
    "wf_entry ((blocks bm)(p \<mapsto> b3)) p b3" "\<forall>q. pprev b3 = Some q \<longrightarrow> (\<exists>bq. blocks bm q = Some bq)"
proof -
  have wfS: "wf_store (blocks bm)" using assms(1) by (simp add: wf_bm_def)
  obtain b1 where b1: "link_prev bm1 block (new_CBlockIndex block hash) = Some b1" "nStatus b1 = 0" "phashBlock b1 = hash"
    and link: "pprev b1 = None \<and> nHeight b1 = 0 \<and> pskip b1 = None \<or>
     (\<exists>q bq b0. pprev b1 = Some q \<and> blocks bm q = Some bq \<and> pprev b0 = Some q \<and> nHeight b0 = nHeight bq + 1 \<and>
        BuildSkip (blocks bm) b0 = Some b1)"
    using link_prev_wf [OF assms(1,3) bm1_def] by blast
  have prev: "\<forall>q. pprev b1 = Some q \<longrightarrow> (\<exists>bq. blocks bm q = Some bq \<and> wf_uint (nChainWork bq))"
    using link assms(1) by (auto simp: wf_bm_def wf_totals_def)
  then obtain b2 t w where b2: "chain_totals bm1 b1 = Some b2" "wf_totals (blocks bm) b2"
      "b2 = b1\<lparr>nTimeMax := t, nChainWork := w\<rparr>"
    using chain_totals_wf [of b1 bm1] by (auto simp: bm1_def)
  define b3 where "b3 = b2\<lparr>nStatus := (if st = BLOCK_VALID_TREE then 2 else 130)\<rparr>"
  have b3: "set_status b2 st = Some b3"
    using set_status_fresh [OF _ assms(2)] b1(2) b2(3) by (simp add: b3_def)
  have tot: "wf_totals (blocks bm) b3" using b2(2) by (simp add: b3_def)
  have f: "pprev b3 = pprev b1" "pskip b3 = pskip b1" "nHeight b3 = nHeight b1" by (simp_all add: b3_def b2(3))
  have ent: "wf_entry ((blocks bm)(p \<mapsto> b3)) p b3"
    using link
  proof (elim disjE exE conjE)
    fix q bq b0
    assume "blocks bm q = Some bq" "pprev b0 = Some q" "nHeight b0 = nHeight bq + 1" "BuildSkip (blocks bm) b0 = Some b1"
    then show ?thesis using BuildSkip_entry [OF wfS _ _ _ assms(4)] f by blast
  qed (simp add: wf_entry_def f)
  show thesis
    by (rule that [OF b1(1) b2(1) b3 _ _ tot ent]) (use b1 prev in \<open>auto simp: b3_def b2(3)\<close>)
qed

text \<open>
  C4. Adding a header to a well-formed block manager, with either of the two status values the
  callers pass, always returns, and keeps the invariant: heights and skip pointers are right, the
  time maximum and the accumulated work follow from the parent, every entry is found under its
  hash, and the best header still has the most work. The header is then found under its hash, and
  no entry that was there before changes.
\<close>

theorem AddToBlockIndex_wf:
  assumes "wf_bm bm" "st = BLOCK_VALID_TREE \<or> st = BLOCK_CONFLICT_CHAINLOCK" "hash \<noteq> hashPrevBlock block"
  shows "\<exists>p bm'. AddToBlockIndex bm block hash st = Some (p, bm') \<and> wf_bm bm' \<and>
    m_block_index bm' hash = Some p \<and> (\<forall>q b. blocks bm q = Some b \<longrightarrow> blocks bm' q = Some b)"
proof (cases "m_block_index bm hash")
  case (Some p)
  then show ?thesis using assms by (auto simp: AddToBlockIndex_def BLOCK_FAILED_MASK_def)
next
  case None
  define p where "p = next_ptr bm"
  define bm1 where "bm1 = bm\<lparr>m_block_index := (m_block_index bm)(hash \<mapsto> p)\<rparr>"
  have fresh: "blocks bm p = None" using assms(1) by (cases "blocks bm p") (auto simp: wf_bm_def p_def)
  obtain b1 b2 b3 where b: "link_prev bm1 block (new_CBlockIndex block hash) = Some b1"
    "chain_totals bm1 b1 = Some b2" "set_status b2 st = Some b3" "phashBlock b3 = hash"
    and st: "nStatus b3 = (if st = BLOCK_VALID_TREE then 2 else 130)" and tot: "wf_totals (blocks bm) b3"
    and ent: "wf_entry ((blocks bm)(p \<mapsto> b3)) p b3"
    and prev: "\<forall>q. pprev b3 = Some q \<longrightarrow> (\<exists>bq. blocks bm q = Some bq)"
    using new_entry_wf [OF assms fresh bm1_def] .
  have "wf_uint (nChainWork b3)" using tot by (simp add: wf_totals_def)
  note best_header_wf [OF assms(1) this assms(2) _ _ fresh st, of bm1]
  then obtain best where best: "best_header bm1 p b3 st = Some best"
    and best_wf: "wf_best ((blocks bm)(p \<mapsto> b3)) best"
    by (auto simp: bm1_def)
  obtain ch where ch: "(case pprev b3 of None \<Rightarrow> Some (m_prev_block_index bm)
      | Some q \<Rightarrow> map_option (\<lambda>bq. (phashBlock bq, p) # m_prev_block_index bm) (blocks bm q)) = Some ch"
    using prev by (cases "pprev b3") auto
  define bm' where "bm' = bm1\<lparr>blocks := (blocks bm)(p \<mapsto> b3), next_ptr := p + 1, m_prev_block_index := ch,
      pindexBestHeader := best, setDirtyBlockIndex := insert p (setDirtyBlockIndex bm)\<rparr>"
  have "st AND BLOCK_FAILED_MASK = 0" using assms(2) by (auto simp: BLOCK_FAILED_MASK_def)
  then have "AddToBlockIndex bm block hash st = Some (p, bm')"
    using None b best ch by (simp add: AddToBlockIndex_def Let_def bm'_def flip: p_def bm1_def)
  moreover have "wf_bm bm'"
    using wf_bm_insert [OF assms(1) None b(4) p_def ent tot best_wf, of bm'] by (simp add: bm'_def bm1_def)
  ultimately show ?thesis using fresh by (auto simp: bm'_def bm1_def)
qed

definition empty_bm :: BlockManager where
  "empty_bm = \<lparr>blocks = Map.empty, next_ptr = 0, m_block_index = Map.empty, m_prev_block_index = [],
     pindexBestHeader = None, setDirtyBlockIndex = {}\<rparr>"

lemma wf_empty_bm: "wf_bm empty_bm"
  by (simp add: wf_bm_def wf_best_def wf_store_def empty_bm_def)

theorem AddToBlockIndex_wf_witness:
  "\<exists>p bm'. AddToBlockIndex empty_bm \<lparr>hdr_nVersion = 1, hashPrevBlock = replicate 32 0, hdr_hashMerkleRoot = replicate 32 7,
      hdr_nTime = 1700000000, hdr_nBits = 0x1e0fffff, hdr_nNonce = 5\<rparr> (replicate 32 1) BLOCK_VALID_TREE = Some (p, bm') \<and>
    wf_bm bm' \<and> m_block_index bm' (replicate 32 1) = Some p"
  using AddToBlockIndex_wf [OF wf_empty_bm, of BLOCK_VALID_TREE "replicate 32 1"
      "\<lparr>hdr_nVersion = 1, hashPrevBlock = replicate 32 0, hdr_hashMerkleRoot = replicate 32 7,
      hdr_nTime = 1700000000, hdr_nBits = 0x1e0fffff, hdr_nNonce = 5\<rparr>"] by auto

end
