(* ===== verification/Chain.thy ===== *)
theory Chain
  imports Block_Index
begin

text \<open>
  Model of \<^verbatim>\<open>CChain\<close> (\<^verbatim>\<open>src/src/chain.h\<close>, \<^verbatim>\<open>src/src/chain.cpp\<close>), the active chain as a vector indexed
  by height, and of \<^verbatim>\<open>LastCommonAncestor\<close>. The vector is a list of pointers, in which \<^verbatim>\<open>resize\<close> may leave
  null pointers for a moment. The lemmas relate every operation to the tree of \<^verbatim>\<open>pprev\<close> pointers: \<^verbatim>\<open>SetTip\<close>
  with its early stop builds exactly the branch of its argument, \<^verbatim>\<open>FindFork\<close> and
  \<^verbatim>\<open>LastCommonAncestor\<close> find the highest common block, \<^verbatim>\<open>FindEarliestAtLeast\<close> finds the first match.
\<close>

section \<open>The model\<close>

type_synonym chain_vec = "blockptr option list"

definition chain_Genesis :: "chain_vec \<Rightarrow> blockptr option" where
  "chain_Genesis vChain = (if length vChain > 0 then vChain ! 0 else None)"

definition chain_Tip :: "chain_vec \<Rightarrow> blockptr option" where
  "chain_Tip vChain = (if length vChain > 0 then vChain ! (length vChain - 1) else None)"

definition chain_at :: "chain_vec \<Rightarrow> int \<Rightarrow> blockptr option" where
  "chain_at vChain height = (if height < 0 \<or> height \<ge> int (length vChain) then None else vChain ! nat height)"

definition chain_Contains :: "block_store \<Rightarrow> chain_vec \<Rightarrow> blockptr \<Rightarrow> bool option" where
  "chain_Contains S vChain p = do { b \<leftarrow> S p; Some (chain_at vChain (nHeight b) = Some p) }"

definition chain_Next :: "block_store \<Rightarrow> chain_vec \<Rightarrow> blockptr \<Rightarrow> blockptr option option" where
  "chain_Next S vChain p = do {
     b \<leftarrow> S p;
     c \<leftarrow> chain_Contains S vChain p;
     Some (if c then chain_at vChain (nHeight b + 1) else None)
   }"

definition chain_Height :: "chain_vec \<Rightarrow> int" where
  "chain_Height vChain = int (length vChain) - 1"

definition vec_resize :: "nat \<Rightarrow> chain_vec \<Rightarrow> chain_vec" where
  "vec_resize n xs = take n xs @ replicate (n - length xs) None"

partial_function (option) SetTip_loop :: "block_store \<Rightarrow> chain_vec \<Rightarrow> blockptr option \<Rightarrow> chain_vec option" where
  "SetTip_loop S vChain pindex =
    (if pindex = None then Some vChain
     else do {
       p \<leftarrow> pindex;
       b \<leftarrow> S p;
       if nHeight b < 0 \<or> nHeight b \<ge> int (length vChain) then None
       else if vChain ! nat (nHeight b) \<noteq> Some p
       then SetTip_loop S (vChain[nat (nHeight b) := Some p]) (pprev b)
       else Some vChain
     })"

definition SetTip :: "block_store \<Rightarrow> chain_vec \<Rightarrow> blockptr option \<Rightarrow> chain_vec option" where
  "SetTip S vChain pindex = (case pindex of
     None \<Rightarrow> Some []
   | Some p \<Rightarrow> do { b \<leftarrow> S p; SetTip_loop S (vec_resize (nat (nHeight b + 1)) vChain) (Some p) })"

partial_function (option) GetLocator_loop ::
    "block_store \<Rightarrow> chain_vec \<Rightarrow> int \<Rightarrow> uint256 list \<Rightarrow> blockptr option \<Rightarrow> uint256 list option" where
  "GetLocator_loop S vChain nStep vHave pindex =
    (if pindex = None then Some vHave
     else do {
       p \<leftarrow> pindex;
       b \<leftarrow> S p;
       let vHave = vHave @ [phashBlock b];
       if nHeight b = 0 then Some vHave
       else do {
         let height = max (nHeight b - nStep) 0;
         c \<leftarrow> chain_Contains S vChain p;
         q \<leftarrow> (if c then Some (chain_at vChain height) else GetAncestor S p height);
         GetLocator_loop S vChain (if length vHave > 10 then nStep * 2 else nStep) vHave q
       }
     })"

definition GetLocator :: "block_store \<Rightarrow> chain_vec \<Rightarrow> blockptr option \<Rightarrow> uint256 list option" where
  "GetLocator S vChain pindex =
    GetLocator_loop S vChain 1 [] (if pindex = None then chain_Tip vChain else pindex)"

partial_function (option) FindFork_loop :: "block_store \<Rightarrow> chain_vec \<Rightarrow> blockptr option \<Rightarrow> blockptr option option" where
  "FindFork_loop S vChain pindex =
    (if pindex = None then Some None
     else do {
       p \<leftarrow> pindex;
       c \<leftarrow> chain_Contains S vChain p;
       if c then Some (Some p)
       else do { b \<leftarrow> S p; FindFork_loop S vChain (pprev b) }
     })"

definition FindFork :: "block_store \<Rightarrow> chain_vec \<Rightarrow> blockptr option \<Rightarrow> blockptr option option" where
  "FindFork S vChain pindex = (case pindex of
     None \<Rightarrow> Some None
   | Some p \<Rightarrow> do {
       b \<leftarrow> S p;
       q \<leftarrow> (if nHeight b > chain_Height vChain then GetAncestor S p (chain_Height vChain) else Some (Some p));
       FindFork_loop S vChain q
     })"

text \<open>The binary search of \<^verbatim>\<open>std::lower_bound\<close>: the first position whose element is not \<open>below\<close>.\<close>

function lower_bound :: "('a \<Rightarrow> bool) \<Rightarrow> 'a list \<Rightarrow> nat \<Rightarrow> nat \<Rightarrow> nat" where
  "lower_bound below xs first count =
    (if count = 0 then first
     else let step = count div 2; it = first + step
          in if below (xs ! it) then lower_bound below xs (it + 1) (count - (step + 1))
             else lower_bound below xs first step)"
  by pat_completeness auto
termination by (relation "measure (\<lambda>(_, _, _, count). count)") auto

declare lower_bound.simps [simp del]

definition FindEarliestAtLeast :: "block_store \<Rightarrow> chain_vec \<Rightarrow> int \<Rightarrow> int \<Rightarrow> blockptr option option" where
  "FindEarliestAtLeast S vChain t height =
    (if \<exists>x \<in> set vChain. Option.bind x S = None then None
     else let below = (\<lambda>x. let b = the (Option.bind x S) in GetBlockTimeMax b < t \<or> nHeight b < height);
              i = lower_bound below vChain 0 (length vChain)
          in Some (if i = length vChain then None else vChain ! i))"

partial_function (option) meet_loop :: "block_store \<Rightarrow> blockptr option \<Rightarrow> blockptr option \<Rightarrow> (blockptr option \<times> blockptr option) option" where
  "meet_loop S pa pb =
    (if pa \<noteq> pb \<and> pa \<noteq> None \<and> pb \<noteq> None then do {
       a \<leftarrow> Option.bind pa S;
       b \<leftarrow> Option.bind pb S;
       meet_loop S (pprev a) (pprev b)
     } else Some (pa, pb))"

definition LastCommonAncestor :: "block_store \<Rightarrow> blockptr \<Rightarrow> blockptr \<Rightarrow> blockptr option option" where
  "LastCommonAncestor S pa pb = do {
     a \<leftarrow> S pa;
     b \<leftarrow> S pb;
     qa \<leftarrow> (if nHeight a > nHeight b then GetAncestor S pa (nHeight b) else Some (Some pa));
     qb \<leftarrow> (if nHeight b > nHeight a then GetAncestor S pb (nHeight a) else Some (Some pb));
     (ra, rb) \<leftarrow> meet_loop S qa qb;
     if ra = rb then Some ra else None
   }"

section \<open>Branches of the block tree\<close>

definition block_height :: "block_store \<Rightarrow> blockptr \<Rightarrow> nat" where
  "block_height S p = (case S p of None \<Rightarrow> 0 | Some b \<Rightarrow> nat (nHeight b))"

text \<open>The branch that ends in a block, indexed by height.\<close>

definition branch :: "block_store \<Rightarrow> blockptr \<Rightarrow> chain_vec" where
  "branch S p = map (\<lambda>i. prev_iter S (block_height S p - i) p) [0..<Suc (block_height S p)]"

definition chain_ok :: "block_store \<Rightarrow> chain_vec \<Rightarrow> bool" where
  "chain_ok S v \<longleftrightarrow> v = [] \<or> (\<exists>t. S t \<noteq> None \<and> v = branch S t)"

lemma length_branch [simp]: "length (branch S p) = Suc (block_height S p)"
  by (simp add: branch_def)

lemma nth_branch [simp]: "i \<le> block_height S p \<Longrightarrow> branch S p ! i = prev_iter S (block_height S p - i) p"
  by (simp add: branch_def del: upt_Suc)

lemma block_height_eq: "wf_store S \<Longrightarrow> S p = Some b \<Longrightarrow> nHeight b = int (block_height S p)"
  using wf_height by (simp add: block_height_def)

lemma prev_iter_block:
  assumes "wf_store S" "S p = Some b" "n \<le> block_height S p"
  obtains q bq where "prev_iter S n p = Some q" "S q = Some bq" "block_height S q = block_height S p - n"
proof -
  have "int n \<le> nHeight b" using assms block_height_eq [OF assms(1,2)] by simp
  then obtain q bq where q: "prev_iter S n p = Some q" "S q = Some bq" "nHeight bq = nHeight b - int n"
    using prev_iter_height [OF assms(1,2)] by blast
  then have "int (block_height S q) = int (block_height S p) - int n"
    using block_height_eq [OF assms(1)] assms(2) by metis
  then show thesis using that q by force
qed

lemma root_no_prev:
  assumes "wf_store S" "S q = Some bq" "block_height S q = 0"
  shows "pprev bq = None"
proof (rule ccontr)
  assume "pprev bq \<noteq> None"
  then obtain r where "pprev bq = Some r" by auto
  then obtain br where br: "S r = Some br" "nHeight br = nHeight bq - 1"
    using wf_prev_height [OF assms(1,2)] by blast
  moreover have "nHeight bq = 0" using block_height_eq [OF assms(1,2)] assms(3) by simp
  ultimately show False using wf_height [OF assms(1) br(1)] by simp
qed

lemma prev_block:
  assumes "wf_store S" "S q = Some bq" "block_height S q = Suc k"
  obtains r br where "pprev bq = Some r" "S r = Some br" "block_height S r = k"
proof -
  have h: "nHeight bq = int (Suc k)" using block_height_eq [OF assms(1,2)] assms(3) by simp
  then obtain r br where r: "pprev bq = Some r" "S r = Some br" "nHeight br = nHeight bq - 1"
    using wf_prev [OF assms(1,2)] by auto
  then have "block_height S r = k" using block_height_eq [OF assms(1) r(2)] h by simp
  with r show thesis using that by blast
qed

lemma prev_iter_beyond:
  assumes "wf_store S" "S p = Some b" "block_height S p < n"
  shows "prev_iter S n p = None"
proof -
  obtain q bq where q: "prev_iter S (block_height S p) p = Some q" "S q = Some bq"
      "block_height S q = block_height S p - block_height S p"
    using prev_iter_block [OF assms(1,2) le_refl] .
  have "pprev bq = None" using root_no_prev [OF assms(1) q(2)] q(3) by simp
  then have "prev_iter S (Suc m) q = None" for m using q(2) by simp
  moreover obtain m where "n = block_height S p + Suc m" using assms(3) less_imp_Suc_add by auto
  ultimately show ?thesis using q(1) by (simp only: prev_iter_add) simp
qed

lemma branch_Some:
  assumes "wf_store S" "S t \<noteq> None" "i \<le> block_height S t"
  obtains q bq where "branch S t ! i = Some q" "S q = Some bq" "block_height S q = i"
    "\<And>j. j \<le> i \<Longrightarrow> branch S t ! j = prev_iter S (i - j) q"
proof -
  obtain bt where t: "S t = Some bt" using assms(2) by auto
  obtain q bq where q: "prev_iter S (block_height S t - i) t = Some q" "S q = Some bq"
      "block_height S q = block_height S t - (block_height S t - i)"
    using prev_iter_block [OF assms(1) t, of "block_height S t - i"] by auto
  have "branch S t ! j = prev_iter S (i - j) q" if "j \<le> i" for j
  proof -
    have "block_height S t - j = (block_height S t - i) + (i - j)" using that assms(3) by simp
    then have "prev_iter S (block_height S t - j) t = prev_iter S (i - j) q"
      using q(1) by (simp only: prev_iter_add) simp
    then show ?thesis using that assms(3) by simp
  qed
  then show thesis using q assms(3) by (intro that [of q bq]) simp_all
qed

section \<open>Setting the tip\<close>

text \<open>
  The vector below a height is consistent with the tree: the branch of every pointer in it
  continues below it.
\<close>

definition consistent :: "block_store \<Rightarrow> chain_vec \<Rightarrow> nat \<Rightarrow> bool" where
  "consistent S v k \<longleftrightarrow> (\<forall>i < k. \<forall>r. v ! i = Some r \<longrightarrow>
     (\<forall>j \<le> i. v ! j = prev_iter S (i - j) r))"

lemma consistent_branch:
  assumes "wf_store S" "S t \<noteq> None"
  shows "consistent S (branch S t) (length (branch S t))"
  unfolding consistent_def
proof (intro allI impI)
  fix i r j
  assume i: "i < length (branch S t)" "branch S t ! i = Some r" "j \<le> i"
  then obtain q where "branch S t ! i = Some q" "\<And>j. j \<le> i \<Longrightarrow> branch S t ! j = prev_iter S (i - j) q"
    using branch_Some [OF assms, of i] by (auto simp: less_Suc_eq_le)
  with i show "branch S t ! j = prev_iter S (i - j) r" by simp
qed

lemma consistent_resize:
  assumes "consistent S v (length v)"
  shows "consistent S (vec_resize n v) n"
  using assms by (auto simp: consistent_def vec_resize_def nth_append split: if_splits)

lemma consistent_update: "consistent S v (Suc k) \<Longrightarrow> consistent S (v[k := x]) k"
  by (auto simp: consistent_def)

lemma SetTip_loop_None [simp]: "SetTip_loop S v None = Some v"
  by (subst SetTip_loop.simps) simp

lemma SetTip_loop_Some:
  assumes "wf_store S" "S p = Some b" "block_height S p < length v"
  shows "SetTip_loop S v (Some p) =
    (if v ! block_height S p = Some p then Some v
     else SetTip_loop S (v[block_height S p := Some p]) (pprev b))"
  using assms block_height_eq [OF assms(1,2)] by (subst SetTip_loop.simps) simp

lemma SetTip_loop_branch:
  assumes "wf_store S" "S q = Some bq" "block_height S q < length w" "consistent S w (Suc (block_height S q))"
  shows "\<exists>w'. SetTip_loop S w (Some q) = Some w' \<and> length w' = length w \<and>
    (\<forall>i \<le> block_height S q. w' ! i = prev_iter S (block_height S q - i) q) \<and>
    (\<forall>i. block_height S q < i \<longrightarrow> w' ! i = w ! i)"
  using assms(2-4)
proof (induction "block_height S q" arbitrary: q bq w)
  case 0
  have "pprev bq = None" using root_no_prev [OF assms(1) 0(2)] 0(1) by simp
  then show ?case using 0 SetTip_loop_Some [OF assms(1) 0(2,3)] by auto
next
  case (Suc k)
  note step = SetTip_loop_Some [OF assms(1) Suc.prems(1,2), folded Suc.hyps(2)]
  obtain r br where r: "pprev bq = Some r" "S r = Some br" "block_height S r = k"
    using prev_block [OF assms(1) Suc.prems(1) Suc.hyps(2) [symmetric]] .
  show ?case
  proof (cases "w ! Suc k = Some q")
    case True
    then have "\<forall>j \<le> Suc k. w ! j = prev_iter S (Suc k - j) q"
      using Suc.prems(3) Suc(2) by (simp add: consistent_def)
    then show ?thesis using True step Suc.hyps(2) by auto
  next
    case False
    let ?w = "w[Suc k := Some q]"
    have "consistent S ?w (Suc k)" using Suc.prems(3) Suc(2) by (simp add: consistent_update)
    then obtain w' where w': "SetTip_loop S ?w (Some r) = Some w'" "length w' = length w"
        "\<forall>i \<le> k. w' ! i = prev_iter S (k - i) r" "\<forall>i. k < i \<longrightarrow> w' ! i = ?w ! i"
      using Suc.hyps(1) [of r br ?w] r Suc.prems(2) Suc.hyps(2) by auto
    have "SetTip_loop S w (Some q) = Some w'" using False step r(1) w'(1) by simp
    moreover have "w' ! i = prev_iter S (Suc k - i) q" if "i \<le> Suc k" for i
    proof (cases "i = Suc k")
      case True
      then show ?thesis using w'(4) Suc.prems(2) Suc.hyps(2) [symmetric] by simp
    next
      case False
      then have "w' ! i = prev_iter S (k - i) r" "Suc k - i = Suc (k - i)" using that w'(3) by auto
      then show ?thesis using Suc.prems(1) r(1) by (simp only: prev_iter.simps) simp
    qed
    ultimately show ?thesis using w' Suc.hyps(2) by auto
  qed
qed

lemma length_vec_resize [simp]: "length (vec_resize n v) = n"
  by (simp add: vec_resize_def)

lemma chain_ok_consistent: "wf_store S \<Longrightarrow> chain_ok S v \<Longrightarrow> consistent S v (length v)"
  using consistent_branch by (auto simp: chain_ok_def consistent_def)

text \<open>
  C5. Setting the tip of a chain that is a branch of the block tree (or empty) returns the whole
  branch of the new tip, entry by entry, although the loop stops at the first entry that is already in
  place; setting a null tip empties the chain.
\<close>

theorem SetTip_branch:
  assumes "wf_store S" "chain_ok S v" "S p = Some b"
  shows "SetTip S v (Some p) = Some (branch S p) \<and> chain_ok S (branch S p) \<and> SetTip S v None = Some []"
proof -
  let ?k = "block_height S p"
  have k: "nat (nHeight b + 1) = Suc ?k" using block_height_eq [OF assms(1,3)] by simp
  have "consistent S (vec_resize (Suc ?k) v) (Suc ?k)"
    using consistent_resize [OF chain_ok_consistent [OF assms(1,2)]] .
  then obtain w where w: "SetTip_loop S (vec_resize (Suc ?k) v) (Some p) = Some w" "length w = Suc ?k"
      "\<forall>i \<le> ?k. w ! i = prev_iter S (?k - i) p"
    using SetTip_loop_branch [OF assms(1,3), of "vec_resize (Suc ?k) v"] by auto
  have "w = branch S p" by (rule nth_equalityI) (use w(2,3) in \<open>simp_all add: less_Suc_eq_le\<close>)
  with w(1) k show ?thesis using assms(3) by (auto simp: SetTip_def chain_ok_def)
qed

lemma demo_branch: "branch demo_store 2 = [Some 0, Some 1, Some 2]" "branch demo_store 0 = [Some 0]"
proof -
  have h: "block_height demo_store 0 = 0" "block_height demo_store 2 = 2"
    by (simp_all add: block_height_def demo_store_def) (simp_all add: demo_block_def)
  have "prev_iter demo_store (2 - 1) 2 = Some 1" "prev_iter demo_store (2 - 0) 2 = Some 0"
    by (simp_all add: numeral_2_eq_2) (simp_all add: demo_store_def demo_block_def)
  moreover have "[0..<Suc 2] = [0, 1, 2]" by (simp add: upt_rec)
  ultimately show "branch demo_store 2 = [Some 0, Some 1, Some 2]" by (simp only: branch_def h list.map) simp
  show "branch demo_store 0 = [Some 0]" by (simp add: branch_def h)
qed

lemma demo_entry: "demo_store 2 = Some (demo_block (Some 1) (Some 0) 2)" "demo_store 0 = Some (demo_block None None 0)"
  by (simp_all add: demo_store_def)

lemma demo_chain_ok: "chain_ok demo_store [Some 0, Some 1, Some 2]" "chain_ok demo_store [Some 0]"
  unfolding chain_ok_def using demo_branch demo_entry by (metis option.distinct(1))+

theorem SetTip_branch_witness: "SetTip demo_store [Some 0] (Some 2) = Some [Some 0, Some 1, Some 2]"
  using SetTip_branch [OF wf_demo_store demo_chain_ok(2) demo_entry(1)] by (simp add: demo_branch)

section \<open>Fork points\<close>

lemma chain_Contains_iff:
  assumes "wf_store S" "chain_ok S v" "S p = Some b"
  shows "chain_Contains S v p = Some (Some p \<in> set v)"
proof -
  have h: "nHeight b = int (block_height S p)" by (rule block_height_eq [OF assms(1,3)])
  have "chain_at v (nHeight b) = Some p \<longleftrightarrow> Some p \<in> set v"
  proof
    assume "Some p \<in> set v"
    then obtain i where i: "i < length v" "v ! i = Some p" by (auto simp: in_set_conv_nth)
    then obtain t where t: "S t \<noteq> None" "v = branch S t" using assms(2) by (auto simp: chain_ok_def)
    then have "i \<le> block_height S t" using i(1) by simp
    then obtain q where "v ! i = Some q" "block_height S q = i"
      using branch_Some [OF assms(1) t(1)] unfolding t(2) by metis
    with i have "block_height S p = i" by simp
    with i h show "chain_at v (nHeight b) = Some p" by (simp add: chain_at_def)
  next
    assume "chain_at v (nHeight b) = Some p"
    then show "Some p \<in> set v"
      using h by (auto simp: chain_at_def in_set_conv_nth intro!: exI [of _ "block_height S p"] split: if_splits)
  qed
  then show ?thesis using assms(3) by (simp add: chain_Contains_def)
qed

lemma chain_above_height:
  assumes "wf_store S" "chain_ok S v" "S p = Some b" "length v \<le> block_height S p"
  shows "Some p \<notin> set v"
  using chain_Contains_iff [OF assms(1-3)] block_height_eq [OF assms(1,3)] assms(3,4)
  by (auto simp: chain_Contains_def chain_at_def)

lemma FindFork_loop_None [simp]: "FindFork_loop S v None = Some None"
  by (subst FindFork_loop.simps) simp

lemma FindFork_loop_Some:
  assumes "wf_store S" "chain_ok S v" "S p = Some b"
  shows "FindFork_loop S v (Some p) = (if Some p \<in> set v then Some (Some p) else FindFork_loop S v (pprev b))"
  using assms chain_Contains_iff [OF assms] by (subst FindFork_loop.simps) simp

text \<open>The first block of a branch, walking down, that lies on the chain.\<close>

definition first_on_chain :: "block_store \<Rightarrow> chain_vec \<Rightarrow> blockptr \<Rightarrow> blockptr option \<Rightarrow> bool" where
  "first_on_chain S v p r \<longleftrightarrow> (case r of
     None \<Rightarrow> \<forall>n q. prev_iter S n p = Some q \<longrightarrow> Some q \<notin> set v
   | Some f \<Rightarrow> \<exists>n. prev_iter S n p = Some f \<and> Some f \<in> set v \<and>
       (\<forall>m < n. \<forall>q. prev_iter S m p = Some q \<longrightarrow> Some q \<notin> set v))"

lemma first_on_chain_step:
  assumes "S p = Some b" "pprev b = Some q" "Some p \<notin> set v" "first_on_chain S v q r"
  shows "first_on_chain S v p r"
proof (cases r)
  case None
  show ?thesis unfolding first_on_chain_def None option.case
  proof (intro allI impI)
    fix n x assume "prev_iter S n p = Some x"
    then show "Some x \<notin> set v"
      using assms None by (cases n) (auto simp: first_on_chain_def)
  qed
next
  case (Some f)
  then obtain n where n: "prev_iter S n q = Some f" "Some f \<in> set v"
      "\<forall>m < n. \<forall>x. prev_iter S m q = Some x \<longrightarrow> Some x \<notin> set v"
    using assms(4) by (auto simp: first_on_chain_def)
  have "prev_iter S (Suc n) p = Some f" using n(1) assms(1,2) by simp
  moreover have "Some x \<notin> set v" if "m < Suc n" "prev_iter S m p = Some x" for m x
    using that assms(1-3) n(3) by (cases m) auto
  ultimately show ?thesis using n(2) Some by (auto simp: first_on_chain_def intro!: exI [of _ "Suc n"])
qed

lemma first_on_chain_iter:
  assumes "prev_iter S n p = Some q" "\<And>m x. m < n \<Longrightarrow> prev_iter S m p = Some x \<Longrightarrow> Some x \<notin> set v"
    and "first_on_chain S v q r"
  shows "first_on_chain S v p r"
  using assms(1,2)
proof (induction n arbitrary: p)
  case 0
  then show ?case using assms(3) by simp
next
  case (Suc n)
  obtain b p' where p': "S p = Some b" "pprev b = Some p'" "prev_iter S n p' = Some q"
    using Suc.prems(1) by (auto simp: bind_eq_Some_conv)
  have "Some x \<notin> set v" if "m < n" "prev_iter S m p' = Some x" for m x
    using Suc.prems(2) [of "Suc m" x] that p' by simp
  then have "first_on_chain S v p' r" using Suc.IH p'(3) by blast
  moreover have "Some p \<notin> set v" using Suc.prems(2) [of 0 p] by simp
  ultimately show ?case using first_on_chain_step p' by blast
qed

lemma FindFork_loop_first:
  assumes "wf_store S" "chain_ok S v" "S p = Some b"
  shows "\<exists>r. FindFork_loop S v (Some p) = Some r \<and> first_on_chain S v p r"
  using assms(3)
proof (induction "block_height S p" arbitrary: p b)
  case 0
  then have "pprev b = None" using root_no_prev [OF assms(1)] by simp
  moreover from this have "prev_iter S n p = Some q \<Longrightarrow> q = p" for n q using 0(2) by (cases n) auto
  ultimately show ?case
    using FindFork_loop_Some [OF assms(1,2) 0(2)]
    by (cases "Some p \<in> set v") (auto simp: first_on_chain_def intro!: exI [of _ 0])
next
  case (Suc k)
  obtain q bq where q: "pprev b = Some q" "S q = Some bq" "block_height S q = k"
    using prev_block [OF assms(1) Suc(3) Suc(2) [symmetric]] .
  show ?case
  proof (cases "Some p \<in> set v")
    case True
    then show ?thesis using FindFork_loop_Some [OF assms(1,2) Suc(3)]
      by (auto simp: first_on_chain_def intro!: exI [of _ 0])
  next
    case False
    then show ?thesis
      using FindFork_loop_Some [OF assms(1,2) Suc(3)] Suc(1) [OF q(3) [symmetric] q(2)]
        first_on_chain_step [of S p b q v, OF Suc(3) q(1) False] q(1) False by auto
  qed
qed

text \<open>
  \<^verbatim>\<open>FindFork\<close> returns, for a block of a well-formed index, the highest block of its branch that lies
  on the active chain, and the null pointer only if the branch and the chain share no block.
\<close>

theorem FindFork_highest_common:
  assumes "wf_store S" "chain_ok S v" "S p = Some b"
  shows "\<exists>r. FindFork S v (Some p) = Some r \<and> first_on_chain S v p r"
proof (cases "nHeight b > chain_Height v \<and> v \<noteq> []")
  case True
  let ?h = "length v - 1" and ?n = "block_height S p - (length v - 1)"
  have h: "nHeight b = int (block_height S p)" using block_height_eq [OF assms(1,3)] .
  have c: "chain_Height v = int ?h" using True by (simp add: chain_Height_def of_nat_diff Suc_leI)
  have le: "?h < block_height S p" using True h c by simp
  obtain q bq where q: "prev_iter S ?n p = Some q" "S q = Some bq"
    using prev_iter_block [OF assms(1,3) diff_le_self] by blast
  have "GetAncestor S p (chain_Height v) = Some (Some q)"
    using GetAncestor_prev [OF assms(1,3), of "chain_Height v"] h c le q(1) by (simp add: nat_diff_distrib)
  then have ff: "FindFork S v (Some p) = FindFork_loop S v (Some q)"
    using assms(3) True by (simp add: FindFork_def)
  have above: "Some x \<notin> set v" if "m < ?n" "prev_iter S m p = Some x" for m x
  proof -
    have "m \<le> block_height S p" using that(1) by simp
    then obtain x' bx where "prev_iter S m p = Some x'" "S x' = Some bx" "block_height S x' = block_height S p - m"
      using prev_iter_block [OF assms(1,3)] by blast
    then show ?thesis using chain_above_height [OF assms(1,2)] that le by auto
  qed
  obtain r where r: "FindFork_loop S v (Some q) = Some r" "first_on_chain S v q r"
    using FindFork_loop_first [OF assms(1,2) q(2)] by blast
  have "first_on_chain S v p r"
    using q(1) above r(2) by (rule first_on_chain_iter)
  then show ?thesis using ff r(1) by auto
next
  case False
  show ?thesis
  proof (cases "v = []")
    case True
    have "GetAncestor S p (- 1) = Some None"
      using assms(3) by (simp add: GetAncestor_def)
    then show ?thesis using True assms wf_height [OF assms(1,3)]
      by (simp add: FindFork_def chain_Height_def first_on_chain_def)
  next
    case ne: False
    then show ?thesis using False FindFork_loop_first [OF assms] assms(3) by (simp add: FindFork_def)
  qed
qed

theorem FindFork_highest_common_witness:
  "\<exists>r. FindFork demo_store [] (Some 2) = Some r \<and> first_on_chain demo_store [] 2 r"
proof -
  have "demo_store 2 = Some (demo_block (Some 1) (Some 0) 2)" by (simp add: demo_store_def)
  moreover have "chain_ok demo_store []" by (simp add: chain_ok_def)
  ultimately show ?thesis using FindFork_highest_common [OF wf_demo_store] by blast
qed

section \<open>Last common ancestors\<close>

lemma meet_loop_eq: "pa = pb \<or> pa = None \<or> pb = None \<Longrightarrow> meet_loop S pa pb = Some (pa, pb)"
  by (subst meet_loop.simps) auto

lemma meet_loop_step:
  "p \<noteq> q \<Longrightarrow> S p = Some b \<Longrightarrow> S q = Some c \<Longrightarrow> meet_loop S (Some p) (Some q) = meet_loop S (pprev b) (pprev c)"
  by (subst meet_loop.simps) simp

text \<open>Two branches of equal height meet after the least number of steps back.\<close>

lemma meet_loop_correct:
  assumes "wf_store S" "S p = Some b" "S q = Some c" "block_height S p = block_height S q"
    and "prev_iter S (block_height S p) p = prev_iter S (block_height S q) q"
  shows "\<exists>n r. meet_loop S (Some p) (Some q) = Some (Some r, Some r) \<and> prev_iter S n p = Some r \<and>
    prev_iter S n q = Some r \<and> (\<forall>m < n. prev_iter S m p \<noteq> prev_iter S m q)"
  using assms(2-5)
proof (induction "block_height S p" arbitrary: p q b c)
  case 0
  then show ?case by (auto simp: meet_loop_eq intro!: exI [of _ 0])
next
  case (Suc k)
  obtain p' b' where p': "pprev b = Some p'" "S p' = Some b'" "block_height S p' = k"
    using prev_block [OF assms(1) Suc(3) Suc(2) [symmetric]] .
  obtain q' c' where q': "pprev c = Some q'" "S q' = Some c'" "block_height S q' = k"
    using prev_block [OF assms(1) Suc(4)] Suc(2,5) by metis
  show ?case
  proof (cases "p = q")
    case True
    then show ?thesis by (auto simp: meet_loop_eq intro!: exI [of _ 0])
  next
    case False
    have "prev_iter S k p' = prev_iter S k q'"
      using Suc(6) Suc(3,4) p'(1) q'(1) unfolding Suc(5) [symmetric] Suc(2) [symmetric] by simp
    then obtain n r where n: "meet_loop S (Some p') (Some q') = Some (Some r, Some r)" "prev_iter S n p' = Some r"
        "prev_iter S n q' = Some r" "\<forall>m < n. prev_iter S m p' \<noteq> prev_iter S m q'"
      using Suc(1) [OF _ p'(2) q'(2)] p'(3) q'(3) by auto
    have "prev_iter S m p \<noteq> prev_iter S m q" if "m < Suc n" for m
      using that n(4) False Suc(3,4) p'(1) q'(1) by (cases m) auto
    moreover have "prev_iter S (Suc n) p = Some r" "prev_iter S (Suc n) q = Some r"
      using n(2,3) Suc(3,4) p'(1) q'(1) by simp_all
    ultimately show ?thesis
      using n(1) meet_loop_step [OF False Suc(3,4)] p'(1) q'(1) by (metis (no_types))
  qed
qed

text \<open>The block of a branch at a height.\<close>

definition at_height :: "block_store \<Rightarrow> blockptr \<Rightarrow> nat \<Rightarrow> blockptr option" where
  "at_height S p h = (if h \<le> block_height S p then prev_iter S (block_height S p - h) p else None)"

lemma at_height_obtain:
  assumes "wf_store S" "S p = Some b" "h \<le> block_height S p"
  obtains q bq where "at_height S p h = Some q" "S q = Some bq" "block_height S q = h"
    "\<And>k. k \<le> h \<Longrightarrow> at_height S q k = at_height S p k"
proof -
  obtain q bq where q: "prev_iter S (block_height S p - h) p = Some q" "S q = Some bq"
      "block_height S q = block_height S p - (block_height S p - h)"
    using prev_iter_block [OF assms(1,2) diff_le_self] by blast
  then have hq: "block_height S q = h" using assms(3) by simp
  have "at_height S q k = at_height S p k" if "k \<le> h" for k
  proof -
    have "block_height S p - k = (block_height S p - h) + (h - k)" using that assms(3) by simp
    then have "prev_iter S (block_height S p - k) p = prev_iter S (h - k) q"
      using q(1) by (simp only: prev_iter_add) simp
    then show ?thesis using that assms(3) hq by (simp add: at_height_def)
  qed
  with q hq assms(3) show thesis by (intro that [of q bq]) (simp_all add: at_height_def)
qed

lemma GetAncestor_at_height:
  assumes "wf_store S" "S p = Some b" "h \<le> block_height S p"
  shows "GetAncestor S p (int h) = Some (at_height S p h)"
  using GetAncestor_prev [OF assms(1,2), of "int h"] block_height_eq [OF assms(1,2)] assms(3)
  by (simp add: at_height_def nat_diff_distrib)

lemma at_height_self [simp]: "at_height S p (block_height S p) = Some p"
  by (simp add: at_height_def)

text \<open>
  For two blocks of a well-formed index with the same genesis block, \<^verbatim>\<open>LastCommonAncestor\<close> returns
  (its assertion holds) the highest block that both branches share: the branches agree at its height
  and differ at every height above it.
\<close>

theorem LastCommonAncestor_highest:
  assumes "wf_store S" "S p = Some b" "S q = Some c" "at_height S p 0 = at_height S q 0"
  shows "\<exists>r h. LastCommonAncestor S p q = Some (Some r) \<and> at_height S p h = Some r \<and> at_height S q h = Some r \<and>
    (\<forall>k > h. k \<le> block_height S p \<and> k \<le> block_height S q \<longrightarrow> at_height S p k \<noteq> at_height S q k)"
proof -
  let ?l = "min (block_height S p) (block_height S q)"
  have hp: "nHeight b = int (block_height S p)" and hq: "nHeight c = int (block_height S q)"
    using block_height_eq [OF assms(1)] assms(2,3) by blast+
  obtain p' b' where p': "at_height S p ?l = Some p'" "S p' = Some b'" "block_height S p' = ?l"
      "\<And>k. k \<le> ?l \<Longrightarrow> at_height S p' k = at_height S p k"
    using at_height_obtain [OF assms(1,2) min.cobounded1] by blast
  obtain q' c' where q': "at_height S q ?l = Some q'" "S q' = Some c'" "block_height S q' = ?l"
      "\<And>k. k \<le> ?l \<Longrightarrow> at_height S q' k = at_height S q k"
    using at_height_obtain [OF assms(1,3) min.cobounded2] by blast
  have "(if nHeight b > nHeight c then GetAncestor S p (nHeight c) else Some (Some p)) = Some (Some p')"
    using GetAncestor_at_height [OF assms(1,2), of ?l] p'(1) hp hq by (auto simp: min_def split: if_splits)
  moreover have "(if nHeight c > nHeight b then GetAncestor S q (nHeight b) else Some (Some q)) = Some (Some q')"
    using GetAncestor_at_height [OF assms(1,3), of ?l] q'(1) hp hq by (auto simp: min_def split: if_splits)
  moreover obtain n r where n: "meet_loop S (Some p') (Some q') = Some (Some r, Some r)" "prev_iter S n p' = Some r"
      "prev_iter S n q' = Some r" "\<forall>m < n. prev_iter S m p' \<noteq> prev_iter S m q'"
    using meet_loop_correct [OF assms(1) p'(2) q'(2)] p'(3) p'(4) [of 0] q'(3) q'(4) [of 0] assms(4)
    by (auto simp: at_height_def)
  ultimately have "LastCommonAncestor S p q = Some (Some r)"
    using assms(2,3) by (simp add: LastCommonAncestor_def)
  moreover have le: "n \<le> ?l" using prev_iter_beyond [OF assms(1) p'(2), of n] n(2) p'(3) by force
  have "at_height S p (?l - n) = Some r" "at_height S q (?l - n) = Some r"
    using p'(3) p'(4) [of "?l - n"] q'(3) q'(4) [of "?l - n"] n(2,3) le by (simp_all add: at_height_def)
  moreover have "at_height S p k \<noteq> at_height S q k" if "?l - n < k" "k \<le> ?l" for k
  proof -
    have "?l - k < n" using that le by linarith
    then have "at_height S p' k \<noteq> at_height S q' k" using n(4) that(2) p'(3) q'(3) by (simp add: at_height_def)
    then show ?thesis using p'(4) q'(4) that(2) by simp
  qed
  ultimately show ?thesis by (intro exI [of _ r] exI [of _ "?l - n"]) simp
qed

theorem LastCommonAncestor_highest_witness:
  "\<exists>r h. LastCommonAncestor demo_store 2 1 = Some (Some r) \<and> at_height demo_store 2 h = Some r \<and>
    at_height demo_store 1 h = Some r \<and>
    (\<forall>k > h. k \<le> block_height demo_store 2 \<and> k \<le> block_height demo_store 1 \<longrightarrow>
       at_height demo_store 2 k \<noteq> at_height demo_store 1 k)"
proof -
  have S: "demo_store 2 = Some (demo_block (Some 1) (Some 0) 2)" "demo_store 1 = Some (demo_block (Some 0) (Some 0) 1)"
    by (simp_all add: demo_store_def)
  have h: "block_height demo_store 2 = 2" "block_height demo_store 1 = 1"
    by (simp_all only: block_height_def S) (simp_all add: demo_block_def)
  have "prev_iter demo_store 2 2 = Some 0" "prev_iter demo_store 1 1 = Some 0"
    by (simp_all add: numeral_2_eq_2) (simp_all add: demo_store_def demo_block_def)
  then have "at_height demo_store 2 0 = at_height demo_store 1 0" by (simp only: at_height_def h) simp
  then show ?thesis by (rule LastCommonAncestor_highest [OF wf_demo_store S])
qed

section \<open>Binary search\<close>

lemma lower_bound_partition:
  assumes "\<And>i. i < k \<Longrightarrow> below (xs ! i)" "\<And>i. k \<le> i \<Longrightarrow> i < first + count \<Longrightarrow> \<not> below (xs ! i)"
    and "first \<le> k" "k \<le> first + count"
  shows "lower_bound below xs first count = k"
  using assms
proof (induction below xs first count rule: lower_bound.induct)
  case (1 below xs first count)
  show ?case
  proof (cases "count = 0")
    case True
    then show ?thesis using 1(5,6) by (subst lower_bound.simps) simp
  next
    case False
    let ?s = "count div 2"
    have s: "?s < count" using False by simp
    show ?thesis
    proof (cases "below (xs ! (first + ?s))")
      case True
      then have "first + ?s < k" using 1(4) [of "first + ?s"] s by force
      then show ?thesis
        using 1(1) [OF False refl refl True] 1(3-6) False True s by (subst lower_bound.simps) (simp add: Let_def)
    next
      case nb: False
      then have "k \<le> first + ?s" using 1(3) [of "first + ?s"] by force
      then show ?thesis
        using 1(2) [OF False refl refl nb] 1(3-6) False nb s by (subst lower_bound.simps) (simp add: Let_def)
    qed
  qed
qed

definition block_at :: "block_store \<Rightarrow> chain_vec \<Rightarrow> nat \<Rightarrow> CBlockIndex" where
  "block_at S v i = the (Option.bind (v ! i) S)"

definition times_ok :: "block_store \<Rightarrow> bool" where
  "times_ok S \<longleftrightarrow> (\<forall>p b q bq. S p = Some b \<longrightarrow> pprev b = Some q \<longrightarrow> S q = Some bq \<longrightarrow> nTimeMax bq \<le> nTimeMax b)"

lemma wf_bm_times_ok: "wf_bm bm \<Longrightarrow> times_ok (blocks bm)"
  by (fastforce simp: wf_bm_def times_ok_def wf_totals_def)

lemma chain_entry:
  assumes "wf_store S" "chain_ok S v" "i < length v"
  obtains q where "v ! i = Some q" "S q = Some (block_at S v i)" "nHeight (block_at S v i) = int i"
    "\<And>j. j \<le> i \<Longrightarrow> v ! j = prev_iter S (i - j) q" "block_height S q = i"
proof -
  obtain t where t: "S t \<noteq> None" "v = branch S t" using assms(2,3) by (auto simp: chain_ok_def)
  then have "i \<le> block_height S t" using assms(3) by simp
  then obtain q bq where q: "v ! i = Some q" "S q = Some bq" "block_height S q = i"
      "\<And>j. j \<le> i \<Longrightarrow> v ! j = prev_iter S (i - j) q"
    using branch_Some [OF assms(1) t(1)] unfolding t(2) by blast
  then show thesis using that [of q] block_height_eq [OF assms(1) q(2)] by (simp add: block_at_def)
qed

lemma chain_times_mono:
  assumes "wf_store S" "chain_ok S v" "times_ok S" "Suc i < length v"
  shows "nTimeMax (block_at S v i) \<le> nTimeMax (block_at S v (Suc i))"
proof -
  obtain q where q: "v ! Suc i = Some q" "S q = Some (block_at S v (Suc i))"
      "\<And>j. j \<le> Suc i \<Longrightarrow> v ! j = prev_iter S (Suc i - j) q"
    using chain_entry [OF assms(1,2,4)] by metis
  have i: "i < length v" using assms(4) by simp
  obtain r where r: "v ! i = Some r" "S r = Some (block_at S v i)"
    using chain_entry [OF assms(1,2) i] by metis
  have "v ! i = pprev (block_at S v (Suc i))" using q(3) [of i] q(2) by (auto simp: bind_eq_None_conv split: bind_split)
  then show ?thesis using assms(3) q(2) r unfolding times_ok_def by metis
qed

text \<open>A predicate on positions that is downward closed splits them in two.\<close>

lemma split_point:
  fixes n :: nat
  assumes "\<And>i. Suc i < n \<Longrightarrow> P (Suc i) \<Longrightarrow> P i"
  obtains k where "k \<le> n" "\<And>i. i < k \<Longrightarrow> P i" "\<And>i. k \<le> i \<Longrightarrow> i < n \<Longrightarrow> \<not> P i"
  using assms
proof (induction n arbitrary: thesis)
  case (Suc n)
  obtain k where k: "k \<le> n" "\<And>i. i < k \<Longrightarrow> P i" "\<And>i. k \<le> i \<Longrightarrow> i < n \<Longrightarrow> \<not> P i"
    using Suc.IH Suc.prems(2) by (metis less_SucI)
  show ?case
  proof (cases "P n")
    case True
    have "k = n"
    proof (rule ccontr)
      assume "k \<noteq> n"
      then obtain m where "n = Suc m" "k \<le> m" using k(1) by (cases n) auto
      then show False using Suc.prems(2) [of m] True k(3) [of m] by simp
    qed
    then have "i < Suc n \<Longrightarrow> P i" for i using k(2) True by (cases "i = n") auto
    then show ?thesis using Suc.prems(1) [of "Suc n"] by simp
  next
    case False
    then have "k \<le> i \<Longrightarrow> i < Suc n \<Longrightarrow> \<not> P i" for i using k(3) by (cases "i = n") auto
    then show ?thesis using Suc.prems(1) [of k] k by simp
  qed
qed simp

text \<open>
  On an active chain whose time maxima grow along the branch, \<^verbatim>\<open>FindEarliestAtLeast\<close> finds the lowest
  block with at least the given time maximum and height, or none when there is no such block.
\<close>

theorem FindEarliestAtLeast_first:
  assumes "wf_store S" "chain_ok S v" "times_ok S"
  shows "\<exists>k \<le> length v. FindEarliestAtLeast S v t h = Some (if k = length v then None else v ! k) \<and>
    (\<forall>i < k. GetBlockTimeMax (block_at S v i) < t \<or> nHeight (block_at S v i) < h) \<and>
    (\<forall>i. k \<le> i \<longrightarrow> i < length v \<longrightarrow> GetBlockTimeMax (block_at S v i) \<ge> t \<and> nHeight (block_at S v i) \<ge> h)"
proof -
  let ?P = "\<lambda>i. GetBlockTimeMax (block_at S v i) < t \<or> nHeight (block_at S v i) < h"
  have "?P i" if "Suc i < length v" "?P (Suc i)" for i
  proof -
    have "nHeight (block_at S v i) = int i" "nHeight (block_at S v (Suc i)) = int (Suc i)"
      using chain_entry [OF assms(1,2)] that(1) by (metis Suc_lessD)+
    moreover have "GetBlockTimeMax (block_at S v i) \<le> GetBlockTimeMax (block_at S v (Suc i))"
      using chain_times_mono [OF assms that(1)] by (simp add: GetBlockTimeMax_def word_le_def)
    ultimately show ?thesis using that(2) by linarith
  qed
  then obtain k where k: "k \<le> length v" "\<And>i. i < k \<Longrightarrow> ?P i" "\<And>i. k \<le> i \<Longrightarrow> i < length v \<Longrightarrow> \<not> ?P i"
    using split_point [of "length v" ?P] by metis
  have "lower_bound (\<lambda>x. let b = the (Option.bind x S) in GetBlockTimeMax b < t \<or> nHeight b < h) v 0 (length v) = k"
    using k by (intro lower_bound_partition) (auto simp: block_at_def Let_def)
  moreover have "\<not> (\<exists>x \<in> set v. Option.bind x S = None)"
  proof
    assume "\<exists>x \<in> set v. Option.bind x S = None"
    then obtain i where i: "i < length v" "Option.bind (v ! i) S = None" by (auto simp: in_set_conv_nth)
    obtain q where "v ! i = Some q" "S q = Some (block_at S v i)" using chain_entry [OF assms(1,2) i(1)] by metis
    with i(2) show False by simp
  qed
  ultimately have "FindEarliestAtLeast S v t h = Some (if k = length v then None else v ! k)"
    by (simp add: FindEarliestAtLeast_def Let_def)
  moreover have "GetBlockTimeMax (block_at S v i) \<ge> t \<and> nHeight (block_at S v i) \<ge> h" if "k \<le> i" "i < length v" for i
    using k(3) [OF that] by simp
  ultimately show ?thesis using k(1,2) by (intro exI [of _ k]) blast
qed

theorem FindEarliestAtLeast_first_witness:
  "\<exists>k \<le> 3. FindEarliestAtLeast demo_store [Some 0, Some 1, Some 2] 0 1 =
    Some (if k = 3 then None else [Some 0, Some 1, Some 2] ! k)"
proof -
  have "times_ok demo_store" by (auto simp: times_ok_def demo_store_def demo_block_def new_CBlockIndex_def split: if_splits)
  note FindEarliestAtLeast_first [OF wf_demo_store demo_chain_ok(1) this, of 0 1]
  moreover have "length [Some 0, Some (1::nat), Some 2] = 3" by simp
  ultimately show ?thesis by metis
qed

section \<open>Block locators\<close>

lemma chain_at_branch:
  assumes "wf_store S" "chain_ok S v" "S p = Some b" "Some p \<in> set v" "h \<le> block_height S p"
  shows "chain_at v (int h) = at_height S p h"
proof -
  obtain i where i: "i < length v" "v ! i = Some p" using assms(4) by (auto simp: in_set_conv_nth)
  obtain q where q: "v ! i = Some q" "\<And>j. j \<le> i \<Longrightarrow> v ! j = prev_iter S (i - j) q" "block_height S q = i"
    using chain_entry [OF assms(1,2) i(1)] by metis
  then show ?thesis using i assms(5) by (simp add: chain_at_def at_height_def)
qed

lemma GetLocator_loop_step:
  assumes "wf_store S" "chain_ok S v" "S p = Some b" "0 < block_height S p" "0 < step"
  defines "h \<equiv> block_height S p - nat step"
  shows "GetLocator_loop S v step have (Some p) =
    GetLocator_loop S v (if length have + 1 > 10 then step * 2 else step) (have @ [phashBlock b]) (at_height S p h)"
proof -
  have n: "nHeight b = int (block_height S p)" using block_height_eq [OF assms(1,3)] .
  have h: "max (int (block_height S p) - step) 0 = int h" using assms(5) by (simp add: h_def)
  have q: "Some p \<in> set v \<Longrightarrow> chain_at v (int h) = at_height S p h" "GetAncestor S p (int h) = Some (at_height S p h)"
    using chain_at_branch [OF assms(1-3)] GetAncestor_at_height [OF assms(1,3)] by (simp_all add: h_def)
  show ?thesis
    using assms(3,4) n chain_Contains_iff [OF assms(1-3)]
    by (subst GetLocator_loop.simps) (cases "Some p \<in> set v", simp_all add: h q)
qed

definition hash_back :: "block_store \<Rightarrow> blockptr \<Rightarrow> nat \<Rightarrow> uint256" where
  "hash_back S p n = phashBlock (the (S (the (prev_iter S n p))))"

lemma GetLocator_loop_path:
  assumes "wf_store S" "chain_ok S v" "S p = Some b" "0 < step"
  shows "\<exists>ns. GetLocator_loop S v step have (Some p) = Some (have @ map (hash_back S p) (0 # ns)) \<and>
    sorted_wrt (<) (0 # ns) \<and> last (0 # ns) = block_height S p"
  using assms(3,4)
proof (induction "block_height S p" arbitrary: p b step "have" rule: less_induct)
  case less
  show ?case
  proof (cases "block_height S p = 0")
    case True
    then have "nHeight b = 0" using block_height_eq [OF assms(1) less.prems(1)] by simp
    then show ?thesis using less.prems(1) True
      by (intro exI [of _ "[]"]) (subst GetLocator_loop.simps, simp add: hash_back_def Let_def)
  next
    case False
    define h where "h = block_height S p - nat step"
    define d where "d = block_height S p - h"
    have hd: "h < block_height S p" "0 < d" "d + h = block_height S p"
      using False less.prems(2) by (simp_all add: h_def d_def)
    obtain q bq where q: "at_height S p h = Some q" "S q = Some bq" "block_height S q = h"
      using at_height_obtain [OF assms(1) less.prems(1), of h] hd(1) by (metis less_imp_le)
    let ?step = "if length have + 1 > 10 then step * 2 else step"
    have lt: "block_height S q < block_height S p" and stp: "0 < ?step" using q(3) hd(1) less.prems(2) by simp_all
    obtain ns where ns: "GetLocator_loop S v ?step (have @ [phashBlock b]) (Some q) =
          Some ((have @ [phashBlock b]) @ map (hash_back S q) (0 # ns))"
        "sorted_wrt (<) (0 # ns)" "last (0 # ns) = h"
      using less.hyps [OF lt q(2) stp, of "have @ [phashBlock b]"] unfolding q(3) by blast
    have it: "prev_iter S d p = Some q" using q(1) hd by (simp add: at_height_def d_def)
    have shift: "hash_back S q n = hash_back S p (d + n)" for n
      by (simp add: hash_back_def prev_iter_add it)
    let ?ns = "map ((+) d) (0 # ns)"
    have "GetLocator_loop S v step have (Some p) = GetLocator_loop S v ?step (have @ [phashBlock b]) (Some q)"
      using GetLocator_loop_step [OF assms(1,2) less.prems(1) _ less.prems(2), of "have", folded h_def] False
      unfolding q(1) by blast
    moreover have "map (hash_back S q) (0 # ns) = map (hash_back S p) ?ns" by (simp add: shift)
    moreover have "phashBlock b = hash_back S p 0" by (simp add: hash_back_def less.prems(1))
    ultimately have "GetLocator_loop S v step have (Some p) = Some (have @ map (hash_back S p) (0 # ?ns))"
      using ns(1) by (simp only: list.map append_assoc append.simps)
    moreover have "sorted_wrt (<) (0 # ?ns)" using ns(2) hd(2) by (auto simp: sorted_wrt_map)
    moreover have "last (0 # ?ns) = block_height S p" using ns(3) hd(3) by (auto simp: last_map split: if_splits)
    ultimately show ?thesis by blast
  qed
qed

text \<open>
  C6. The locator of a block is built in finitely many steps: it lists the hashes of blocks of its branch
  at strictly increasing distances, starting with the block itself and ending with the genesis block,
  whether the steps back use the chain vector or the skip list.
\<close>

theorem GetLocator_branch:
  assumes "wf_store S" "chain_ok S v" "S p = Some b"
  shows "\<exists>ns. GetLocator S v (Some p) = Some (map (hash_back S p) ns) \<and> sorted_wrt (<) ns \<and>
    ns \<noteq> [] \<and> hd ns = 0 \<and> last ns = block_height S p"
proof -
  obtain ns where "GetLocator S v (Some p) = Some (map (hash_back S p) (0 # ns))"
      "sorted_wrt (<) (0 # ns)" "last (0 # ns) = block_height S p"
    using GetLocator_loop_path [OF assms, of 1 "[]"] by (auto simp: GetLocator_def)
  then show ?thesis by (intro exI [of _ "0 # ns"]) simp
qed

theorem GetLocator_branch_witness:
  "\<exists>ns. GetLocator demo_store [Some 0] (Some 2) = Some (map (hash_back demo_store 2) ns) \<and> ns \<noteq> [] \<and> hd ns = 0"
  using GetLocator_branch [OF wf_demo_store demo_chain_ok(2) demo_entry(1)] by blast

end
