(* ===== verification/Pow.thy ===== *)
theory Pow
  imports Chain
begin

text \<open>
  Model of \<^verbatim>\<open>src/src/pow.cpp\<close>: the difficulty rules (Dark Gravity Wave, the older per-interval rule and the
  special cases of test networks) and the check of a proof of work. A function returns \<open>None\<close>
  where the source fails an assertion, follows a null pointer or divides by zero. The lemmas give the
  difficulty as arithmetic on natural numbers, show when no 256-bit product wraps around, and
  bound the new target.
\<close>

section \<open>The model\<close>

record pow_params =
  powLimit :: uint256
  fPowAllowMinDifficultyBlocks :: bool
  fPowNoRetargeting :: bool
  nPowTargetSpacing :: int
  nPowTargetTimespan :: int
  nPowDGWHeight :: int
  nMinimumDifficultyBlocks :: int

definition DifficultyAdjustmentInterval :: "pow_params \<Rightarrow> int" where
  "DifficultyAdjustmentInterval params = nPowTargetTimespan params sdiv nPowTargetSpacing params"

definition no_throw :: "'e + 'a \<Rightarrow> 'a option" where
  "no_throw r = (case r of Inl e \<Rightarrow> None | Inr x \<Rightarrow> Some x)"

definition compact :: "base_uint \<Rightarrow> u32 option" where
  "compact a = GetCompact a False"

definition nPastBlocks :: nat where
  "nPastBlocks = 24"

text \<open>The loop over the past blocks; \<open>r\<close> counts the iterations that are left.\<close>

fun DGW_loop :: "block_store \<Rightarrow> nat \<Rightarrow> nat \<Rightarrow> blockptr \<Rightarrow> base_uint \<Rightarrow> (blockptr \<times> base_uint) option" where
  "DGW_loop S 0 nCountBlocks pindex bnPastTargetAvg = Some (pindex, bnPastTargetAvg)"
| "DGW_loop S (Suc r) nCountBlocks pindex bnPastTargetAvg = do {
     b \<leftarrow> S pindex;
     let bnTarget = fst (SetCompact (nBits b));
     avg \<leftarrow> (if nCountBlocks = 1 then Some bnTarget
             else no_throw (uint_div (uint_add (uint_mul32 bnPastTargetAvg (of_nat nCountBlocks)) bnTarget)
                                     (uint_of_u64 (of_nat (nCountBlocks + 1)))));
     if nCountBlocks \<noteq> nPastBlocks
     then do { q \<leftarrow> pprev b; DGW_loop S r (nCountBlocks + 1) q avg }
     else DGW_loop S r (nCountBlocks + 1) pindex avg
   }"

definition DarkGravityWave :: "block_store \<Rightarrow> blockptr option \<Rightarrow> pow_params \<Rightarrow> u32 option" where
  "DarkGravityWave S pindexLast params =
    (let bnPowLimit = UintToArith256 (powLimit params) in
     case pindexLast of
       None \<Rightarrow> compact bnPowLimit
     | Some p \<Rightarrow> do {
         last \<leftarrow> S p;
         if nHeight last < int nPastBlocks then compact bnPowLimit
         else do {
           (pindex, avg) \<leftarrow> DGW_loop S nPastBlocks 1 p uint_zero;
           b \<leftarrow> S pindex;
           let nActualTimespan = GetBlockTime last - GetBlockTime b;
           let nTargetTimespan = int nPastBlocks * nPowTargetSpacing params;
           let nActualTimespan = (if nActualTimespan < nTargetTimespan sdiv 3 then nTargetTimespan sdiv 3 else nActualTimespan);
           let nActualTimespan = (if nActualTimespan > nTargetTimespan * 3 then nTargetTimespan * 3 else nActualTimespan);
           bnNew \<leftarrow> no_throw (uint_div (uint_mul32 avg (of_int nActualTimespan)) (uint_of_u64 (of_int nTargetTimespan)));
           compact (if uint_gt bnNew bnPowLimit then bnPowLimit else bnNew)
         }
       })"

definition CalculateNextWorkRequired :: "CBlockIndex \<Rightarrow> int \<Rightarrow> pow_params \<Rightarrow> u32 option" where
  "CalculateNextWorkRequired pindexLast nFirstBlockTime params =
    (if fPowNoRetargeting params then Some (nBits pindexLast)
     else
       let T = nPowTargetTimespan params;
           nActualTimespan = GetBlockTime pindexLast - nFirstBlockTime;
           nActualTimespan = (if nActualTimespan < T sdiv 4 then T sdiv 4 else nActualTimespan);
           nActualTimespan = (if nActualTimespan > T * 4 then T * 4 else nActualTimespan);
           bnPowLimit = UintToArith256 (powLimit params)
       in do {
         bnNew \<leftarrow> no_throw (uint_div (uint_mul32 (fst (SetCompact (nBits pindexLast))) (of_int nActualTimespan))
                                     (uint_of_u64 (of_int T)));
         compact (if uint_gt bnNew bnPowLimit then bnPowLimit else bnNew)
       })"

text \<open>The walk back over blocks of minimum difficulty on test networks.\<close>

partial_function (option) last_regular :: "block_store \<Rightarrow> int \<Rightarrow> u32 \<Rightarrow> blockptr \<Rightarrow> CBlockIndex option" where
  "last_regular S interval limit_bits p = do {
     b \<leftarrow> S p;
     if pprev b \<noteq> None \<and> nHeight b smod interval \<noteq> 0 \<and> nBits b = limit_bits
     then do { q \<leftarrow> pprev b; last_regular S interval limit_bits q }
     else Some b
   }"

definition GetNextWorkRequiredBTC :: "block_store \<Rightarrow> blockptr \<Rightarrow> CPureBlockHeader \<Rightarrow> pow_params \<Rightarrow> u32 option" where
  "GetNextWorkRequiredBTC S p pblock params = do {
     last \<leftarrow> S p;
     nProofOfWorkLimit \<leftarrow> compact (UintToArith256 (powLimit params));
     let interval = DifficultyAdjustmentInterval params;
     if (nHeight last + 1) smod interval \<noteq> 0 then
       (if fPowAllowMinDifficultyBlocks params then
          (if header_GetBlockTime pblock > GetBlockTime last + nPowTargetSpacing params * 2
           then Some nProofOfWorkLimit
           else map_option nBits (last_regular S interval nProofOfWorkLimit p))
        else Some (nBits last))
     else do {
       let nHeightFirst = nHeight last - (interval - 1);
       if nHeightFirst < 0 then None
       else do {
         q \<leftarrow> GetAncestor S p nHeightFirst;
         first \<leftarrow> Option.bind q S;
         CalculateNextWorkRequired last (GetBlockTime first) params
       }
     }
   }"

definition GetNextWorkRequired :: "block_store \<Rightarrow> blockptr \<Rightarrow> CPureBlockHeader \<Rightarrow> pow_params \<Rightarrow> u32 option" where
  "GetNextWorkRequired S p pblock params = do {
     last \<leftarrow> S p;
     let bnPowLimit = UintToArith256 (powLimit params);
     if nHeight last < nMinimumDifficultyBlocks params then compact bnPowLimit
     else if nHeight last + 1 < nPowDGWHeight params then GetNextWorkRequiredBTC S p pblock params
     else if fPowNoRetargeting params then compact bnPowLimit
     else if fPowAllowMinDifficultyBlocks params \<and>
             header_GetBlockTime pblock > GetBlockTime last + 2 * 60 * 60 then compact bnPowLimit
     else if fPowAllowMinDifficultyBlocks params \<and>
             header_GetBlockTime pblock > GetBlockTime last + nPowTargetSpacing params * 4 then
       (let bnNew = uint_mul32 (fst (SetCompact (nBits last))) 10
        in compact (if uint_gt bnNew bnPowLimit then bnPowLimit else bnNew))
     else DarkGravityWave S (Some p) params
   }"

definition CheckProofOfWork :: "uint256 \<Rightarrow> u32 \<Rightarrow> pow_params \<Rightarrow> bool" where
  "CheckProofOfWork hash bits params =
    (let (bnTarget, fNegative, fOverflow) = SetCompact bits
     in if fNegative \<or> EqualTo bnTarget 0 \<or> fOverflow \<or> uint_gt bnTarget (UintToArith256 (powLimit params)) then False
        else if uint_gt (UintToArith256 hash) bnTarget then False
        else True)"

section \<open>Numbers behind the limbs\<close>

definition target_of :: "u32 \<Rightarrow> nat" where
  "target_of bits = uval (fst (SetCompact bits))"

definition limit_of :: "pow_params \<Rightarrow> nat" where
  "limit_of params = uval (UintToArith256 (powLimit params))"

text \<open>
  C7. A hash meets the proof of work of a header exactly if the target is a positive number that the
  compact form encodes without sign and overflow, does not exceed the limit of the network, and the hash,
  read as a number, does not exceed the target.
\<close>

theorem CheckProofOfWork_iff:
  "CheckProofOfWork hash bits params \<longleftrightarrow>
    snd (SetCompact bits) = (False, False) \<and> 0 < target_of bits \<and> target_of bits \<le> limit_of params \<and>
    uval (UintToArith256 hash) \<le> target_of bits"
proof -
  obtain t neg ovf where t: "SetCompact bits = (t, neg, ovf)" by (cases "SetCompact bits")
  have "wf_uint t" using wf_SetCompact [of bits] by (simp add: t)
  then show ?thesis
    by (auto simp: CheckProofOfWork_def target_of_def limit_of_def t EqualTo_val uint_gt_val)
qed

text \<open>The running mean of the past targets, with the wrap-around of the 256-bit product.\<close>

fun dgw_mean :: "nat \<Rightarrow> nat \<Rightarrow> nat list \<Rightarrow> nat" where
  "dgw_mean c a [] = a"
| "dgw_mean c a (t # ts) = dgw_mean (c + 1) (if c = 1 then t else ((a * c + t) mod 2 ^ 256) div (c + 1)) ts"

text \<open>The targets of a block and its predecessors.\<close>

definition past_targets :: "block_store \<Rightarrow> blockptr \<Rightarrow> nat \<Rightarrow> nat list" where
  "past_targets S p n = map (\<lambda>i. target_of (nBits (the (S (the (prev_iter S i p)))))) [0..<n]"

lemma past_targets_Suc:
  assumes "S p = Some b" "pprev b = Some q"
  shows "past_targets S p (Suc n) = target_of (nBits b) # past_targets S q n"
  using assms
  by (simp add: past_targets_def upt_conv_Cons map_Suc_upt [symmetric] comp_def del: upt_Suc)

lemma past_targets_1: "S p = Some b \<Longrightarrow> past_targets S p (Suc 0) = [target_of (nBits b)]"
  by (simp add: past_targets_def)

lemma dgw_step:
  assumes "wf_uint a" "wf_uint t" "c < 100"
  obtains q where "no_throw (uint_div (uint_add (uint_mul32 a (of_nat c)) t) (uint_of_u64 (of_nat (c + 1)))) = Some q"
    "wf_uint q" "uval q = ((uval a * c + uval t) mod 2 ^ 256) div (c + 1)"
proof -
  have c: "unat (of_nat c :: u32) = c" "unat (of_nat (c + 1) :: u64) = c + 1"
    using assms(3) by (simp_all only: unat_of_nat) simp_all
  have s: "uval (uint_add (uint_mul32 a (of_nat c)) t) = (uval a * c + uval t) mod 2 ^ 256"
    using assms by (simp only: val_uint_add val_uint_mul32 wf_uint_mul32 c mod_add_left_eq)
  obtain q where "uint_div (uint_add (uint_mul32 a (of_nat c)) t) (uint_of_u64 (of_nat (c + 1))) = Inr q" "wf_uint q"
      "uval q = uval (uint_add (uint_mul32 a (of_nat c)) t) div (c + 1)"
    using uint256.quot_exact [of "uint_add (uint_mul32 a (of_nat c)) t" "uint_of_u64 (of_nat (c + 1))"] assms(1,2) c(2)
    by auto
  then show thesis using that s by (simp add: no_throw_def)
qed

lemma DGW_loop_val:
  assumes "wf_store S" "S p = Some b" "wf_uint avg" "1 \<le> c" "c + r = 24" "r \<le> block_height S p"
  shows "\<exists>q a. DGW_loop S (Suc r) c p avg = Some (q, a) \<and> prev_iter S r p = Some q \<and> wf_uint a \<and>
    uval a = dgw_mean c (uval avg) (past_targets S p (Suc r))"
  using assms(2-6)
proof (induction r arbitrary: p b avg c)
  case 0
  obtain a where a: "wf_uint a"
      "no_throw (uint_div (uint_add (uint_mul32 avg (of_nat c)) (fst (SetCompact (nBits b)))) (uint_of_u64 (of_nat (c + 1)))) = Some a"
      "uval a = ((uval avg * c + target_of (nBits b)) mod 2 ^ 256) div (c + 1)"
    using dgw_step [OF 0(2) wf_SetCompact, of c "nBits b"] 0(4) by (auto simp: target_of_def)
  then show ?case using 0 by (simp add: nPastBlocks_def past_targets_1)
next
  case (Suc r)
  let ?t = "fst (SetCompact (nBits b))"
  obtain k where "block_height S p = Suc k" "r \<le> k" using Suc.prems(5) by (cases "block_height S p") auto
  then obtain q bq where q: "pprev b = Some q" "S q = Some bq" "r \<le> block_height S q"
    using prev_block [OF assms(1) Suc.prems(1)] by metis
  obtain a where a: "wf_uint a"
      "no_throw (uint_div (uint_add (uint_mul32 avg (of_nat c)) ?t) (uint_of_u64 (of_nat (c + 1)))) = Some a"
      "uval a = ((uval avg * c + target_of (nBits b)) mod 2 ^ 256) div (c + 1)"
    using dgw_step [OF Suc.prems(2) wf_SetCompact, of c "nBits b"] Suc.prems(4) by (auto simp: target_of_def)
  define a' where "a' = (if c = 1 then ?t else a)"
  have a': "wf_uint a'" "uval a' = (if c = 1 then target_of (nBits b) else ((uval avg * c + target_of (nBits b)) mod 2 ^ 256) div (c + 1))"
    using a by (simp_all add: a'_def target_of_def)
  have "DGW_loop S (Suc (Suc r)) c p avg = DGW_loop S (Suc r) (c + 1) q a'"
    using Suc.prems(1,4) q(1) a(2) by (subst DGW_loop.simps(2)) (simp add: nPastBlocks_def a'_def)
  moreover obtain q' a'' where "DGW_loop S (Suc r) (c + 1) q a' = Some (q', a'')" "prev_iter S r q = Some q'" "wf_uint a''"
      "uval a'' = dgw_mean (c + 1) (uval a') (past_targets S q (Suc r))"
    using Suc.IH [OF q(2) a'(1), of "c + 1"] Suc.prems(4) q(3) by auto
  ultimately show ?case
    using Suc.prems(1) q(1) a'(2) past_targets_Suc [of S p b q "Suc r", OF Suc.prems(1) q(1)] by simp
qed

section \<open>Retargeting\<close>

text \<open>Encoding a target of the limb type: the decoded target is slightly smaller at most.\<close>

definition encodes :: "u32 option \<Rightarrow> nat \<Rightarrow> bool" where
  "encodes r n \<longleftrightarrow> (\<exists>bits. r = Some bits \<and> snd (SetCompact bits) = (False, False) \<and>
     target_of bits \<le> n \<and> (n - target_of bits) * 2 ^ 15 \<le> target_of bits)"

lemma compact_encodes: "wf_uint x \<Longrightarrow> encodes (compact x) (uval x)"
  using GetCompact_SetCompact [of x] by (auto simp: encodes_def compact_def target_of_def)

lemma limit_encodes: "encodes (compact (UintToArith256 (powLimit params))) (limit_of params)"
  using compact_encodes [OF wf_UintToArith256] by (simp add: limit_of_def)

text \<open>The scaling step that both difficulty rules share.\<close>

lemma scale_limit:
  assumes "wf_uint a" "0 \<le> span" "span < 2 ^ 32" "0 < T" "T < 2 ^ 64"
  shows "\<exists>x. no_throw (uint_div (uint_mul32 a (of_int span)) (uint_of_u64 (of_int T))) = Some x \<and>
    encodes (compact (if uint_gt x (UintToArith256 (powLimit params)) then UintToArith256 (powLimit params) else x))
      (min (limit_of params) ((uval a * nat span mod 2 ^ 256) div nat T))"
proof -
  have u: "unat (of_int span :: u32) = nat span" "unat (of_int T :: u64) = nat T"
    using assms(2-5) by (simp_all add: unat_eq_nat_uint uint_word_of_int_eq take_bit_int_eq_self)
  obtain x where x: "uint_div (uint_mul32 a (of_int span)) (uint_of_u64 (of_int T)) = Inr x" "wf_uint x"
      "uval x = (uval a * nat span mod 2 ^ 256) div nat T"
    using uint256.quot_exact [of "uint_mul32 a (of_int span)" "uint_of_u64 (of_int T)"] assms(1,4) u
    by (auto simp: val_uint_mul32)
  let ?L = "UintToArith256 (powLimit params)"
  have "uval (if uint_gt x ?L then ?L else x) = min (limit_of params) (uval x)"
    using x(2) by (auto simp: uint_gt_val limit_of_def)
  moreover have "wf_uint (if uint_gt x ?L then ?L else x)" using x(2) by simp
  ultimately have "encodes (compact (if uint_gt x ?L then ?L else x)) (min (limit_of params) (uval x))"
    using compact_encodes by metis
  then show ?thesis using x by (simp add: no_throw_def)
qed

text \<open>The measured time span, clamped to a third and three times the target span.\<close>

definition dgw_span :: "int \<Rightarrow> int \<Rightarrow> int" where
  "dgw_span T a = min (3 * T) (max (T div 3) a)"

lemma DarkGravityWave_val:
  assumes "wf_store S" "S p = Some b" "24 \<le> nHeight b" "0 < nPowTargetSpacing params" "72 * nPowTargetSpacing params < 2 ^ 32"
  defines "T \<equiv> 24 * nPowTargetSpacing params"
    and "first \<equiv> the (S (the (prev_iter S 23 p)))"
    and "mean \<equiv> dgw_mean 1 0 (past_targets S p 24)"
  shows "encodes (DarkGravityWave S (Some p) params)
    (min (limit_of params) ((mean * nat (dgw_span T (GetBlockTime b - GetBlockTime first)) mod 2 ^ 256) div nat T))"
proof -
  have h: "23 \<le> block_height S p" using assms(3) block_height_eq [OF assms(1,2)] by simp
  have h': "\<not> nHeight b < int nPastBlocks" and T24: "int nPastBlocks * nPowTargetSpacing params = T"
    using assms(3) by (simp_all add: nPastBlocks_def T_def)
  obtain q a where loop: "DGW_loop S nPastBlocks 1 p uint_zero = Some (q, a)" and q: "prev_iter S 23 p = Some q"
      and a: "wf_uint a" "uval a = mean"
    using DGW_loop_val [OF assms(1,2) wf_uint_zero, of 1 23] h by (auto simp: mean_def nPastBlocks_def eval_nat_numeral)
  obtain bq where bq: "S q = Some bq" "first = bq"
    using prev_iter_block [OF assms(1,2) h] q by (auto simp: first_def)
  let ?a = "GetBlockTime b - GetBlockTime bq"
  let ?s = "if ?a < T sdiv 3 then T sdiv 3 else ?a"
  have T: "0 < T" "3 * T < 2 ^ 32" using assms(4,5) by (simp_all add: T_def)
  have sp: "(if ?s > T * 3 then T * 3 else ?s) = dgw_span T ?a"
    using T(1) by (auto simp: dgw_span_def sdiv_nonneg)
  have "0 \<le> dgw_span T ?a" "dgw_span T ?a < 2 ^ 32" "T < 2 ^ 64" using T by (auto simp: dgw_span_def)
  note scale = scale_limit [OF a(1) this(1,2) T(1) this(3), of params]
  have "DarkGravityWave S (Some p) params =
      do { bnNew \<leftarrow> no_throw (uint_div (uint_mul32 a (of_int (dgw_span T ?a))) (uint_of_u64 (of_int T)));
           compact (if uint_gt bnNew (UintToArith256 (powLimit params)) then UintToArith256 (powLimit params) else bnNew) }"
    by (simp only: DarkGravityWave_def Let_def option.case assms(2) bind.bind_lunit h' if_False loop prod.case bq(1) T24 sp)
  then show ?thesis using scale a(2) bq(2) by auto
qed

lemma dgw_mean_bounds:
  assumes "\<forall>t \<in> set ts. lo \<le> t \<and> t \<le> hi" "hi * 25 < 2 ^ 256" "1 \<le> c" "c + length ts \<le> 25"
    and "c = 1 \<and> ts \<noteq> [] \<or> lo \<le> a \<and> a \<le> hi"
  shows "lo \<le> dgw_mean c a ts \<and> dgw_mean c a ts \<le> hi"
  using assms
proof (induction ts arbitrary: c a)
  case (Cons t ts)
  let ?a = "if c = 1 then t else ((a * c + t) mod 2 ^ 256) div (c + 1)"
  have "lo \<le> ?a \<and> ?a \<le> hi"
  proof (cases "c = 1")
    case False
    then have a: "lo \<le> a" "a \<le> hi" and t: "lo \<le> t" "t \<le> hi" using Cons.prems by auto
    have lohi: "a * c + t \<le> hi * (c + 1)" "lo * (c + 1) \<le> a * c + t"
      using t mult_le_mono1 [OF a(1), of c] mult_le_mono1 [OF a(2), of c] unfolding distrib_left by linarith+
    have "hi * (c + 1) \<le> hi * 25" using Cons.prems(4) by (intro mult_le_mono2) simp
    then have m: "(a * c + t) mod 2 ^ 256 = a * c + t" using Cons.prems(2) lohi by (intro mod_less) linarith
    have "(lo * (c + 1)) div (c + 1) \<le> (a * c + t) div (c + 1)" using lohi(2) by (rule div_le_mono)
    moreover have "(a * c + t) div (c + 1) \<le> (hi * (c + 1)) div (c + 1)" using lohi(1) by (rule div_le_mono)
    moreover have "lo * (c + 1) div (c + 1) = lo" "hi * (c + 1) div (c + 1) = hi"
      by (rule nonzero_mult_div_cancel_right; simp)+
    ultimately show ?thesis using False m by simp
  qed (use Cons.prems in auto)
  then have "lo \<le> dgw_mean (c + 1) ?a ts \<and> dgw_mean (c + 1) ?a ts \<le> hi"
    using Cons.prems by (intro Cons.IH) auto
  then show ?case by simp
qed auto

text \<open>
  Every step of the running mean divides the sum of the targets so far, in which the latest block counts twice, and
  rounds down: with \<open>c\<close> the count, a step loses at most \<open>c\<close> of the sum.
\<close>

lemma dgw_mean_weighted:
  assumes "\<forall>t \<in> set ts. t \<le> hi" "hi * 25 < 2 ^ 256" "2 \<le> c" "c + length ts \<le> 25" "a \<le> hi"
  defines "m \<equiv> dgw_mean c a ts"
  shows "m * (c + length ts) \<le> a * c + sum_list ts \<and> a * c + sum_list ts \<le> m * (c + length ts) + (\<Sum>i = c..<c + length ts. i)"
  using assms(1,3-5) unfolding m_def
proof (induction ts arbitrary: c a)
  case (Cons t ts)
  define q where "q = (a * c + t) div (c + 1)"
  have "t \<le> hi" using Cons.prems(1) by simp
  then have "a * c + t \<le> hi * (c + 1)" using mult_le_mono1 [OF Cons.prems(4), of c] unfolding distrib_left by linarith
  moreover have "hi * (c + 1) \<le> hi * 25" using Cons.prems(3) by (intro mult_le_mono2) simp
  ultimately have "a * c + t < 2 ^ 256" using assms(2) by linarith
  then have le: "(a * c + t) mod 2 ^ 256 = a * c + t" by (rule mod_less)
  have "q \<le> hi * (c + 1) div (c + 1)" unfolding q_def using \<open>a * c + t \<le> hi * (c + 1)\<close> by (rule div_le_mono)
  then have q: "q \<le> hi" using nonzero_mult_div_cancel_right [of "c + 1" hi] by simp
  have "a * c + t = q * (c + 1) + (a * c + t) mod (c + 1)" unfolding q_def by (rule div_mult_mod_eq [symmetric])
  moreover have "(a * c + t) mod (c + 1) \<le> c" using mod_less_divisor [of "c + 1" "a * c + t"] by linarith
  ultimately have r: "q * (c + 1) \<le> a * c + t" "a * c + t \<le> q * (c + 1) + c" by linarith+
  have m: "dgw_mean c a (t # ts) = dgw_mean (c + 1) q ts" using Cons.prems(2) le by (simp add: q_def)
  have s: "(\<Sum>i = c..<c + 1 + length ts. i) = c + (\<Sum>i = c + 1..<c + 1 + length ts. i)"
    by (simp add: sum.atLeast_Suc_lessThan)
  have n: "c + length (t # ts) = c + 1 + length ts" by simp
  let ?m = "dgw_mean (c + 1) q ts * (c + 1 + length ts)" and ?s = "\<Sum>i = c + 1..<c + 1 + length ts. i"
  have "?m \<le> q * (c + 1) + sum_list ts" "q * (c + 1) + sum_list ts \<le> ?m + ?s"
    using Cons.IH [of "c + 1" q] Cons.prems q by auto
  then show ?case using r unfolding m n s sum_list.Cons by linarith
qed simp

text \<open>The sum of the past targets with the latest one counted twice.\<close>

definition weighted_sum :: "nat list \<Rightarrow> nat" where
  "weighted_sum ts = hd ts + sum_list ts"

lemma dgw_mean_24:
  assumes "length ts = 24" "\<forall>t \<in> set ts. t \<le> hi" "hi * 25 < 2 ^ 256"
  shows "25 * dgw_mean 1 0 ts \<le> weighted_sum ts \<and> weighted_sum ts \<le> 25 * dgw_mean 1 0 ts + 299"
proof -
  obtain t us where ts: "ts = t # us" "length us = 23" using assms(1) by (cases ts) auto
  have sum: "(\<Sum>i = 2..<25. i) = (299::nat)" by code_simp
  have "dgw_mean 2 t us * 25 \<le> t * 2 + sum_list us \<and> t * 2 + sum_list us \<le> dgw_mean 2 t us * 25 + 299"
    using dgw_mean_weighted [of us hi 2 t] assms(2,3) ts sum by simp
  then show ?thesis by (simp add: ts(1) weighted_sum_def numeral_2_eq_2)
qed

text \<open>
  C8. With at least 25 blocks and a network limit small enough that neither the weighted sum nor the scaled
  target can exceed 256 bits, Dark Gravity Wave returns a valid compact target. Let the mean be a 25th of the sum of the
  past 24 targets with the latest one counted twice, rounded down by less than 12 in all, and let the span be the time from the
  earliest of the 24 blocks to the latest, counted as at least a third and at most three times the intended 24 block spacings. The
  new target is the mean times the span divided by the intended span, capped at the limit and rounded down by a relative \<open>2 ^ -15\<close>
  at most for its compact form.
\<close>

theorem DarkGravityWave_exact:
  assumes "wf_store S" "S p = Some b" "24 \<le> nHeight b" "0 < nPowTargetSpacing params" "72 * nPowTargetSpacing params < 2 ^ 32"
    and "prev_iter S 23 p = Some q" "S q = Some first"
    and "\<forall>t \<in> set (past_targets S p 24). t \<le> hi"
    and "hi * 25 < 2 ^ 256" "hi * nat (72 * nPowTargetSpacing params) < 2 ^ 256"
  shows "\<exists>bits mean. DarkGravityWave S (Some p) params = Some bits \<and> snd (SetCompact bits) = (False, False) \<and>
    25 * mean \<le> weighted_sum (past_targets S p 24) \<and> weighted_sum (past_targets S p 24) \<le> 25 * mean + 299 \<and>
    (let T = 24 * nPowTargetSpacing params;
         span = min (3 * T) (max (T div 3) (GetBlockTime b - GetBlockTime first));
         new = min (limit_of params) (mean * nat span div nat T)
     in target_of bits \<le> new \<and> (new - target_of bits) * 2 ^ 15 \<le> target_of bits)"
proof -
  define T where "T = 24 * nPowTargetSpacing params"
  define mean where "mean = dgw_mean 1 0 (past_targets S p 24)"
  define span where "span = dgw_span T (GetBlockTime b - GetBlockTime first)"
  have len: "length (past_targets S p 24) = 24" by (simp add: past_targets_def)
  then have "past_targets S p 24 \<noteq> []" by auto
  then have "mean \<le> hi" using dgw_mean_bounds [of "past_targets S p 24" 0 hi 1 0] assms(8,9) len by (simp add: mean_def)
  moreover have "span \<le> 72 * nPowTargetSpacing params" using assms(4) by (simp add: span_def dgw_span_def T_def)
  ultimately have "mean * nat span \<le> hi * nat (72 * nPowTargetSpacing params)" by (intro mult_le_mono nat_mono)
  then have "mean * nat span mod 2 ^ 256 = mean * nat span" using assms(10) by (intro mod_less) linarith
  then have "encodes (DarkGravityWave S (Some p) params) (min (limit_of params) (mean * nat span div nat T))"
    using DarkGravityWave_val [OF assms(1-5)] by (simp only: T_def assms(6,7) option.sel mean_def span_def)
  moreover note dgw_mean_24 [OF len assms(8,9), folded mean_def]
  ultimately show ?thesis unfolding encodes_def T_def span_def dgw_span_def Let_def by blast
qed

text \<open>A chain of 25 blocks of the same difficulty, one per minute.\<close>

definition flat_block :: "u32 \<Rightarrow> nat \<Rightarrow> CBlockIndex" where
  "flat_block bits p = (demo_block (if p = 0 then None else Some (p - 1)) None (int p))\<lparr>nBits := bits, nTime := of_nat (60 * p)\<rparr>"

definition flat_store :: "u32 \<Rightarrow> block_store" where
  "flat_store bits p = (if p \<le> 24 then Some (flat_block bits p) else None)"

lemma flat_block_simps [simp]:
  "pprev (flat_block bits p) = (if p = 0 then None else Some (p - 1))" "pskip (flat_block bits p) = None"
  "nHeight (flat_block bits p) = int p" "nBits (flat_block bits p) = bits" "nTime (flat_block bits p) = of_nat (60 * p)"
  by (simp_all add: flat_block_def demo_block_def)

lemma wf_flat_store: "wf_store (flat_store bits)"
  by (auto simp: wf_store_def wf_entry_def flat_store_def split: if_splits)

lemma prev_iter_flat: "n \<le> p \<Longrightarrow> p \<le> 24 \<Longrightarrow> prev_iter (flat_store bits) n p = Some (p - n)"
  by (induction n arbitrary: p) (auto simp: flat_store_def)

lemma past_targets_flat: "past_targets (flat_store bits) 24 24 = replicate 24 (target_of bits)"
proof -
  have "past_targets (flat_store bits) 24 24 = map (\<lambda>i. target_of bits) [0..<24]"
    unfolding past_targets_def by (rule map_cong) (auto simp: prev_iter_flat, simp add: flat_store_def)
  then show ?thesis by (simp add: map_replicate_const)
qed

definition main_params :: pow_params where
  "main_params = \<lparr>powLimit = replicate 29 0xff @ [0x0f, 0, 0], fPowAllowMinDifficultyBlocks = False, fPowNoRetargeting = False,
     nPowTargetSpacing = 60, nPowTargetTimespan = 86400, nPowDGWHeight = 60, nMinimumDifficultyBlocks = 0\<rparr>"

lemma target_1e0fffff: "target_of 0x1e0fffff = 0x0fffff * 256 ^ 27"
  unfolding target_of_def val_SetCompact by simp

lemma weighted_flat: "weighted_sum (replicate 24 t) = 25 * t"
  by (simp add: weighted_sum_def sum_list_replicate)

text \<open>With 23 minutes between the first and the last of 24 blocks, the target shrinks by \<open>23 / 24\<close>.\<close>

theorem DarkGravityWave_exact_witness:
  "\<exists>bits mean. DarkGravityWave (flat_store 0x1e0fffff) (Some 24) main_params = Some bits \<and>
    snd (SetCompact bits) = (False, False) \<and>
    25 * mean \<le> 25 * (0x0fffff * 256 ^ 27) \<and> 25 * (0x0fffff * 256 ^ 27) \<le> 25 * mean + 299 \<and>
    (let new = min (limit_of main_params) (mean * 1380 div 1440)
     in target_of bits \<le> new \<and> (new - target_of bits) * 2 ^ 15 \<le> target_of bits)"
proof -
  have S: "flat_store 0x1e0fffff 24 = Some (flat_block 0x1e0fffff 24)" "flat_store 0x1e0fffff 1 = Some (flat_block 0x1e0fffff 1)"
    by (simp_all add: flat_store_def)
  have sp: "nPowTargetSpacing main_params = 60" by (simp add: main_params_def)
  have q: "prev_iter (flat_store 0x1e0fffff) 23 24 = Some 1" by (simp add: prev_iter_flat)
  have t: "GetBlockTime (flat_block 0x1e0fffff 24) - GetBlockTime (flat_block 0x1e0fffff (Suc 0)) = 1380" by (simp add: GetBlockTime_def)
  show ?thesis
    using DarkGravityWave_exact [OF wf_flat_store S(1), of main_params 1 "flat_block 0x1e0fffff 1" "0x0fffff * 256 ^ 27"] S(2) q
    by (simp add: sp past_targets_flat target_1e0fffff weighted_flat t Let_def)
qed

section \<open>The limit of the test networks\<close>

text \<open>
  The test networks set the limit to \<open>2 ^ 255 - 1\<close>, so the product of a target near the limit with the number
  of blocks, or with the constant 10, exceeds 256 bits.
\<close>

definition test_params :: pow_params where
  "test_params = \<lparr>powLimit = replicate 31 0xff @ [0x7f], fPowAllowMinDifficultyBlocks = True, fPowNoRetargeting = False,
     nPowTargetSpacing = 60, nPowTargetTimespan = 86400, nPowDGWHeight = 0, nMinimumDifficultyBlocks = 0\<rparr>"

text \<open>
  C9. Whatever the past targets, Dark Gravity Wave returns a valid compact target: the running mean times the clamped span, reduced modulo
  \<open>2 ^ 256\<close>, divided by the intended span, capped at the network limit and rounded down by a relative \<open>2 ^ -15\<close> at most. So it never
  exceeds the limit, and it never exceeds \<open>2 ^ 256\<close> divided by the intended span in seconds: on a network whose limit is
  \<open>2 ^ 255 - 1\<close> with one-minute blocks it cannot return a target above a 720th of the limit, even if all past blocks have the limit
  as target and came at the intended pace.
\<close>

theorem DarkGravityWave_cap:
  assumes "wf_store S" "S p = Some b" "24 \<le> nHeight b" "0 < nPowTargetSpacing params" "72 * nPowTargetSpacing params < 2 ^ 32"
    and "prev_iter S 23 p = Some q" "S q = Some first"
  shows "\<exists>bits. DarkGravityWave S (Some p) params = Some bits \<and> snd (SetCompact bits) = (False, False) \<and>
    target_of bits \<le> limit_of params \<and>
    target_of bits * nat (24 * nPowTargetSpacing params) < 2 ^ 256 \<and>
    (let T = 24 * nPowTargetSpacing params;
         span = min (3 * T) (max (T div 3) (GetBlockTime b - GetBlockTime first));
         new = min (limit_of params) ((dgw_mean 1 0 (past_targets S p 24) * nat span) mod 2 ^ 256 div nat T)
     in target_of bits \<le> new \<and> (new - target_of bits) * 2 ^ 15 \<le> target_of bits)"
proof -
  define T where "T = 24 * nPowTargetSpacing params"
  define x where "x = dgw_mean 1 0 (past_targets S p 24) * nat (min (3 * T) (max (T div 3) (GetBlockTime b - GetBlockTime first)))"
  obtain bits where b: "DarkGravityWave S (Some p) params = Some bits" "snd (SetCompact bits) = (False, False)"
      "target_of bits \<le> min (limit_of params) (x mod 2 ^ 256 div nat T)"
      "(min (limit_of params) (x mod 2 ^ 256 div nat T) - target_of bits) * 2 ^ 15 \<le> target_of bits"
    using DarkGravityWave_val [OF assms(1-5)] unfolding encodes_def x_def T_def assms(6,7) option.sel dgw_span_def by blast
  have "0 < nat T" using assms(4) by (simp add: T_def)
  then have "target_of bits * nat T \<le> x mod 2 ^ 256" using b(3) by (simp only: less_eq_div_iff_mult_less_eq min.bounded_iff)
  also have "\<dots> < 2 ^ 256" by (rule mod_less_divisor) simp
  finally have "target_of bits * nat T < 2 ^ 256" .
  moreover have "target_of bits \<le> limit_of params" using b(3) by (simp only: min.bounded_iff)
  ultimately show ?thesis using b unfolding Let_def T_def x_def by blast
qed

lemma target_207fffff: "target_of 0x207fffff = 0x7fffff * 256 ^ 29"
  unfolding target_of_def val_SetCompact by simp

theorem DarkGravityWave_cap_witness:
  "\<exists>bits. DarkGravityWave (flat_store 0x207fffff) (Some 24) test_params = Some bits \<and>
    700 * target_of bits < target_of 0x207fffff"
proof -
  have S': "flat_store 0x207fffff 1 = Some (flat_block 0x207fffff 1)" by (simp add: flat_store_def)
  have q: "prev_iter (flat_store 0x207fffff) 23 24 = Some 1" by (simp add: prev_iter_flat)
  have S: "flat_store 0x207fffff 24 = Some (flat_block 0x207fffff 24)" by (simp add: flat_store_def)
  have sp: "nPowTargetSpacing test_params = 60" by (simp add: test_params_def)
  obtain bits where "DarkGravityWave (flat_store 0x207fffff) (Some 24) test_params = Some bits" "target_of bits * 1440 < 2 ^ 256"
    using DarkGravityWave_cap [OF wf_flat_store S _ _ _ q S', of test_params, unfolded sp] by fastforce
  moreover from this(2) have "700 * target_of bits < 0x7fffff * 256 ^ 29" by simp
  ultimately show ?thesis using target_207fffff by auto
qed

section \<open>The interval rule\<close>

text \<open>
  The rule for one difficulty change per interval scales the last target by the measured time, which
  counts between a quarter and four times the intended time, caps it at the limit, and returns a valid compact
  target, provided the scaled target fits 256 bits.
\<close>

theorem CalculateNextWorkRequired_exact:
  assumes "\<not> fPowNoRetargeting params" "0 < nPowTargetTimespan params" "nPowTargetTimespan params * 4 < 2 ^ 32"
    and "target_of (nBits b) * nat (nPowTargetTimespan params * 4) < 2 ^ 256"
  shows "\<exists>bits span. CalculateNextWorkRequired b t0 params = Some bits \<and> snd (SetCompact bits) = (False, False) \<and>
    span = min (4 * nPowTargetTimespan params) (max (nPowTargetTimespan params div 4) (GetBlockTime b - t0)) \<and>
    (let new = min (limit_of params) (target_of (nBits b) * nat span div nat (nPowTargetTimespan params))
     in target_of bits \<le> new \<and> (new - target_of bits) * 2 ^ 15 \<le> target_of bits)"
proof -
  let ?T = "nPowTargetTimespan params" and ?a = "GetBlockTime b - t0"
  define span where "span = min (4 * ?T) (max (?T div 4) ?a)"
  let ?s = "if ?a < ?T sdiv 4 then ?T sdiv 4 else ?a"
  have sp: "(if ?s > ?T * 4 then ?T * 4 else ?s) = span"
    using assms(2) by (auto simp: span_def sdiv_nonneg)
  have r: "0 \<le> span" "span < 2 ^ 32" "?T < 2 ^ 64" using assms(2,3) by (auto simp: span_def)
  have "span \<le> ?T * 4" by (simp add: span_def)
  then have "target_of (nBits b) * nat span \<le> target_of (nBits b) * nat (?T * 4)" by (intro mult_le_mono2 nat_mono)
  then have m: "target_of (nBits b) * nat span mod 2 ^ 256 = target_of (nBits b) * nat span"
    using assms(4) by (intro mod_less) linarith
  have "CalculateNextWorkRequired b t0 params =
      do { bnNew \<leftarrow> no_throw (uint_div (uint_mul32 (fst (SetCompact (nBits b))) (of_int span)) (uint_of_u64 (of_int ?T)));
           compact (if uint_gt bnNew (UintToArith256 (powLimit params)) then UintToArith256 (powLimit params) else bnNew) }"
    by (simp only: CalculateNextWorkRequired_def assms(1) if_False Let_def sp)
  then have "encodes (CalculateNextWorkRequired b t0 params) (min (limit_of params) (target_of (nBits b) * nat span div nat ?T))"
    using scale_limit [OF wf_SetCompact r(1,2) assms(2) r(3), of "nBits b" params, folded target_of_def, unfolded m] by auto
  then show ?thesis unfolding encodes_def Let_def span_def by blast
qed

theorem CalculateNextWorkRequired_exact_witness:
  "\<exists>bits. CalculateNextWorkRequired (flat_block 0x1e0fffff 24) 0 main_params = Some bits \<and> snd (SetCompact bits) = (False, False)"
  using CalculateNextWorkRequired_exact [of main_params "flat_block 0x1e0fffff 24" 0]
  by (auto simp: main_params_def target_1e0fffff)

text \<open>
  From the height on at which Dark Gravity Wave applies, the required difficulty of a block with at least 24
  predecessors is always a valid compact target not above the network limit.
\<close>

theorem GetNextWorkRequired_limit:
  assumes "wf_store S" "S p = Some b" "24 \<le> nHeight b" "0 < nPowTargetSpacing params" "72 * nPowTargetSpacing params < 2 ^ 32"
    and "nPowDGWHeight params \<le> nHeight b + 1"
  shows "\<exists>bits. GetNextWorkRequired S p pblock params = Some bits \<and> snd (SetCompact bits) = (False, False) \<and>
    target_of bits \<le> limit_of params"
proof -
  define x where "x = (let bnNew = uint_mul32 (fst (SetCompact (nBits b))) 10; L = UintToArith256 (powLimit params)
      in if uint_gt bnNew L then L else bnNew)"
  have le: "encodes r n \<Longrightarrow> n \<le> limit_of params \<Longrightarrow>
      \<exists>bits. r = Some bits \<and> snd (SetCompact bits) = (False, False) \<and> target_of bits \<le> limit_of params" for r n
    by (auto simp: encodes_def)
  have "wf_uint x" "uval x \<le> limit_of params"
    by (auto simp: x_def Let_def uint_gt_val limit_of_def)
  note x = le [OF compact_encodes [OF this(1)] this(2)]
  note dgw = le [OF DarkGravityWave_val [OF assms(1-5)] min.cobounded1]
  note lim = le [OF limit_encodes order_refl]
  have "GetNextWorkRequired S p pblock params \<in>
      {compact (UintToArith256 (powLimit params)), compact x, DarkGravityWave S (Some p) params}"
    using assms(2,6) by (simp add: GetNextWorkRequired_def Let_def x_def)
  then show ?thesis using x dgw lim by auto
qed

theorem GetNextWorkRequired_limit_witness:
  "\<exists>bits. GetNextWorkRequired (flat_store 0x207fffff) 24 header_SetNull test_params = Some bits \<and>
    snd (SetCompact bits) = (False, False) \<and> target_of bits \<le> limit_of test_params"
proof -
  have "flat_store 0x207fffff 24 = Some (flat_block 0x207fffff 24)" by (simp add: flat_store_def)
  then show ?thesis
    using GetNextWorkRequired_limit [OF wf_flat_store, of "0x207fffff" 24 "flat_block 0x207fffff 24" test_params header_SetNull]
    by (simp add: test_params_def)
qed

end
