(* ===== verification/Script_Num.thy ===== *)
theory Script_Num
  imports Byte_Order
begin

text \<open>
  Model of the numbers of the script language: \<^verbatim>\<open>CScriptNum\<close> in \<^verbatim>\<open>src/src/script/script.h\<close> and its minimal
  encodings in \<^verbatim>\<open>src/src/script/script.cpp\<close>. A number is an \<open>int\<close> in the range of \<^verbatim>\<open>int64_t\<close>; on the stack it
  is a byte string in little-endian order with the sign in the top bit of the last byte. The lemmas
  relate the loops on 64-bit words to that value and show that encoding and decoding are inverse to each other
  on minimal encodings, and that \<^verbatim>\<open>MinimallyEncode\<close> shortens a string without changing its value.
\<close>

unbundle bit_operations_syntax

section \<open>The model\<close>

datatype scriptnum_error = Script_number_overflow | Non_minimally_encoded

definition nDefaultMaxNumSize :: nat where
  "nDefaultMaxNumSize = 4"

definition IsMinimallyEncoded :: "byte list \<Rightarrow> nat \<Rightarrow> bool" where
  "IsMinimallyEncoded vch nMaxNumSize =
    (if length vch > nMaxNumSize then False
     else if length vch > 0 then
       (if last vch AND 0x7f = 0
        then (if length vch \<le> 1 \<or> vch ! (length vch - 2) AND 0x80 = 0 then False else True)
        else True)
     else True)"

fun set_vch_loop :: "u64 \<Rightarrow> nat \<Rightarrow> byte list \<Rightarrow> u64" where
  "set_vch_loop result i [] = result"
| "set_vch_loop result i (b # bs) = set_vch_loop (result OR push_bit (8 * i) (ucast b)) (i + 1) bs"

definition set_vch :: "byte list \<Rightarrow> int" where
  "set_vch vch =
    (if vch = [] then 0
     else let result = set_vch_loop 0 0 vch
          in if last vch AND 0x80 \<noteq> 0
             then - sint (result AND NOT (push_bit (8 * (length vch - 1)) 0x80))
             else sint result)"

definition CScriptNum :: "byte list \<Rightarrow> bool \<Rightarrow> nat \<Rightarrow> scriptnum_error + int" where
  "CScriptNum vch fRequireMinimal nMaxNumSize =
    (if length vch > nMaxNumSize then Inl Script_number_overflow
     else if fRequireMinimal \<and> \<not> IsMinimallyEncoded vch nMaxNumSize then Inl Non_minimally_encoded
     else Inr (set_vch vch))"

function serialize_loop :: "u64 \<Rightarrow> byte list" where
  "serialize_loop absvalue = (if absvalue = 0 then [] else ucast absvalue # serialize_loop (drop_bit 8 absvalue))"
  by pat_completeness auto
termination
proof (relation "measure unat")
  fix x :: u64
  assume "x \<noteq> 0"
  then have "unat x \<noteq> 0" by (simp add: unat_eq_zero)
  then show "(drop_bit 8 x, x) \<in> measure unat" by (simp add: unat_drop_bit_nat)
qed simp

declare serialize_loop.simps [simp del]

definition num_serialize :: "int \<Rightarrow> byte list" where
  "num_serialize n =
    (if n = 0 then []
     else let neg = n < 0;
              absvalue = (if neg then NOT (word_of_int n) + 1 else word_of_int n) :: u64;
              result = serialize_loop absvalue
          in if last result AND 0x80 \<noteq> 0 then result @ [if neg then 0x80 else 0]
             else if neg then butlast result @ [last result OR 0x80]
             else result)"

definition getint :: "int \<Rightarrow> int" where
  "getint n = (if n > 2147483647 then 2147483647 else if n < -2147483648 then -2147483648 else n)"

definition num_neg :: "int \<Rightarrow> int option" where
  "num_neg n = (if n = - (2 ^ 63) then None else Some (- n))"

definition num_add :: "int \<Rightarrow> int \<Rightarrow> int option" where
  "num_add n rhs =
    (if rhs = 0 \<or> (rhs > 0 \<and> n \<le> (2 ^ 63 - 1) - rhs) \<or> (rhs < 0 \<and> n \<ge> - (2 ^ 63) - rhs)
     then Some (n + rhs) else None)"

definition num_sub :: "int \<Rightarrow> int \<Rightarrow> int option" where
  "num_sub n rhs =
    (if rhs = 0 \<or> (rhs > 0 \<and> n \<ge> - (2 ^ 63) + rhs) \<or> (rhs < 0 \<and> n \<le> (2 ^ 63 - 1) + rhs)
     then Some (n - rhs) else None)"

text \<open>
  \<open>MinimallyEncode\<close> returns whether it changed its argument, and the argument afterwards. Its loop looks for
  the highest non-zero byte below the sign byte.
\<close>

fun MinimallyEncode_loop :: "byte list \<Rightarrow> byte \<Rightarrow> nat \<Rightarrow> byte list" where
  "MinimallyEncode_loop d lst 0 = []"
| "MinimallyEncode_loop d lst (Suc i) =
    (if d ! i \<noteq> 0 then
       (if d ! i AND 0x80 \<noteq> 0 then take (Suc i + 1) (d[Suc i := lst])
        else take (Suc i) (d[i := d ! i OR lst]))
     else MinimallyEncode_loop d lst i)"

definition MinimallyEncode :: "byte list \<Rightarrow> bool \<times> byte list" where
  "MinimallyEncode d =
    (if length d = 0 then (False, d)
     else let lst = last d
          in if lst AND 0x7f \<noteq> 0 then (False, d)
             else if length d = 1 then (True, [])
             else if d ! (length d - 2) AND 0x80 \<noteq> 0 then (False, d)
             else (True, MinimallyEncode_loop d lst (length d - 1)))"

section \<open>Sign and magnitude\<close>

lemma sign_byte_or:
  assumes "unat (b :: byte) < 128" "unat (s :: byte) mod 128 = 0"
  shows "unat (b OR s) mod 128 = unat b \<and> (unat (b OR s) < 128 \<longleftrightarrow> unat s < 128)"
proof (cases "unat s < 128")
  case True
  then have "s = 0" using assms(2) by (simp add: unat_eq_zero)
  then show ?thesis using assms(1) by simp
next
  case False
  then have "unat s = 128" using assms(2) byte_mod_128 [of s] by simp
  then have "s = 0x80" by (simp add: word_unat_eq_iff)
  then show ?thesis using unat_or_80 [OF assms(1)] assms(1) by simp
qed

text \<open>The value of a byte string: the last byte holds the sign.\<close>

definition sm_value :: "byte list \<Rightarrow> int" where
  "sm_value vch =
    (if vch = [] then 0
     else let m = int (le_nat (butlast vch) + 256 ^ (length vch - 1) * (unat (last vch) mod 128))
          in if unat (last vch) < 128 then m else - m)"

lemma sm_value_snoc [simp]:
  "sm_value (xs @ [b]) =
    (if unat b < 128 then 1 else - 1) * int (le_nat xs + 256 ^ length xs * (unat b mod 128))"
  by (simp add: sm_value_def)

lemma sm_value_Nil [simp]: "sm_value [] = 0"
  by (simp add: sm_value_def)

section \<open>Decoding\<close>

text \<open>The bits of the accumulator above the processed bytes are zero, so the disjunction is a sum.\<close>

lemma byte_digit_less: "r < 256 ^ i \<Longrightarrow> r + 256 ^ i * unat (b :: byte) < 256 ^ Suc i"
proof -
  assume "r < 256 ^ i"
  moreover have "unat b \<le> 255" using unat_byte_less [of b] by linarith
  then have "256 ^ i * unat b \<le> 256 ^ i * (255::nat)" by (rule mult_le_mono2)
  ultimately show ?thesis unfolding power_Suc by linarith
qed

lemma or_push_byte:
  assumes "unat (r :: u64) < 256 ^ i" "i < 8"
  shows "unat (r OR push_bit (8 * i) (ucast (b :: byte))) = unat r + 256 ^ i * unat b"
proof -
  have p: "(256::nat) ^ i = 2 ^ (8 * i)" by (simp add: power_mult)
  have "\<not> bit r k" if "8 * i \<le> k" for k
  proof -
    have "(2::nat) ^ (8 * i) \<le> 2 ^ k" using that by (intro power_increasing) simp_all
    then have "unat r < 2 ^ k" using assms(1) p by linarith
    then show ?thesis using bit_ge [of "unat r" k] by (auto simp: bit_unsigned_iff dest: bit_imp_le_length)
  qed
  then have "r AND push_bit (8 * i) (ucast b) = 0"
    by (intro bit_eqI) (auto simp: bit_and_iff bit_push_bit_iff)
  then have sum: "r OR push_bit (8 * i) (ucast b) = r + push_bit (8 * i) (ucast b)"
    by (simp add: disjunctive_add_eq_or)
  have "unat b < 2 ^ 64" by (rule less_trans [OF unat_byte_less]) simp
  then have "unat (ucast b :: u64) = unat b" by (simp add: unsigned_ucast_eq take_bit_nat_eq_self)
  moreover have le: "unat r + 256 ^ i * unat b < 256 ^ Suc i" using byte_digit_less [OF assms(1)] .
  moreover have "(256::nat) ^ Suc i \<le> 256 ^ 8" using assms(2) by (intro power_increasing) simp_all
  ultimately have "unat (push_bit (8 * i) (ucast b :: u64)) = 256 ^ i * unat b"
    by (simp add: unsigned_push_bit_eq push_bit_eq_mult [where 'a = nat] take_bit_nat_eq_self p mult.commute)
  then show ?thesis
    unfolding sum using le \<open>256 ^ Suc i \<le> 256 ^ 8\<close> by (subst unat_plus_no_overflow) simp_all
qed

lemma set_vch_loop_val:
  assumes "unat r < 256 ^ i" "i + length bs \<le> 8"
  shows "unat (set_vch_loop r i bs) = unat r + 256 ^ i * le_nat bs"
  using assms
proof (induction bs arbitrary: r i)
  case (Cons b bs)
  have s: "unat (r OR push_bit (8 * i) (ucast b)) = unat r + 256 ^ i * unat b"
    using Cons.prems by (intro or_push_byte) simp_all
  moreover have "unat r + 256 ^ i * unat b < 256 ^ Suc i"
    using byte_digit_less [OF Cons.prems(1)] .
  ultimately show ?case using Cons.IH [of "r OR push_bit (8 * i) (ucast b)" "Suc i"] Cons.prems(2)
    by (simp add: algebra_simps)
qed simp

lemma sint_u64_small: "unat (w :: u64) < 2 ^ 63 \<Longrightarrow> sint w = int (unat w)"
proof -
  assume "unat w < 2 ^ 63"
  then have less: "int (unat w) < 2 ^ 63" by (metis of_nat_less_iff of_nat_numeral of_nat_power)
  have u: "uint w = int (unat w)" by simp
  have "- (2 ^ 63) \<le> int (unat w)" by (rule order_trans [OF _ of_nat_0_le_iff]) simp
  then have "signed_take_bit 63 (int (unat w)) = int (unat w)" using less by (rule signed_take_bit_int_eq_self)
  moreover have "sint w = signed_take_bit 63 (uint w)" by (simp only: sint_uint len_bit0 len_num1) simp
  ultimately show ?thesis by (simp only: u)
qed

text \<open>Clearing a bit that is set subtracts its weight.\<close>

lemma unat_clear_bit:
  assumes "bit (w :: u64) k"
  shows "unat (w AND NOT (push_bit k 1)) = unat w - 2 ^ k"
proof -
  define m where "m = (push_bit k 1 :: u64)"
  have m: "bit m n \<longleftrightarrow> n = k" if "n < 64" for n
    using that assms bit_imp_le_length [of w k] by (simp only: m_def bit_push_bit_iff bit_1_iff) auto
  have k: "k < 64" using assms bit_imp_le_length by fastforce
  have "(w AND NOT m) AND m = 0" by (rule bit_eqI) (auto simp: bit_and_iff bit_not_iff)
  then have sum: "(w AND NOT m) + m = (w AND NOT m) OR m" by (rule disjunctive_add_eq_or)
  have "(w AND NOT m) OR m = w"
  proof (rule bit_eqI)
    fix n assume "possible_bit TYPE(64 word) n"
    then have "n < 64" by simp
    then show "bit ((w AND NOT m) OR m) n \<longleftrightarrow> bit w n"
      using m assms by (auto simp: bit_or_iff bit_and_iff bit_not_iff)
  qed
  with sum have "w AND NOT m = w - m" by (simp add: eq_diff_eq)
  moreover have "(2::nat) ^ k < 2 ^ 64" using k by (intro power_strict_increasing) simp_all
  then have u: "unat m = 2 ^ k"
    unfolding m_def by (simp only: unsigned_push_bit_eq push_bit_eq_mult [where 'a = nat] unsigned_1 mult_1
        take_bit_nat_eq_self len_bit0 len_num1) (use k in simp)
  moreover have "2 ^ k \<le> unat w" using assms k by (intro bit_ge) (simp add: bit_unsigned_iff)
  ultimately show ?thesis unfolding m_def [symmetric] by (simp only: unat_sub word_le_nat_alt)
qed

lemma pow256_le: "k \<le> 8 \<Longrightarrow> (256::nat) ^ k \<le> 2 ^ 64"
  using power_increasing [of k 8 "256::nat"] by simp

lemma two_power_ne: "(2::nat) ^ k \<noteq> 0"
  by simp

lemma set_vch_val:
  assumes "length vch \<le> 8"
  shows "set_vch vch = sm_value vch"
proof (cases vch rule: rev_cases)
  case (snoc xs b)
  let ?n = "length xs" and ?r = "set_vch_loop 0 0 vch"
  have n: "?n \<le> 7" using assms snoc by simp
  have r: "unat ?r = le_nat xs + 256 ^ ?n * unat b"
    using set_vch_loop_val [of 0 0 vch] assms snoc by (simp add: le_nat_append)
  have xs: "le_nat xs < 256 ^ ?n" by (rule le_nat_less)
  have p: "(256::nat) ^ ?n * 128 = 2 ^ (8 * ?n + 7)" by (simp add: power_add power_mult)
  have "(256::nat) ^ ?n \<le> 256 ^ 7" using n by (intro power_increasing) simp_all
  then have q: "(256::nat) ^ ?n * 128 \<le> 2 ^ 63" by simp
  have low: "le_nat xs + 256 ^ ?n * m < 2 ^ 63" if "m < 128" for m
  proof -
    have "256 ^ ?n * m \<le> 256 ^ ?n * (127::nat)" using that by (intro mult_le_mono2) simp
    then show ?thesis using xs q by linarith
  qed
  show ?thesis
  proof (cases "unat b < 128")
    case True
    then show ?thesis using snoc r low [OF True] by (simp add: set_vch_def and_80_eq_0 sint_u64_small)
  next
    case False
    then have b: "unat b = 128 + unat b mod 128" by (simp add: byte_mod_128)
    have m: "push_bit (8 * ?n) 0x80 = (push_bit (8 * ?n + 7) 1 :: u64)"
      by (simp add: push_bit_eq_mult power_add)
    have e: "unat ?r = (le_nat xs + 256 ^ ?n * (unat b mod 128)) + 2 ^ (8 * ?n + 7)"
      unfolding r p [symmetric] by (subst b) (simp only: distrib_left add.assoc add.commute [of "256 ^ ?n * 128"])
    have l: "le_nat xs + 256 ^ ?n * (unat b mod 128) < 2 ^ (8 * ?n + 7)"
    proof -
      have "unat b mod 128 < 128" by simp
      then have "256 ^ ?n * (unat b mod 128) \<le> 256 ^ ?n * (127::nat)" by (intro mult_le_mono2) linarith
      then show ?thesis using xs p by linarith
    qed
    have "bit (unat ?r) (8 * ?n + 7)" unfolding e bit_iff_odd by (simp only: div_add_self2 [OF two_power_ne] div_less [OF l]) simp
    then have "bit ?r (8 * ?n + 7)" using n by (simp add: bit_unsigned_iff)
    then have "unat (?r AND NOT (push_bit (8 * ?n) 0x80)) = le_nat xs + 256 ^ ?n * (unat b mod 128)"
      unfolding m by (simp only: unat_clear_bit e add_diff_cancel_right')
    then show ?thesis using snoc False low [of "unat b mod 128"] by (simp add: set_vch_def and_80_eq_0 sint_u64_small)
  qed
qed (simp add: set_vch_def)

section \<open>Encoding\<close>

lemma serialize_loop_val:
  "le_nat (serialize_loop w) = unat w"
  "w \<noteq> 0 \<Longrightarrow> serialize_loop w \<noteq> [] \<and> last (serialize_loop w) \<noteq> 0"
proof (induction w rule: serialize_loop.induct)
  case (1 w)
  have low: "unat (ucast w :: byte) = unat w mod 256" by (simp only: unsigned_ucast_eq take_bit_eq_mod) simp
  have hi: "unat (drop_bit 8 w) = unat w div 256" by (simp add: unat_drop_bit_nat)
  { case 1
    show ?case
      using "1.IH"(1) low hi mod_mult_div_eq [of "unat w" 256]
      by (subst serialize_loop.simps) (simp add: unat_eq_zero)
  next
    case 2
    show ?case
    proof (cases "drop_bit 8 w = 0")
      case True
      then have "unat w < 256" using hi by simp
      then have "ucast w \<noteq> (0 :: byte)" using 2 low by (metis mod_less unat_eq_zero unsigned_0)
      then show ?thesis using 2 True by (subst (1 2) serialize_loop.simps) (simp add: serialize_loop.simps)
    next
      case False
      then show ?thesis using "1.IH"(2) 2 by (subst (1 2) serialize_loop.simps) simp
    qed
  }
qed

lemma unat_abs:
  assumes "n \<noteq> 0" "- (2 ^ 63) < n" "n < 2 ^ 63"
  shows "unat ((if n < 0 then NOT (word_of_int n) + 1 else word_of_int n) :: u64) = nat \<bar>n\<bar>"
proof -
  have "NOT x + 1 = - x" for x :: u64 by (rule minus_eq_not_plus_1 [symmetric])
  then have "NOT (word_of_int n) + 1 = (word_of_int (- n) :: u64)" by simp
  then have "(if n < 0 then NOT (word_of_int n) + 1 else word_of_int n) = (word_of_int \<bar>n\<bar> :: u64)" by simp
  moreover have "\<bar>n\<bar> < 2 ^ 64" using assms(2,3) by simp
  then have "unat (word_of_int \<bar>n\<bar> :: u64) = nat \<bar>n\<bar>"
    by (simp add: unat_eq_nat_uint uint_word_of_int_eq take_bit_int_eq_self)
  ultimately show ?thesis by simp
qed

text \<open>The three cases of the sign byte.\<close>

lemma num_serialize_cases:
  assumes "n \<noteq> 0" "- (2 ^ 63) < n" "n < 2 ^ 63"
  obtains xs b where "b \<noteq> 0" "le_nat (xs @ [b]) = nat \<bar>n\<bar>"
    "num_serialize n = (if 128 \<le> unat b then xs @ [b] @ [if n < 0 then 0x80 else 0]
                        else if n < 0 then xs @ [b OR 0x80] else xs @ [b])"
proof -
  define w where "w = ((if n < 0 then NOT (word_of_int n) + 1 else word_of_int n) :: u64)"
  have w: "unat w = nat \<bar>n\<bar>" using unat_abs [OF assms] by (simp add: w_def)
  then have "w \<noteq> 0" using assms(1) by auto
  then obtain xs b where b: "serialize_loop w = xs @ [b]" "b \<noteq> 0"
    using serialize_loop_val(2) [of w] by (metis append_butlast_last_id)
  have "num_serialize n = (if last (serialize_loop w) AND 0x80 \<noteq> 0 then serialize_loop w @ [if n < 0 then 0x80 else 0]
      else if n < 0 then butlast (serialize_loop w) @ [last (serialize_loop w) OR 0x80] else serialize_loop w)"
    using assms(1) by (simp only: num_serialize_def w_def Let_def if_False)
  then have "num_serialize n = (if 128 \<le> unat b then xs @ [b] @ [if n < 0 then 0x80 else 0]
                        else if n < 0 then xs @ [b OR 0x80] else xs @ [b])"
    using b(1) by (simp add: and_80_eq_0 not_less)
  then show thesis using that b serialize_loop_val(1) [of w] w by simp
qed

lemma num_serialize_value:
  assumes "- (2 ^ 63) < n" "n < 2 ^ 63"
  shows "sm_value (num_serialize n) = n"
proof (cases "n = 0")
  case False
  then obtain xs b where b: "b \<noteq> 0" "le_nat (xs @ [b]) = nat \<bar>n\<bar>"
    and e: "num_serialize n = (if 128 \<le> unat b then xs @ [b] @ [if n < 0 then 0x80 else 0]
                        else if n < 0 then xs @ [b OR 0x80] else xs @ [b])"
    using num_serialize_cases assms by metis
  have v: "int (le_nat xs + 256 ^ length xs * unat b) = \<bar>n\<bar>" using b(2) by (simp add: le_nat_append)
  show ?thesis
  proof (cases "128 \<le> unat b")
    case True
    then have "num_serialize n = (xs @ [b]) @ [if n < 0 then 0x80 else 0]" using e by simp
    then show ?thesis using v by (simp only: sm_value_snoc) (auto simp: le_nat_append)
  next
    case False
    then have "unat (b OR 0x80) mod 128 = unat b" "\<not> unat (b OR 0x80) < 128" by (simp_all add: unat_or_80)
    then show ?thesis using e v False by (cases "n < 0") (simp_all del: of_nat_add of_nat_mult)
  qed
qed (simp add: num_serialize_def)

lemma num_serialize_minimal:
  assumes "- (2 ^ 63) < n" "n < 2 ^ 63" "length (num_serialize n) \<le> k"
  shows "IsMinimallyEncoded (num_serialize n) k"
proof (cases "n = 0")
  case False
  then obtain xs b where b: "b \<noteq> 0"
    and e: "num_serialize n = (if 128 \<le> unat b then xs @ [b] @ [if n < 0 then 0x80 else 0]
                        else if n < 0 then xs @ [b OR 0x80] else xs @ [b])"
    using num_serialize_cases assms by metis
  have "unat b \<noteq> 0" using b by (simp add: unat_eq_zero)
  then show ?thesis using assms(3) unfolding e
    by (auto simp: IsMinimallyEncoded_def and_7f_eq_0 and_80_eq_0 unat_or_80 nth_append)
qed (simp add: num_serialize_def IsMinimallyEncoded_def)

lemma length_num_serialize:
  assumes "- (2 ^ 63) < n" "n < 2 ^ 63"
  shows "length (num_serialize n) \<le> 8"
proof (cases "n = 0")
  case False
  then obtain xs b where b: "b \<noteq> 0" "le_nat (xs @ [b]) = nat \<bar>n\<bar>"
    and e: "num_serialize n = (if 128 \<le> unat b then xs @ [b] @ [if n < 0 then 0x80 else 0]
                        else if n < 0 then xs @ [b OR 0x80] else xs @ [b])"
    using num_serialize_cases assms by metis
  have "nat \<bar>n\<bar> < 2 ^ 63" using assms by (simp add: nat_less_iff)
  then have less: "256 ^ length xs * unat b < 2 ^ 63" using b(2) by (simp add: le_nat_append)
  have k: "length xs < m" if "256 ^ length xs < (256::nat) ^ m" for m
    using that by (simp add: power_strict_increasing_iff)
  show ?thesis
  proof (cases "128 \<le> unat b")
    case True
    then have "256 ^ length xs * 128 < (2::nat) ^ 63"
      using mult_le_mono2 [OF True, of "256 ^ length xs"] less by linarith
    then have "length xs < 7" by (intro k) simp
    then show ?thesis using e True by simp
  next
    case False
    have "1 \<le> unat b" using b(1) by (simp add: Suc_le_eq unat_gt_0)
    then have "256 ^ length xs < (2::nat) ^ 63"
      using mult_le_mono2 [of 1 "unat b" "256 ^ length xs"] less by linarith
    then have "length xs < 8" by (intro k) simp
    then show ?thesis using e False by simp
  qed
qed (simp add: num_serialize_def)

text \<open>
  C10. Every script number of 64 bits except the smallest is encoded in at most eight bytes, minimally, and
  decoding the encoding returns the number.
\<close>

theorem scriptnum_roundtrip:
  assumes "- (2 ^ 63) < n" "n < 2 ^ 63"
  shows "length (num_serialize n) \<le> 8 \<and> IsMinimallyEncoded (num_serialize n) 8 \<and>
    CScriptNum (num_serialize n) True 8 = Inr n"
  using assms length_num_serialize [OF assms] num_serialize_minimal [OF assms length_num_serialize [OF assms]]
    set_vch_val [of "num_serialize n"] num_serialize_value [OF assms]
  by (simp add: CScriptNum_def)

theorem scriptnum_roundtrip_witness:
  "length (num_serialize (-255)) \<le> 8 \<and> IsMinimallyEncoded (num_serialize (-255)) 8 \<and>
    CScriptNum (num_serialize (-255)) True 8 = Inr (-255)"
  using scriptnum_roundtrip [of "-255"] by simp

section \<open>Minimal encodings are unique\<close>

definition magnitude :: "byte list \<Rightarrow> nat" where
  "magnitude vch = nat \<bar>sm_value vch\<bar>"

lemma nat_abs_sign: "nat \<bar>(if P then 1 else - 1) * int m\<bar> = m"
  by simp

lemma sign_eq: "(if P then 1 else - 1) * int m = (if Q then 1 else - 1) * int m \<Longrightarrow> 0 < m \<Longrightarrow> P = Q"
  by (auto split: if_splits)

lemma magnitude_snoc: "magnitude (xs @ [b]) = le_nat xs + 256 ^ length xs * (unat b mod 128)"
  by (simp only: magnitude_def sm_value_snoc nat_abs_sign)

lemma magnitude_less: "magnitude (xs @ [b]) < 128 * 256 ^ length xs"
proof -
  have "unat b mod 128 < 128" by simp
  then have "256 ^ length xs * (unat b mod 128) \<le> 256 ^ length xs * 127" by (intro mult_le_mono2) linarith
  then show ?thesis unfolding magnitude_snoc using le_nat_less [of xs] by linarith
qed

lemma IsMinimallyEncoded_snoc:
  "IsMinimallyEncoded (xs @ [b]) k \<longleftrightarrow> length xs < k \<and>
    (unat b mod 128 \<noteq> 0 \<or> (\<exists>ys c. xs = ys @ [c] \<and> 128 \<le> unat c))"
  by (cases xs rule: rev_cases) (auto simp: IsMinimallyEncoded_def and_7f_eq_0 and_80_eq_0 nth_append)

lemma minimal_bounds:
  assumes "IsMinimallyEncoded (xs @ [b]) k"
  shows "0 < magnitude (xs @ [b])"
    and "length xs = Suc j \<Longrightarrow> 128 * 256 ^ j \<le> magnitude (xs @ [b])"
proof -
  from assms consider "unat b mod 128 \<noteq> 0" | ys c where "xs = ys @ [c]" "128 \<le> unat c"
    by (auto simp: IsMinimallyEncoded_snoc)
  then have "0 < magnitude (xs @ [b]) \<and> (length xs = Suc j \<longrightarrow> 128 * 256 ^ j \<le> magnitude (xs @ [b]))"
  proof cases
    case 1
    then have "256 ^ length xs * 1 \<le> 256 ^ length xs * (unat b mod 128)" by (intro mult_le_mono2) simp
    then have le: "256 ^ length xs \<le> magnitude (xs @ [b])" unfolding magnitude_snoc by linarith
    have "0 < magnitude (xs @ [b])" by (rule less_le_trans [OF _ le]) simp
    moreover have "128 * 256 ^ j \<le> magnitude (xs @ [b])" if "length xs = Suc j"
    proof -
      have "128 * 256 ^ j \<le> (256::nat) ^ length xs" using that by simp
      then show ?thesis using le by linarith
    qed
    ultimately show ?thesis by blast
  next
    case 2
    then have "256 ^ length ys * 128 \<le> 256 ^ length ys * unat c" by (intro mult_le_mono2) simp
    then have "256 ^ length ys * 128 \<le> le_nat ys + 256 ^ length ys * unat c" by linarith
    then have "256 ^ length ys * 128 \<le> le_nat xs" unfolding 2(1) le_nat_append le_nat.simps by simp
    then have le: "256 ^ length ys * 128 \<le> magnitude (xs @ [b])" unfolding magnitude_snoc by linarith
    have "0 < magnitude (xs @ [b])" by (rule less_le_trans [OF _ le]) simp
    then show ?thesis using le 2(1) by (auto simp: mult.commute)
  qed
  then show "0 < magnitude (xs @ [b])" "length xs = Suc j \<Longrightarrow> 128 * 256 ^ j \<le> magnitude (xs @ [b])" by auto
qed

lemma minimal_length:
  assumes "IsMinimallyEncoded (xs @ [b]) k" "IsMinimallyEncoded (ys @ [c]) k"
    and "magnitude (xs @ [b]) = magnitude (ys @ [c])"
  shows "length xs \<le> length ys"
proof (rule ccontr)
  assume "\<not> length xs \<le> length ys"
  then obtain j where j: "length xs = Suc j" "length ys \<le> j" by (cases "length xs") auto
  have "128 * 256 ^ j < 128 * (256::nat) ^ length ys"
    using minimal_bounds(2) [OF assms(1) j(1)] magnitude_less [of ys c] assms(3) by linarith
  moreover have "(256::nat) ^ length ys \<le> 256 ^ j" using j(2) by (intro power_increasing) simp_all
  ultimately show False by simp
qed

lemma minimal_unique:
  assumes "IsMinimallyEncoded u k" "IsMinimallyEncoded v k" "sm_value u = sm_value v"
  shows "u = v"
proof (cases u rule: rev_cases)
  case Nil
  then show ?thesis
    using assms minimal_bounds(1) [of "butlast v" "last v" k] by (cases v rule: rev_cases) (auto simp: magnitude_def)
next
  case u: (snoc xs b)
  then obtain ys c where v: "v = ys @ [c]"
    using assms minimal_bounds(1) [of xs b k] by (cases v rule: rev_cases) (auto simp: magnitude_def)
  have m: "magnitude (xs @ [b]) = magnitude (ys @ [c])" using assms(3) u v by (simp add: magnitude_def)
  have l: "length xs = length ys"
    using minimal_length [of xs b k ys c] minimal_length [of ys c k xs b] assms(1,2) u v m by force
  have "le_nat xs < 256 ^ length xs" "le_nat ys < 256 ^ length xs" using le_nat_less [of xs] le_nat_less [of ys] l by simp_all
  then have e: "le_nat xs = le_nat ys" "unat b mod 128 = unat c mod 128"
    using m digit_eq_iff [of "le_nat xs" "256 ^ length xs" "le_nat ys"] unfolding magnitude_snoc l by auto
  have "xs = ys" using e(1) l le_bytes_le_nat [of xs] le_bytes_le_nat [of ys] by metis
  have pos: "0 < le_nat xs + 256 ^ length xs * (unat b mod 128)"
    using minimal_bounds(1) [of xs b k] assms(1) u by (simp add: magnitude_snoc)
  have s: "(if unat b < 128 then 1 else - 1) * int (le_nat xs + 256 ^ length xs * (unat b mod 128)) =
      (if unat c < 128 then 1 else - 1) * int (le_nat xs + 256 ^ length xs * (unat b mod 128))"
    using assms(3) unfolding u v sm_value_snoc by (simp only: e l)
  have "unat b < 128 \<longleftrightarrow> unat c < 128"
    using s pos by (rule sign_eq)
  then have "unat b = unat c" using e(2) byte_mod_128 [of b] byte_mod_128 [of c] by (cases "unat b < 128") simp_all
  then show ?thesis using u v \<open>xs = ys\<close> by (simp add: word_unat_eq_iff)
qed

lemma set_vch_range:
  assumes "length vch \<le> 8"
  shows "- (2 ^ 63) < sm_value vch" "sm_value vch < 2 ^ 63"
proof -
  have "magnitude vch < 2 ^ 63"
  proof (cases vch rule: rev_cases)
    case (snoc xs b)
    have "(256::nat) ^ length xs \<le> 256 ^ 7" using snoc assms by (intro power_increasing) simp_all
    then show ?thesis using magnitude_less [of xs b] unfolding snoc by simp
  qed (simp add: magnitude_def)
  then have "\<bar>sm_value vch\<bar> < 2 ^ 63" by (simp add: magnitude_def nat_less_iff)
  then show "- (2 ^ 63) < sm_value vch" "sm_value vch < 2 ^ 63" by linarith+
qed

text \<open>
  Decoding accepts at most one encoding of each number: when minimality is required, a byte string of up to
  eight bytes that is accepted as the number \<open>n\<close> is the encoding of \<open>n\<close>; a longer or non-minimal string is
  rejected with the matching error.
\<close>

theorem scriptnum_canonical:
  assumes "k \<le> 8"
  shows "CScriptNum vch True k =
    (if length vch > k then Inl Script_number_overflow
     else if \<exists>n. - (2 ^ 63) < n \<and> n < 2 ^ 63 \<and> vch = num_serialize n then Inr (sm_value vch)
     else Inl Non_minimally_encoded)"
proof (cases "length vch > k")
  case False
  then have len: "length vch \<le> 8" "length vch \<le> k" using assms by simp_all
  have "IsMinimallyEncoded vch k \<longleftrightarrow> (\<exists>n. - (2 ^ 63) < n \<and> n < 2 ^ 63 \<and> vch = num_serialize n)"
  proof
    assume m: "IsMinimallyEncoded vch k"
    let ?n = "sm_value vch"
    note r = set_vch_range [OF len(1)]
    have "IsMinimallyEncoded vch 8" using m len by (auto simp: IsMinimallyEncoded_def split: if_splits)
    then have "vch = num_serialize ?n"
      using minimal_unique [of vch 8 "num_serialize ?n"] num_serialize_value [OF r]
        num_serialize_minimal [OF r length_num_serialize [OF r]] by simp
    then show "\<exists>n. - (2 ^ 63) < n \<and> n < 2 ^ 63 \<and> vch = num_serialize n" using r by blast
  next
    assume "\<exists>n. - (2 ^ 63) < n \<and> n < 2 ^ 63 \<and> vch = num_serialize n"
    then show "IsMinimallyEncoded vch k" using num_serialize_minimal len(2) by blast
  qed
  then show ?thesis using False set_vch_val [OF len(1)] by (simp add: CScriptNum_def)
qed (simp add: CScriptNum_def)

theorem scriptnum_canonical_witness:
  "CScriptNum [0xff, 0x00] True 4 =
    (if \<exists>n. - (2 ^ 63) < n \<and> n < 2 ^ 63 \<and> [0xff, 0x00] = num_serialize n then Inr (sm_value [0xff, 0x00])
     else Inl Non_minimally_encoded)"
  using scriptnum_canonical [of 4 "[0xff, 0x00]"] by simp

section \<open>Shortening encodings\<close>

lemma le_nat_replicate_0 [simp]: "le_nat (replicate n 0) = 0"
  by (induction n) simp_all

lemma le_nat_take_zeros:
  assumes "i \<le> length xs" "\<And>j. i \<le> j \<Longrightarrow> j < length xs \<Longrightarrow> xs ! j = 0"
  shows "le_nat xs = le_nat (take i xs)"
proof -
  have "drop i xs = replicate (length xs - i) 0"
    by (rule nth_equalityI) (use assms in \<open>auto\<close>)
  then have "xs = take i xs @ replicate (length xs - i) 0" by (metis append_take_drop_id)
  then have "le_nat xs = le_nat (take i xs @ replicate (length xs - i) 0)" by (rule arg_cong)
  then show ?thesis by (simp add: le_nat_append)
qed

lemma MinimallyEncode_loop_val:
  assumes "unat lst mod 128 = 0" "i \<le> length xs" "\<And>j. i \<le> j \<Longrightarrow> j < length xs \<Longrightarrow> xs ! j = 0"
  shows "sm_value (MinimallyEncode_loop (xs @ [lst]) lst i) = sm_value (xs @ [lst]) \<and>
    IsMinimallyEncoded (MinimallyEncode_loop (xs @ [lst]) lst i) (length xs + 1)"
  using assms(2,3)
proof (induction i)
  case 0
  then have "le_nat xs = 0" using le_nat_take_zeros [of 0 xs] by simp
  then show ?case using assms(1) by (simp add: IsMinimallyEncoded_def)
next
  case (Suc i)
  let ?d = "xs @ [lst]" and ?b = "xs ! i"
  have i: "i < length xs" using Suc.prems(1) by simp
  have t: "take (Suc i) xs = take i xs @ [?b]" using i by (rule take_Suc_conv_app_nth)
  have v: "le_nat xs = le_nat (take i xs) + 256 ^ i * unat ?b"
    using le_nat_take_zeros [of "Suc i" xs] Suc.prems i by (simp add: t le_nat_append)
  show ?case
  proof (cases "?b = 0")
    case True
    have "xs ! j = 0" if "i \<le> j" "j < length xs" for j
      using that Suc.prems(2) True by (cases "j = i") auto
    then show ?thesis using Suc.IH i True by (simp add: nth_append)
  next
    case nz: False
    show ?thesis
    proof (cases "unat ?b < 128")
      case False
      have "take (Suc i + 1) (?d[Suc i := lst]) = (take i xs @ [?b]) @ [lst]"
        using i t by (cases "Suc i = length xs") (simp_all add: list_update_append take_Suc_conv_app_nth)
      then have r: "MinimallyEncode_loop ?d lst (Suc i) = (take i xs @ [?b]) @ [lst]"
        using i nz False by (simp add: nth_append and_80_eq_0)
      have "sm_value ((take i xs @ [?b]) @ [lst]) = sm_value ?d"
        unfolding sm_value_snoc assms(1) v using i by (simp add: le_nat_append)
      moreover have "IsMinimallyEncoded ((take i xs @ [?b]) @ [lst]) (length xs + 1)"
        unfolding IsMinimallyEncoded_snoc using False i by auto
      ultimately show ?thesis unfolding r by simp
    next
      case True
      have "take (Suc i) (?d[i := ?b OR lst]) = take i xs @ [?b OR lst]"
        using i by (simp add: list_update_append take_Suc_conv_app_nth)
      then have r: "MinimallyEncode_loop ?d lst (Suc i) = take i xs @ [?b OR lst]"
        using i nz True by (simp add: nth_append and_80_eq_0)
      have b: "unat (?b OR lst) mod 128 = unat ?b" "unat (?b OR lst) < 128 \<longleftrightarrow> unat lst < 128"
        using sign_byte_or [OF True assms(1)] by auto
      have "sm_value (take i xs @ [?b OR lst]) = sm_value ?d"
        unfolding sm_value_snoc b assms(1) v using i by simp
      moreover have "unat ?b \<noteq> 0" using nz by (simp add: unat_eq_zero)
      then have "IsMinimallyEncoded (take i xs @ [?b OR lst]) (length xs + 1)"
        unfolding IsMinimallyEncoded_snoc using b i by simp
      ultimately show ?thesis unfolding r by simp
    qed
  qed
qed

text \<open>
  \<^verbatim>\<open>MinimallyEncode\<close> never changes the value of a byte string, its result is minimally encoded and not
  longer, and it reports a change exactly if the string was not minimal before.
\<close>

theorem MinimallyEncode_correct:
  "case MinimallyEncode d of (changed, r) \<Rightarrow>
     sm_value r = sm_value d \<and> IsMinimallyEncoded r (length d) \<and> length r \<le> length d \<and>
     (changed \<longleftrightarrow> \<not> IsMinimallyEncoded d (length d)) \<and> (changed \<or> r = d)"
proof (cases d rule: rev_cases)
  case (snoc xs b)
  consider "unat b mod 128 \<noteq> 0 \<or> (\<exists>ys c. xs = ys @ [c] \<and> 128 \<le> unat c)"
    | "unat b mod 128 = 0" "xs = []" | ys c where "unat b mod 128 = 0" "xs = ys @ [c]" "unat c < 128"
    by (metis rev_exhaust not_le)
  then show ?thesis
  proof cases
    case 1
    then have m: "IsMinimallyEncoded d (length d)" unfolding snoc IsMinimallyEncoded_snoc by auto
    moreover have "MinimallyEncode d = (False, d)"
      using 1 unfolding snoc by (auto simp: MinimallyEncode_def and_7f_eq_0 and_80_eq_0 Let_def nth_append)
    ultimately show ?thesis by simp
  next
    case 2
    then show ?thesis unfolding snoc
      by (simp add: MinimallyEncode_def and_7f_eq_0 IsMinimallyEncoded_def Let_def sm_value_def)
  next
    case 3
    let ?r = "MinimallyEncode_loop d b (length xs)"
    have "MinimallyEncode d = (True, ?r)"
      using 3 unfolding snoc by (simp add: MinimallyEncode_def and_7f_eq_0 and_80_eq_0 Let_def nth_append)
    moreover have "sm_value ?r = sm_value d" "IsMinimallyEncoded ?r (length d)"
      using MinimallyEncode_loop_val [OF 3(1), of "length xs" xs] unfolding snoc by simp_all
    moreover from this(2) have "length ?r \<le> length d" by (auto simp: IsMinimallyEncoded_def split: if_splits)
    moreover have "\<not> IsMinimallyEncoded d (length d)" using 3 unfolding snoc IsMinimallyEncoded_snoc by auto
    ultimately show ?thesis by simp
  qed
qed (simp add: MinimallyEncode_def IsMinimallyEncoded_def)

end
