(* ===== verification/Opcodes.thy ===== *)
theory Opcodes
  imports Main
begin

text \<open>
  The opcodes of the script language (\<^verbatim>\<open>enum opcodetype\<close> in \<^verbatim>\<open>src/src/script/script.h\<close>) as natural numbers, with the
  limits of the language, and their names (\<^verbatim>\<open>GetOpName\<close> in \<^verbatim>\<open>src/src/script/script.cpp\<close>). The opcodes
  for the numbers 2 to 15 are written by their value.
\<close>

section \<open>Limits\<close>

abbreviation (input) MAX_SCRIPT_ELEMENT_SIZE :: nat where "MAX_SCRIPT_ELEMENT_SIZE \<equiv> 520"
abbreviation (input) MAX_OPS_PER_SCRIPT :: nat where "MAX_OPS_PER_SCRIPT \<equiv> 201"
abbreviation (input) MAX_PUBKEYS_PER_MULTISIG :: nat where "MAX_PUBKEYS_PER_MULTISIG \<equiv> 20"
abbreviation (input) MAX_SCRIPT_SIZE :: nat where "MAX_SCRIPT_SIZE \<equiv> 10000"
abbreviation (input) MAX_STACK_SIZE :: nat where "MAX_STACK_SIZE \<equiv> 1000"
abbreviation (input) LOCKTIME_THRESHOLD :: nat where "LOCKTIME_THRESHOLD \<equiv> 500000000"

section \<open>Opcodes\<close>

abbreviation (input) OP_0 :: nat where "OP_0 \<equiv> 0x00"
abbreviation (input) OP_PUSHDATA1 :: nat where "OP_PUSHDATA1 \<equiv> 0x4c"
abbreviation (input) OP_PUSHDATA2 :: nat where "OP_PUSHDATA2 \<equiv> 0x4d"
abbreviation (input) OP_PUSHDATA4 :: nat where "OP_PUSHDATA4 \<equiv> 0x4e"
abbreviation (input) OP_1NEGATE :: nat where "OP_1NEGATE \<equiv> 0x4f"
abbreviation (input) OP_RESERVED :: nat where "OP_RESERVED \<equiv> 0x50"
abbreviation (input) OP_1 :: nat where "OP_1 \<equiv> 0x51"
abbreviation (input) OP_16 :: nat where "OP_16 \<equiv> 0x60"
abbreviation (input) OP_NOP :: nat where "OP_NOP \<equiv> 0x61"
abbreviation (input) OP_VER :: nat where "OP_VER \<equiv> 0x62"
abbreviation (input) OP_IF :: nat where "OP_IF \<equiv> 0x63"
abbreviation (input) OP_NOTIF :: nat where "OP_NOTIF \<equiv> 0x64"
abbreviation (input) OP_VERIF :: nat where "OP_VERIF \<equiv> 0x65"
abbreviation (input) OP_VERNOTIF :: nat where "OP_VERNOTIF \<equiv> 0x66"
abbreviation (input) OP_ELSE :: nat where "OP_ELSE \<equiv> 0x67"
abbreviation (input) OP_ENDIF :: nat where "OP_ENDIF \<equiv> 0x68"
abbreviation (input) OP_VERIFY :: nat where "OP_VERIFY \<equiv> 0x69"
abbreviation (input) OP_RETURN :: nat where "OP_RETURN \<equiv> 0x6a"
abbreviation (input) OP_TOALTSTACK :: nat where "OP_TOALTSTACK \<equiv> 0x6b"
abbreviation (input) OP_FROMALTSTACK :: nat where "OP_FROMALTSTACK \<equiv> 0x6c"
abbreviation (input) OP_2DROP :: nat where "OP_2DROP \<equiv> 0x6d"
abbreviation (input) OP_2DUP :: nat where "OP_2DUP \<equiv> 0x6e"
abbreviation (input) OP_3DUP :: nat where "OP_3DUP \<equiv> 0x6f"
abbreviation (input) OP_2OVER :: nat where "OP_2OVER \<equiv> 0x70"
abbreviation (input) OP_2ROT :: nat where "OP_2ROT \<equiv> 0x71"
abbreviation (input) OP_2SWAP :: nat where "OP_2SWAP \<equiv> 0x72"
abbreviation (input) OP_IFDUP :: nat where "OP_IFDUP \<equiv> 0x73"
abbreviation (input) OP_DEPTH :: nat where "OP_DEPTH \<equiv> 0x74"
abbreviation (input) OP_DROP :: nat where "OP_DROP \<equiv> 0x75"
abbreviation (input) OP_DUP :: nat where "OP_DUP \<equiv> 0x76"
abbreviation (input) OP_NIP :: nat where "OP_NIP \<equiv> 0x77"
abbreviation (input) OP_OVER :: nat where "OP_OVER \<equiv> 0x78"
abbreviation (input) OP_PICK :: nat where "OP_PICK \<equiv> 0x79"
abbreviation (input) OP_ROLL :: nat where "OP_ROLL \<equiv> 0x7a"
abbreviation (input) OP_ROT :: nat where "OP_ROT \<equiv> 0x7b"
abbreviation (input) OP_SWAP :: nat where "OP_SWAP \<equiv> 0x7c"
abbreviation (input) OP_TUCK :: nat where "OP_TUCK \<equiv> 0x7d"
abbreviation (input) OP_CAT :: nat where "OP_CAT \<equiv> 0x7e"
abbreviation (input) OP_SPLIT :: nat where "OP_SPLIT \<equiv> 0x7f"
abbreviation (input) OP_SIZE :: nat where "OP_SIZE \<equiv> 0x82"
abbreviation (input) OP_NUM2BIN :: nat where "OP_NUM2BIN \<equiv> 0x80"
abbreviation (input) OP_BIN2NUM :: nat where "OP_BIN2NUM \<equiv> 0x81"
abbreviation (input) OP_INVERT :: nat where "OP_INVERT \<equiv> 0x83"
abbreviation (input) OP_AND :: nat where "OP_AND \<equiv> 0x84"
abbreviation (input) OP_OR :: nat where "OP_OR \<equiv> 0x85"
abbreviation (input) OP_XOR :: nat where "OP_XOR \<equiv> 0x86"
abbreviation (input) OP_EQUAL :: nat where "OP_EQUAL \<equiv> 0x87"
abbreviation (input) OP_EQUALVERIFY :: nat where "OP_EQUALVERIFY \<equiv> 0x88"
abbreviation (input) OP_RESERVED1 :: nat where "OP_RESERVED1 \<equiv> 0x89"
abbreviation (input) OP_RESERVED2 :: nat where "OP_RESERVED2 \<equiv> 0x8a"
abbreviation (input) OP_1ADD :: nat where "OP_1ADD \<equiv> 0x8b"
abbreviation (input) OP_1SUB :: nat where "OP_1SUB \<equiv> 0x8c"
abbreviation (input) OP_2MUL :: nat where "OP_2MUL \<equiv> 0x8d"
abbreviation (input) OP_2DIV :: nat where "OP_2DIV \<equiv> 0x8e"
abbreviation (input) OP_NEGATE :: nat where "OP_NEGATE \<equiv> 0x8f"
abbreviation (input) OP_ABS :: nat where "OP_ABS \<equiv> 0x90"
abbreviation (input) OP_NOT :: nat where "OP_NOT \<equiv> 0x91"
abbreviation (input) OP_0NOTEQUAL :: nat where "OP_0NOTEQUAL \<equiv> 0x92"
abbreviation (input) OP_ADD :: nat where "OP_ADD \<equiv> 0x93"
abbreviation (input) OP_SUB :: nat where "OP_SUB \<equiv> 0x94"
abbreviation (input) OP_MUL :: nat where "OP_MUL \<equiv> 0x95"
abbreviation (input) OP_DIV :: nat where "OP_DIV \<equiv> 0x96"
abbreviation (input) OP_MOD :: nat where "OP_MOD \<equiv> 0x97"
abbreviation (input) OP_LSHIFT :: nat where "OP_LSHIFT \<equiv> 0x98"
abbreviation (input) OP_RSHIFT :: nat where "OP_RSHIFT \<equiv> 0x99"
abbreviation (input) OP_BOOLAND :: nat where "OP_BOOLAND \<equiv> 0x9a"
abbreviation (input) OP_BOOLOR :: nat where "OP_BOOLOR \<equiv> 0x9b"
abbreviation (input) OP_NUMEQUAL :: nat where "OP_NUMEQUAL \<equiv> 0x9c"
abbreviation (input) OP_NUMEQUALVERIFY :: nat where "OP_NUMEQUALVERIFY \<equiv> 0x9d"
abbreviation (input) OP_NUMNOTEQUAL :: nat where "OP_NUMNOTEQUAL \<equiv> 0x9e"
abbreviation (input) OP_LESSTHAN :: nat where "OP_LESSTHAN \<equiv> 0x9f"
abbreviation (input) OP_GREATERTHAN :: nat where "OP_GREATERTHAN \<equiv> 0xa0"
abbreviation (input) OP_LESSTHANOREQUAL :: nat where "OP_LESSTHANOREQUAL \<equiv> 0xa1"
abbreviation (input) OP_GREATERTHANOREQUAL :: nat where "OP_GREATERTHANOREQUAL \<equiv> 0xa2"
abbreviation (input) OP_MIN :: nat where "OP_MIN \<equiv> 0xa3"
abbreviation (input) OP_MAX :: nat where "OP_MAX \<equiv> 0xa4"
abbreviation (input) OP_WITHIN :: nat where "OP_WITHIN \<equiv> 0xa5"
abbreviation (input) OP_RIPEMD160 :: nat where "OP_RIPEMD160 \<equiv> 0xa6"
abbreviation (input) OP_SHA1 :: nat where "OP_SHA1 \<equiv> 0xa7"
abbreviation (input) OP_SHA256 :: nat where "OP_SHA256 \<equiv> 0xa8"
abbreviation (input) OP_HASH160 :: nat where "OP_HASH160 \<equiv> 0xa9"
abbreviation (input) OP_HASH256 :: nat where "OP_HASH256 \<equiv> 0xaa"
abbreviation (input) OP_CODESEPARATOR :: nat where "OP_CODESEPARATOR \<equiv> 0xab"
abbreviation (input) OP_CHECKSIG :: nat where "OP_CHECKSIG \<equiv> 0xac"
abbreviation (input) OP_CHECKSIGVERIFY :: nat where "OP_CHECKSIGVERIFY \<equiv> 0xad"
abbreviation (input) OP_CHECKMULTISIG :: nat where "OP_CHECKMULTISIG \<equiv> 0xae"
abbreviation (input) OP_CHECKMULTISIGVERIFY :: nat where "OP_CHECKMULTISIGVERIFY \<equiv> 0xaf"
abbreviation (input) OP_NOP1 :: nat where "OP_NOP1 \<equiv> 0xb0"
abbreviation (input) OP_CHECKLOCKTIMEVERIFY :: nat where "OP_CHECKLOCKTIMEVERIFY \<equiv> 0xb1"
abbreviation (input) OP_CHECKSEQUENCEVERIFY :: nat where "OP_CHECKSEQUENCEVERIFY \<equiv> 0xb2"
abbreviation (input) OP_NOP4 :: nat where "OP_NOP4 \<equiv> 0xb3"
abbreviation (input) OP_NOP5 :: nat where "OP_NOP5 \<equiv> 0xb4"
abbreviation (input) OP_NOP6 :: nat where "OP_NOP6 \<equiv> 0xb5"
abbreviation (input) OP_NOP7 :: nat where "OP_NOP7 \<equiv> 0xb6"
abbreviation (input) OP_NOP8 :: nat where "OP_NOP8 \<equiv> 0xb7"
abbreviation (input) OP_NOP9 :: nat where "OP_NOP9 \<equiv> 0xb8"
abbreviation (input) OP_NOP10 :: nat where "OP_NOP10 \<equiv> 0xb9"
abbreviation (input) OP_CHECKDATASIG :: nat where "OP_CHECKDATASIG \<equiv> 0xba"
abbreviation (input) OP_CHECKDATASIGVERIFY :: nat where "OP_CHECKDATASIGVERIFY \<equiv> 0xbb"
abbreviation (input) OP_INVALIDOPCODE :: nat where "OP_INVALIDOPCODE \<equiv> 0xff"

abbreviation (input) MAX_OPCODE :: nat where "MAX_OPCODE \<equiv> OP_CHECKDATASIGVERIFY"

section \<open>Names\<close>

definition op_names :: "(nat \<times> string) list" where
  "op_names = [
    (OP_0, ''0''),
    (OP_PUSHDATA1, ''OP_PUSHDATA1''),
    (OP_PUSHDATA2, ''OP_PUSHDATA2''),
    (OP_PUSHDATA4, ''OP_PUSHDATA4''),
    (OP_1NEGATE, ''-1''),
    (OP_RESERVED, ''OP_RESERVED''),
    (OP_1, ''1''),
    (0x52, ''2''),
    (0x53, ''3''),
    (0x54, ''4''),
    (0x55, ''5''),
    (0x56, ''6''),
    (0x57, ''7''),
    (0x58, ''8''),
    (0x59, ''9''),
    (0x5a, ''10''),
    (0x5b, ''11''),
    (0x5c, ''12''),
    (0x5d, ''13''),
    (0x5e, ''14''),
    (0x5f, ''15''),
    (OP_16, ''16''),
    (OP_NOP, ''OP_NOP''),
    (OP_VER, ''OP_VER''),
    (OP_IF, ''OP_IF''),
    (OP_NOTIF, ''OP_NOTIF''),
    (OP_VERIF, ''OP_VERIF''),
    (OP_VERNOTIF, ''OP_VERNOTIF''),
    (OP_ELSE, ''OP_ELSE''),
    (OP_ENDIF, ''OP_ENDIF''),
    (OP_VERIFY, ''OP_VERIFY''),
    (OP_RETURN, ''OP_RETURN''),
    (OP_TOALTSTACK, ''OP_TOALTSTACK''),
    (OP_FROMALTSTACK, ''OP_FROMALTSTACK''),
    (OP_2DROP, ''OP_2DROP''),
    (OP_2DUP, ''OP_2DUP''),
    (OP_3DUP, ''OP_3DUP''),
    (OP_2OVER, ''OP_2OVER''),
    (OP_2ROT, ''OP_2ROT''),
    (OP_2SWAP, ''OP_2SWAP''),
    (OP_IFDUP, ''OP_IFDUP''),
    (OP_DEPTH, ''OP_DEPTH''),
    (OP_DROP, ''OP_DROP''),
    (OP_DUP, ''OP_DUP''),
    (OP_NIP, ''OP_NIP''),
    (OP_OVER, ''OP_OVER''),
    (OP_PICK, ''OP_PICK''),
    (OP_ROLL, ''OP_ROLL''),
    (OP_ROT, ''OP_ROT''),
    (OP_SWAP, ''OP_SWAP''),
    (OP_TUCK, ''OP_TUCK''),
    (OP_CAT, ''OP_CAT''),
    (OP_SPLIT, ''OP_SPLIT''),
    (OP_SIZE, ''OP_SIZE''),
    (OP_NUM2BIN, ''OP_NUM2BIN''),
    (OP_BIN2NUM, ''OP_BIN2NUM''),
    (OP_INVERT, ''OP_INVERT''),
    (OP_AND, ''OP_AND''),
    (OP_OR, ''OP_OR''),
    (OP_XOR, ''OP_XOR''),
    (OP_EQUAL, ''OP_EQUAL''),
    (OP_EQUALVERIFY, ''OP_EQUALVERIFY''),
    (OP_RESERVED1, ''OP_RESERVED1''),
    (OP_RESERVED2, ''OP_RESERVED2''),
    (OP_1ADD, ''OP_1ADD''),
    (OP_1SUB, ''OP_1SUB''),
    (OP_2MUL, ''OP_2MUL''),
    (OP_2DIV, ''OP_2DIV''),
    (OP_NEGATE, ''OP_NEGATE''),
    (OP_ABS, ''OP_ABS''),
    (OP_NOT, ''OP_NOT''),
    (OP_0NOTEQUAL, ''OP_0NOTEQUAL''),
    (OP_ADD, ''OP_ADD''),
    (OP_SUB, ''OP_SUB''),
    (OP_MUL, ''OP_MUL''),
    (OP_DIV, ''OP_DIV''),
    (OP_MOD, ''OP_MOD''),
    (OP_LSHIFT, ''OP_LSHIFT''),
    (OP_RSHIFT, ''OP_RSHIFT''),
    (OP_BOOLAND, ''OP_BOOLAND''),
    (OP_BOOLOR, ''OP_BOOLOR''),
    (OP_NUMEQUAL, ''OP_NUMEQUAL''),
    (OP_NUMEQUALVERIFY, ''OP_NUMEQUALVERIFY''),
    (OP_NUMNOTEQUAL, ''OP_NUMNOTEQUAL''),
    (OP_LESSTHAN, ''OP_LESSTHAN''),
    (OP_GREATERTHAN, ''OP_GREATERTHAN''),
    (OP_LESSTHANOREQUAL, ''OP_LESSTHANOREQUAL''),
    (OP_GREATERTHANOREQUAL, ''OP_GREATERTHANOREQUAL''),
    (OP_MIN, ''OP_MIN''),
    (OP_MAX, ''OP_MAX''),
    (OP_WITHIN, ''OP_WITHIN''),
    (OP_RIPEMD160, ''OP_RIPEMD160''),
    (OP_SHA1, ''OP_SHA1''),
    (OP_SHA256, ''OP_SHA256''),
    (OP_HASH160, ''OP_HASH160''),
    (OP_HASH256, ''OP_HASH256''),
    (OP_CODESEPARATOR, ''OP_CODESEPARATOR''),
    (OP_CHECKSIG, ''OP_CHECKSIG''),
    (OP_CHECKSIGVERIFY, ''OP_CHECKSIGVERIFY''),
    (OP_CHECKMULTISIG, ''OP_CHECKMULTISIG''),
    (OP_CHECKMULTISIGVERIFY, ''OP_CHECKMULTISIGVERIFY''),
    (OP_NOP1, ''OP_NOP1''),
    (OP_CHECKLOCKTIMEVERIFY, ''OP_CHECKLOCKTIMEVERIFY''),
    (OP_CHECKSEQUENCEVERIFY, ''OP_CHECKSEQUENCEVERIFY''),
    (OP_NOP4, ''OP_NOP4''),
    (OP_NOP5, ''OP_NOP5''),
    (OP_NOP6, ''OP_NOP6''),
    (OP_NOP7, ''OP_NOP7''),
    (OP_NOP8, ''OP_NOP8''),
    (OP_NOP9, ''OP_NOP9''),
    (OP_NOP10, ''OP_NOP10''),
    (OP_CHECKDATASIG, ''OP_CHECKDATASIG''),
    (OP_CHECKDATASIGVERIFY, ''OP_CHECKDATASIGVERIFY''),
    (OP_INVALIDOPCODE, ''OP_INVALIDOPCODE'')]"

definition GetOpName :: "nat \<Rightarrow> string" where
  "GetOpName opcode = (case map_of op_names opcode of Some name \<Rightarrow> name | None \<Rightarrow> ''OP_UNKNOWN'')"

end
