(* ===== verification/Script.thy ===== *)
theory Script
  imports Script_Num Opcodes
begin

text \<open>
  Model of serialized scripts: \<^verbatim>\<open>CScript\<close> in \<^verbatim>\<open>src/src/script/script.h\<close> and \<^verbatim>\<open>src/src/script/script.cpp\<close>. A script is
  the list of its bytes, and an iterator into it is the list of the bytes from there on. The lemmas show
  that every push operation is read back as what was pushed, that reading always advances, and give
  the signature-operation counts and the push-only test as functions of the sequence of operations.
\<close>

unbundle bit_operations_syntax

section \<open>The model\<close>

type_synonym CScript = "byte list"

text \<open>
  \<^verbatim>\<open>GetScriptOp\<close> returns the opcode, the pushed data and the advanced iterator, or \<open>None\<close> where the source
  returns false. One caller uses the iterator after that; where it stands then is a definition next to that caller.
\<close>

definition GetScriptOp :: "byte list \<Rightarrow> (nat \<times> byte list \<times> byte list) option" where
  "GetScriptOp pc = (case pc of
     [] \<Rightarrow> None
   | b # pc \<Rightarrow>
       (let opcode = unat b in
        if opcode \<le> OP_PUSHDATA4 then
          (let sz = (if opcode < OP_PUSHDATA1 then Some (opcode, pc)
                     else if opcode = OP_PUSHDATA1 then
                       (if length pc < 1 then None else Some (unat (hd pc), drop 1 pc))
                     else if opcode = OP_PUSHDATA2 then
                       (if length pc < 2 then None else Some (unat (ReadLE16 pc), drop 2 pc))
                     else
                       (if length pc < 4 then None else Some (unat (ReadLE32 pc), drop 4 pc)))
           in case sz of
                None \<Rightarrow> None
              | Some (nSize, pc) \<Rightarrow>
                  if length pc < nSize then None else Some (opcode, take nSize pc, drop nSize pc))
        else Some (opcode, [], pc)))"

definition push_data :: "byte list \<Rightarrow> CScript" where
  "push_data b =
    (if length b < OP_PUSHDATA1 then [of_nat (length b)]
     else if length b \<le> 0xff then [of_nat OP_PUSHDATA1, of_nat (length b)]
     else if length b \<le> 0xffff then of_nat OP_PUSHDATA2 # WriteLE16 (of_nat (length b))
     else of_nat OP_PUSHDATA4 # WriteLE32 (of_nat (length b))) @ b"

definition push_opcode :: "nat \<Rightarrow> CScript option" where
  "push_opcode opcode = (if opcode > 0xff then None else Some [of_nat opcode])"

definition push_int64 :: "int \<Rightarrow> CScript" where
  "push_int64 n =
    (if n = -1 \<or> (n \<ge> 1 \<and> n \<le> 16) then [word_of_int (n + (int OP_1 - 1))]
     else if n = 0 then [of_nat OP_0]
     else push_data (num_serialize n))"

definition push_scriptnum :: "int \<Rightarrow> CScript" where
  "push_scriptnum n = push_data (num_serialize n)"

definition DecodeOP_N :: "nat \<Rightarrow> nat option" where
  "DecodeOP_N opcode =
    (if opcode = OP_0 then Some 0
     else if opcode \<ge> OP_1 \<and> opcode \<le> OP_16 then Some (opcode - (OP_1 - 1)) else None)"

definition EncodeOP_N :: "int \<Rightarrow> nat option" where
  "EncodeOP_N n =
    (if n \<ge> 0 \<and> n \<le> 16 then Some (if n = 0 then OP_0 else OP_1 + nat n - 1) else None)"

lemma GetScriptOp_shorter: "GetScriptOp pc = Some (opcode, d, rest) \<Longrightarrow> length rest < length pc"
  by (auto simp: GetScriptOp_def Let_def split: list.splits if_splits option.splits)

function GetSigOpCount_loop :: "bool \<Rightarrow> byte list \<Rightarrow> nat \<Rightarrow> nat \<Rightarrow> nat" where
  "GetSigOpCount_loop fAccurate pc lastOpcode n =
    (case GetScriptOp pc of
       None \<Rightarrow> n
     | Some (opcode, _, rest) \<Rightarrow>
         GetSigOpCount_loop fAccurate rest opcode
           (if opcode = OP_CHECKSIG \<or> opcode = OP_CHECKSIGVERIFY then n + 1
            else if opcode = OP_CHECKMULTISIG \<or> opcode = OP_CHECKMULTISIGVERIFY then
              (if fAccurate \<and> lastOpcode \<ge> OP_1 \<and> lastOpcode \<le> OP_16
               then n + the (DecodeOP_N lastOpcode) else n + MAX_PUBKEYS_PER_MULTISIG)
            else n))"
  by pat_completeness auto
termination
  by (relation "measure (\<lambda>(_, pc, _, _). length pc)") (auto dest: GetScriptOp_shorter)

declare GetSigOpCount_loop.simps [simp del]

definition GetSigOpCount :: "CScript \<Rightarrow> bool \<Rightarrow> nat" where
  "GetSigOpCount script fAccurate = GetSigOpCount_loop fAccurate script OP_INVALIDOPCODE 0"

definition IsPayToPublicKeyHash :: "CScript \<Rightarrow> bool" where
  "IsPayToPublicKeyHash s \<longleftrightarrow> length s = 25 \<and> unat (s ! 0) = OP_DUP \<and> unat (s ! 1) = OP_HASH160 \<and> s ! 2 = 0x14 \<and>
     unat (s ! 23) = OP_EQUALVERIFY \<and> unat (s ! 24) = OP_CHECKSIG"

definition IsPayToScriptHash :: "CScript \<Rightarrow> bool" where
  "IsPayToScriptHash s \<longleftrightarrow> length s = 23 \<and> unat (s ! 0) = OP_HASH160 \<and> s ! 1 = 0x14 \<and> unat (s ! 22) = OP_EQUAL"

definition IsPayToPublicKey :: "CScript \<Rightarrow> bool" where
  "IsPayToPublicKey s =
    (if length s = 35 then (s ! 1 = 0x02 \<or> s ! 1 = 0x03) \<and> unat (s ! 34) = OP_CHECKSIG
     else if length s = 67 then s ! 1 = 0x04 \<and> unat (s ! 66) = OP_CHECKSIG
     else False)"

function IsPushOnly :: "byte list \<Rightarrow> bool" where
  "IsPushOnly pc =
    (if pc = [] then True
     else case GetScriptOp pc of
       None \<Rightarrow> False
     | Some (opcode, _, rest) \<Rightarrow> if opcode > OP_16 then False else IsPushOnly rest)"
  by pat_completeness auto
termination by (relation "measure length") (auto dest: GetScriptOp_shorter)

declare IsPushOnly.simps [simp del]

definition IsUnspendable :: "CScript \<Rightarrow> bool" where
  "IsUnspendable s \<longleftrightarrow> (length s > 0 \<and> unat (s ! 0) = OP_RETURN) \<or> length s > MAX_SCRIPT_SIZE"

text \<open>The last item a signature script pushes; \<open>None\<close> where the source returns a count of zero.\<close>

function last_push :: "byte list \<Rightarrow> byte list \<Rightarrow> byte list option" where
  "last_push pc vData =
    (if pc = [] then Some vData
     else case GetScriptOp pc of
       None \<Rightarrow> None
     | Some (opcode, d, rest) \<Rightarrow> if opcode > OP_16 then None else last_push rest d)"
  by pat_completeness auto
termination by (relation "measure (\<lambda>(pc, _). length pc)") (auto dest: GetScriptOp_shorter)

declare last_push.simps [simp del]

definition GetSigOpCount_P2SH :: "CScript \<Rightarrow> CScript \<Rightarrow> nat" where
  "GetSigOpCount_P2SH script scriptSig =
    (if \<not> IsPayToScriptHash script then GetSigOpCount script True
     else case last_push scriptSig [] of
       None \<Rightarrow> 0
     | Some vData \<Rightarrow> GetSigOpCount vData True)"

section \<open>Pushes are read back\<close>

lemma push_data_read:
  assumes "length b < 2 ^ 32"
  shows "\<exists>op \<le> OP_PUSHDATA4. GetScriptOp (push_data b @ rest) = Some (op, b, rest)"
proof -
  consider "length b < 0x4c" | "0x4c \<le> length b" "length b \<le> 0xff" | "0xff < length b" "length b \<le> 0xffff"
    | "0xffff < length b" by linarith
  then show ?thesis
  proof cases
    case 1
    then show ?thesis by (simp add: push_data_def GetScriptOp_def unat_byte_of_nat)
  next
    case 2
    then show ?thesis by (simp add: push_data_def GetScriptOp_def unat_byte_of_nat)
  next
    case 3
    then have "unat (of_nat (length b) :: u16) = length b" by (simp add: unat_of_nat)
    then show ?thesis using 3 by (simp add: push_data_def GetScriptOp_def)
  next
    case 4
    then have "unat (of_nat (length b) :: u32) = length b" using assms by (simp add: unat_of_nat)
    then show ?thesis using 4 by (simp add: push_data_def GetScriptOp_def)
  qed
qed

text \<open>
  A pushed integer is read back: the operation that \<^verbatim>\<open>push_int64\<close> appends for a 64-bit number other than the
  smallest is read as one operation, which is either a data push whose bytes are the minimal encoding of
  the number, or the opcode that stands for a number from -1 to 16.
\<close>

theorem push_int64_read:
  assumes "- (2 ^ 63) < n" "n < 2 ^ 63"
  shows "\<exists>op d. GetScriptOp (push_int64 n @ rest) = Some (op, d, rest) \<and>
    (op \<le> OP_PUSHDATA4 \<and> d = num_serialize n \<and> CScriptNum d True 8 = Inr n \<or>
     OP_1NEGATE \<le> op \<and> op \<le> OP_16 \<and> d = [] \<and> int op = n + 0x50)"
proof -
  consider "n = -1 \<or> 1 \<le> n \<and> n \<le> 16" | "n = 0" | "n < -1 \<or> 16 < n" by linarith
  then show ?thesis
  proof cases
    case 1
    define k where "k = nat (n + 80)"
    have k: "78 < k" "k \<noteq> 80" "k < 97" "int k = n + 80" using 1 by (auto simp: k_def)
    have "push_int64 n = [word_of_int (n + 80)]" using 1 by (simp add: push_int64_def)
    moreover have "word_of_int (n + 80) = (of_nat k :: byte)" using k(4) by (metis of_int_of_nat_eq)
    ultimately have p: "push_int64 n = [of_nat k]" by simp
    have "unat (of_nat k :: byte) = k" using k(3) by (simp add: unat_byte_of_nat)
    then have "GetScriptOp (push_int64 n @ rest) = Some (k, [], rest)" using k(1) by (simp add: p GetScriptOp_def)
    then show ?thesis using k by auto
  next
    case 2
    then show ?thesis
      by (simp add: push_int64_def GetScriptOp_def num_serialize_def CScriptNum_def IsMinimallyEncoded_def set_vch_def)
  next
    case 3
    have len: "length (num_serialize n) \<le> 8" using assms by (rule length_num_serialize)
    from this have "(length (num_serialize n) :: nat) < 2 ^ 32" by (rule le_less_trans) simp
    then obtain op where "op \<le> OP_PUSHDATA4" "GetScriptOp (push_data (num_serialize n) @ rest) = Some (op, num_serialize n, rest)"
      using push_data_read [of "num_serialize n" rest] by blast
    moreover have "push_int64 n = push_data (num_serialize n)" using 3 by (auto simp: push_int64_def)
    moreover have "CScriptNum (num_serialize n) True 8 = Inr n"
      using len num_serialize_minimal [OF assms len] set_vch_val [OF len] num_serialize_value [OF assms]
      by (simp add: CScriptNum_def)
    ultimately show ?thesis by auto
  qed
qed

theorem push_int64_read_witness:
  "\<exists>op d. GetScriptOp (push_int64 1000 @ [0x93]) = Some (op, d, [0x93]) \<and>
    (op \<le> OP_PUSHDATA4 \<and> d = num_serialize 1000 \<and> CScriptNum d True 8 = Inr 1000 \<or>
     OP_1NEGATE \<le> op \<and> op \<le> OP_16 \<and> d = [] \<and> int op = 1000 + 0x50)"
  using push_int64_read [of 1000 "[0x93]"] by simp

lemma DecodeOP_N_EncodeOP_N: "0 \<le> n \<Longrightarrow> n \<le> 16 \<Longrightarrow> Option.bind (EncodeOP_N n) DecodeOP_N = Some (nat n)"
  by (auto simp: EncodeOP_N_def DecodeOP_N_def)

section \<open>Operations of a script\<close>

text \<open>The operations up to the end or the first malformed push, and whether the end was reached.\<close>

function script_ops :: "byte list \<Rightarrow> (nat \<times> byte list) list" where
  "script_ops pc = (case GetScriptOp pc of None \<Rightarrow> [] | Some (opcode, d, rest) \<Rightarrow> (opcode, d) # script_ops rest)"
  by pat_completeness auto
termination by (relation "measure length") (auto dest: GetScriptOp_shorter)

function script_complete :: "byte list \<Rightarrow> bool" where
  "script_complete pc =
    (if pc = [] then True
     else case GetScriptOp pc of None \<Rightarrow> False | Some (opcode, d, rest) \<Rightarrow> script_complete rest)"
  by pat_completeness auto
termination by (relation "measure length") (auto dest: GetScriptOp_shorter)

declare script_ops.simps [simp del] script_complete.simps [simp del]

lemma GetScriptOp_Nil [simp]: "GetScriptOp [] = None"
  by (simp add: GetScriptOp_def)

lemma length_script_ops: "length (script_ops pc) \<le> length pc"
proof (induction pc rule: script_ops.induct)
  case (1 pc)
  show ?case
  proof (cases "GetScriptOp pc")
    case (Some r)
    obtain opcode d rest where r: "r = (opcode, d, rest)" by (cases r)
    then have "length (script_ops rest) \<le> length rest" using 1 Some by blast
    then show ?thesis using Some r GetScriptOp_shorter [of pc opcode d rest] by (subst script_ops.simps) simp
  qed (simp add: script_ops.simps [of pc])
qed

text \<open>The weight of one operation, given the one before it.\<close>

definition sigop_weight :: "bool \<Rightarrow> nat \<Rightarrow> nat \<Rightarrow> nat" where
  "sigop_weight accurate prev opcode =
    (if opcode = OP_CHECKSIG \<or> opcode = OP_CHECKSIGVERIFY then 1
     else if opcode = OP_CHECKMULTISIG \<or> opcode = OP_CHECKMULTISIGVERIFY then
       (if accurate \<and> OP_1 \<le> prev \<and> prev \<le> OP_16 then prev - 0x50 else 20)
     else 0)"

fun sigops_of :: "bool \<Rightarrow> nat \<Rightarrow> nat list \<Rightarrow> nat" where
  "sigops_of accurate prev [] = 0"
| "sigops_of accurate prev (opcode # ops) = sigop_weight accurate prev opcode + sigops_of accurate opcode ops"

lemma GetSigOpCount_loop_ops:
  "GetSigOpCount_loop a pc prev n = n + sigops_of a prev (map fst (script_ops pc))"
proof (induction pc arbitrary: prev n rule: script_ops.induct)
  case (1 pc)
  show ?case
  proof (cases "GetScriptOp pc")
    case (Some r)
    obtain opcode d rest where r: "r = (opcode, d, rest)" by (cases r)
    then have IH: "GetSigOpCount_loop a rest prev n = n + sigops_of a prev (map fst (script_ops rest))" for prev n
      using 1 Some by blast
    show ?thesis
      by (subst GetSigOpCount_loop.simps, subst script_ops.simps)
        (simp add: Some r IH sigop_weight_def DecodeOP_N_def)
  qed (simp add: GetSigOpCount_loop.simps [of a pc] script_ops.simps [of pc])
qed

lemma sigop_weight_le: "sigop_weight a prev opcode \<le> 20" "sigop_weight True prev opcode \<le> sigop_weight False prev opcode"
  by (auto simp: sigop_weight_def)

lemma sigops_of_le: "sigops_of a prev ops \<le> 20 * length ops" "sigops_of True prev ops \<le> sigops_of False prev ops"
proof (induction ops arbitrary: prev)
  case (Cons opcode ops)
  { case 1 show ?case using Cons.IH(1) [of opcode] sigop_weight_le(1) [of a prev opcode] by simp
  next
    case 2 show ?case using Cons.IH(2) [of opcode] sigop_weight_le(2) [of prev opcode] by simp }
qed simp_all

text \<open>
  The signature-operation count of a script is the sum over its operations of 1 for each signature check and,
  for each multi-signature check, of the number pushed right before it (when counted accurately) or 20. The
  accurate count never exceeds the other one, and neither exceeds 20 per byte of the script.
\<close>

theorem GetSigOpCount_sum:
  "GetSigOpCount s a = sigops_of a OP_INVALIDOPCODE (map fst (script_ops s)) \<and>
    GetSigOpCount s True \<le> GetSigOpCount s False \<and> GetSigOpCount s a \<le> 20 * length s"
  using sigops_of_le(1) [of a OP_INVALIDOPCODE "map fst (script_ops s)"] length_script_ops [of s]
    sigops_of_le(2) [of OP_INVALIDOPCODE "map fst (script_ops s)"]
  by (simp add: GetSigOpCount_def GetSigOpCount_loop_ops)

lemma IsPushOnly_ops: "IsPushOnly pc \<longleftrightarrow> script_complete pc \<and> (\<forall>(opcode, d) \<in> set (script_ops pc). opcode \<le> OP_16)"
proof (induction pc rule: IsPushOnly.induct)
  case (1 pc)
  show ?case
  proof (cases "GetScriptOp pc")
    case None
    then show ?thesis by (subst IsPushOnly.simps, subst script_ops.simps, subst script_complete.simps) simp
  next
    case (Some r)
    obtain opcode d rest where r: "r = (opcode, d, rest)" by (cases r)
    then have ne: "pc \<noteq> []" using Some by auto
    then have "\<not> opcode > OP_16 \<Longrightarrow>
        IsPushOnly rest \<longleftrightarrow> script_complete rest \<and> (\<forall>(opcode, d) \<in> set (script_ops rest). opcode \<le> OP_16)"
      using 1 Some r by blast
    then show ?thesis
      by (subst IsPushOnly.simps, subst script_ops.simps, subst script_complete.simps) (auto simp: ne Some r)
  qed
qed

lemma push_data_ne: "push_data b \<noteq> []"
  by (simp add: push_data_def)

lemma pushes_read:
  assumes "\<forall>b \<in> set bs. length b < 2 ^ 32"
  shows "IsPushOnly (concat (map push_data bs)) \<and>
    last_push (concat (map push_data bs)) d = Some (if bs = [] then d else last bs)"
  using assms
proof (induction bs arbitrary: d)
  case (Cons b bs)
  let ?rest = "concat (map push_data bs)"
  obtain op where op: "op \<le> OP_PUSHDATA4" "GetScriptOp (push_data b @ ?rest) = Some (op, b, ?rest)"
    using push_data_read [of b ?rest] Cons.prems by auto
  have ne: "push_data b @ ?rest \<noteq> []" using push_data_ne [of b] by simp
  have IH: "IsPushOnly ?rest" "last_push ?rest b = Some (if bs = [] then b else last bs)"
    using Cons.IH [of b] Cons.prems by simp_all
  have "IsPushOnly (push_data b @ ?rest)"
    using op(1) IH(1) by (subst IsPushOnly.simps) (simp only: ne op(2) if_False option.case prod.case, simp)
  moreover have "last_push (push_data b @ ?rest) d = Some (if bs = [] then b else last bs)"
    using op(1) IH(2) by (subst last_push.simps) (simp only: ne op(2) if_False option.case prod.case, simp)
  ultimately show ?case by simp
qed (simp add: IsPushOnly.simps last_push.simps)

text \<open>
  A signature script made of pushes is push-only, and the signature operations of a pay-to-script-hash output
  spent by it are those of the last item pushed, the redeem script, counted accurately.
\<close>

theorem GetSigOpCount_P2SH_redeem:
  assumes "IsPayToScriptHash s" "\<forall>b \<in> set bs. length b < 2 ^ 32" "length redeem < 2 ^ 32"
  shows "IsPushOnly (concat (map push_data (bs @ [redeem]))) \<and>
    GetSigOpCount_P2SH s (concat (map push_data (bs @ [redeem]))) = GetSigOpCount redeem True"
proof -
  have "\<forall>b \<in> set (bs @ [redeem]). length b < 2 ^ 32" using assms(2,3) by auto
  from pushes_read [OF this, of "[]"] show ?thesis
    using assms(1) unfolding GetSigOpCount_P2SH_def by simp
qed

theorem GetSigOpCount_P2SH_redeem_witness:
  "IsPushOnly (concat (map push_data ([[1]] @ [[0xac]]))) \<and>
    GetSigOpCount_P2SH ([0xa9, 0x14] @ replicate 20 0 @ [0x87]) (concat (map push_data ([[1]] @ [[0xac]]))) = GetSigOpCount [0xac] True"
proof -
  have "IsPayToScriptHash ([0xa9, 0x14] @ replicate 20 0 @ [0x87])"
    by (simp add: IsPayToScriptHash_def nth_append nth_Cons' )
  then show ?thesis using GetSigOpCount_P2SH_redeem [of "[0xa9, 0x14] @ replicate 20 0 @ [0x87]" "[[1]]" "[0xac]"] by simp
qed

end
