(* ===== verification/Script_Error.thy ===== *)
theory Script_Error
  imports Main
begin

text \<open>
  The error codes of the script interpreter (\<^verbatim>\<open>src/src/script/script_error.h\<close>) and their messages
  (\<^verbatim>\<open>src/src/script/script_error.cpp\<close>). The marker for the number of codes is not a value an operation returns
  and is left out.
\<close>

datatype ScriptError =
    SCRIPT_ERR_OK
  | SCRIPT_ERR_UNKNOWN_ERROR
  | SCRIPT_ERR_EVAL_FALSE
  | SCRIPT_ERR_OP_RETURN
  | SCRIPT_ERR_SCRIPT_SIZE
  | SCRIPT_ERR_PUSH_SIZE
  | SCRIPT_ERR_OP_COUNT
  | SCRIPT_ERR_STACK_SIZE
  | SCRIPT_ERR_SIG_COUNT
  | SCRIPT_ERR_PUBKEY_COUNT
  | SCRIPT_ERR_VERIFY
  | SCRIPT_ERR_EQUALVERIFY
  | SCRIPT_ERR_CHECKMULTISIGVERIFY
  | SCRIPT_ERR_CHECKSIGVERIFY
  | SCRIPT_ERR_CHECKDATASIGVERIFY
  | SCRIPT_ERR_NUMEQUALVERIFY
  | SCRIPT_ERR_BAD_OPCODE
  | SCRIPT_ERR_DISABLED_OPCODE
  | SCRIPT_ERR_INVALID_STACK_OPERATION
  | SCRIPT_ERR_INVALID_ALTSTACK_OPERATION
  | SCRIPT_ERR_UNBALANCED_CONDITIONAL
  | SCRIPT_ERR_INVALID_SPLIT_RANGE
  | SCRIPT_ERR_INVALID_OPERAND_SIZE
  | SCRIPT_ERR_INVALID_NUMBER_RANGE
  | SCRIPT_ERR_IMPOSSIBLE_ENCODING
  | SCRIPT_ERR_DIV_BY_ZERO
  | SCRIPT_ERR_MOD_BY_ZERO
  | SCRIPT_ERR_NEGATIVE_LOCKTIME
  | SCRIPT_ERR_UNSATISFIED_LOCKTIME
  | SCRIPT_ERR_SIG_HASHTYPE
  | SCRIPT_ERR_SIG_DER
  | SCRIPT_ERR_MINIMALDATA
  | SCRIPT_ERR_SIG_PUSHONLY
  | SCRIPT_ERR_SIG_HIGH_S
  | SCRIPT_ERR_SIG_NULLDUMMY
  | SCRIPT_ERR_PUBKEYTYPE
  | SCRIPT_ERR_CLEANSTACK
  | SCRIPT_ERR_SIG_NULLFAIL
  | SCRIPT_ERR_DISCOURAGE_UPGRADABLE_NOPS
  | SCRIPT_ERR_OP_CODESEPARATOR
  | SCRIPT_ERR_SIG_FINDANDDELETE

fun ScriptErrorString :: "ScriptError \<Rightarrow> string" where
  "ScriptErrorString SCRIPT_ERR_OK = ''No error''"
| "ScriptErrorString SCRIPT_ERR_EVAL_FALSE = ''Script evaluated without error but finished with a false/empty top stack element''"
| "ScriptErrorString SCRIPT_ERR_VERIFY = ''Script failed an OP_VERIFY operation''"
| "ScriptErrorString SCRIPT_ERR_EQUALVERIFY = ''Script failed an OP_EQUALVERIFY operation''"
| "ScriptErrorString SCRIPT_ERR_CHECKMULTISIGVERIFY = ''Script failed an OP_CHECKMULTISIGVERIFY operation''"
| "ScriptErrorString SCRIPT_ERR_CHECKSIGVERIFY = ''Script failed an OP_CHECKSIGVERIFY operation''"
| "ScriptErrorString SCRIPT_ERR_CHECKDATASIGVERIFY = ''Script failed an OP_CHECKDATASIGVERIFY operation''"
| "ScriptErrorString SCRIPT_ERR_NUMEQUALVERIFY = ''Script failed an OP_NUMEQUALVERIFY operation''"
| "ScriptErrorString SCRIPT_ERR_SCRIPT_SIZE = ''Script is too big''"
| "ScriptErrorString SCRIPT_ERR_PUSH_SIZE = ''Push value size limit exceeded''"
| "ScriptErrorString SCRIPT_ERR_OP_COUNT = ''Operation limit exceeded''"
| "ScriptErrorString SCRIPT_ERR_STACK_SIZE = ''Stack size limit exceeded''"
| "ScriptErrorString SCRIPT_ERR_SIG_COUNT = ''Signature count negative or greater than pubkey count''"
| "ScriptErrorString SCRIPT_ERR_PUBKEY_COUNT = ''Pubkey count negative or limit exceeded''"
| "ScriptErrorString SCRIPT_ERR_BAD_OPCODE = ''Opcode missing or not understood''"
| "ScriptErrorString SCRIPT_ERR_DISABLED_OPCODE = ''Attempted to use a disabled opcode''"
| "ScriptErrorString SCRIPT_ERR_INVALID_STACK_OPERATION = ''Operation not valid with the current stack size''"
| "ScriptErrorString SCRIPT_ERR_INVALID_ALTSTACK_OPERATION = ''Operation not valid with the current altstack size''"
| "ScriptErrorString SCRIPT_ERR_OP_RETURN = ''OP_RETURN was encountered''"
| "ScriptErrorString SCRIPT_ERR_UNBALANCED_CONDITIONAL = ''Invalid OP_IF construction''"
| "ScriptErrorString SCRIPT_ERR_INVALID_SPLIT_RANGE = ''Invalid OP_SPLIT range''"
| "ScriptErrorString SCRIPT_ERR_INVALID_OPERAND_SIZE = ''Invalid operand size''"
| "ScriptErrorString SCRIPT_ERR_INVALID_NUMBER_RANGE = ''The requested encoding is impossible to satisfy''"
| "ScriptErrorString SCRIPT_ERR_IMPOSSIBLE_ENCODING = ''The requested encoding is impossible to satisfy''"
| "ScriptErrorString SCRIPT_ERR_DIV_BY_ZERO = ''Division by zero error''"
| "ScriptErrorString SCRIPT_ERR_MOD_BY_ZERO = ''Modulo by zero error''"
| "ScriptErrorString SCRIPT_ERR_NEGATIVE_LOCKTIME = ''Negative locktime''"
| "ScriptErrorString SCRIPT_ERR_UNSATISFIED_LOCKTIME = ''Locktime requirement not satisfied''"
| "ScriptErrorString SCRIPT_ERR_SIG_HASHTYPE = ''Signature hash type missing or not understood''"
| "ScriptErrorString SCRIPT_ERR_SIG_DER = ''Non-canonical DER signature''"
| "ScriptErrorString SCRIPT_ERR_MINIMALDATA = ''Data push larger than necessary''"
| "ScriptErrorString SCRIPT_ERR_SIG_PUSHONLY = ''Only push operators allowed in signatures''"
| "ScriptErrorString SCRIPT_ERR_SIG_HIGH_S = ''Non-canonical signature: S value is unnecessarily high''"
| "ScriptErrorString SCRIPT_ERR_SIG_NULLDUMMY = ''Dummy CHECKMULTISIG argument must be zero''"
| "ScriptErrorString SCRIPT_ERR_SIG_NULLFAIL = ''Signature must be zero for failed CHECK(MULTI)SIG operation''"
| "ScriptErrorString SCRIPT_ERR_DISCOURAGE_UPGRADABLE_NOPS = ''NOPx reserved for soft-fork upgrades''"
| "ScriptErrorString SCRIPT_ERR_PUBKEYTYPE = ''Public key is neither compressed or uncompressed''"
| "ScriptErrorString SCRIPT_ERR_CLEANSTACK = ''Stack size must be exactly one after execution''"
| "ScriptErrorString SCRIPT_ERR_OP_CODESEPARATOR = ''Using OP_CODESEPARATOR''"
| "ScriptErrorString SCRIPT_ERR_SIG_FINDANDDELETE = ''Signature is found in scriptCode''"
| "ScriptErrorString _ = ''unknown error''"

end
