(* ===== verification/Script_Checks.thy ===== *)
theory Script_Checks
  imports Script Script_Error
begin

text \<open>
  The helpers of the script interpreter in \<^verbatim>\<open>src/src/script/interpreter.cpp\<close>: the verification flags, the encoding rules
  of signatures and public keys, minimal pushes, \<^verbatim>\<open>FindAndDelete\<close> and the condition stack. A helper that sets an error code and
  returns false is a function to \<open>ScriptError option\<close>, with \<open>None\<close> for the return value true.
\<close>

unbundle bit_operations_syntax

section \<open>Flags\<close>

abbreviation (input) SIGHASH_ALL :: nat where "SIGHASH_ALL \<equiv> 1"
abbreviation (input) SIGHASH_NONE :: nat where "SIGHASH_NONE \<equiv> 2"
abbreviation (input) SIGHASH_SINGLE :: nat where "SIGHASH_SINGLE \<equiv> 3"
abbreviation (input) SIGHASH_ANYONECANPAY :: nat where "SIGHASH_ANYONECANPAY \<equiv> 0x80"

abbreviation (input) SCRIPT_VERIFY_NONE :: u32 where "SCRIPT_VERIFY_NONE \<equiv> 0"
abbreviation (input) SCRIPT_VERIFY_P2SH :: u32 where "SCRIPT_VERIFY_P2SH \<equiv> push_bit 0 1"
abbreviation (input) SCRIPT_VERIFY_STRICTENC :: u32 where "SCRIPT_VERIFY_STRICTENC \<equiv> push_bit 1 1"
abbreviation (input) SCRIPT_VERIFY_DERSIG :: u32 where "SCRIPT_VERIFY_DERSIG \<equiv> push_bit 2 1"
abbreviation (input) SCRIPT_VERIFY_LOW_S :: u32 where "SCRIPT_VERIFY_LOW_S \<equiv> push_bit 3 1"
abbreviation (input) SCRIPT_VERIFY_NULLDUMMY :: u32 where "SCRIPT_VERIFY_NULLDUMMY \<equiv> push_bit 4 1"
abbreviation (input) SCRIPT_VERIFY_SIGPUSHONLY :: u32 where "SCRIPT_VERIFY_SIGPUSHONLY \<equiv> push_bit 5 1"
abbreviation (input) SCRIPT_VERIFY_MINIMALDATA :: u32 where "SCRIPT_VERIFY_MINIMALDATA \<equiv> push_bit 6 1"
abbreviation (input) SCRIPT_VERIFY_DISCOURAGE_UPGRADABLE_NOPS :: u32 where "SCRIPT_VERIFY_DISCOURAGE_UPGRADABLE_NOPS \<equiv> push_bit 7 1"
abbreviation (input) SCRIPT_VERIFY_CLEANSTACK :: u32 where "SCRIPT_VERIFY_CLEANSTACK \<equiv> push_bit 8 1"
abbreviation (input) SCRIPT_VERIFY_CHECKLOCKTIMEVERIFY :: u32 where "SCRIPT_VERIFY_CHECKLOCKTIMEVERIFY \<equiv> push_bit 9 1"
abbreviation (input) SCRIPT_VERIFY_CHECKSEQUENCEVERIFY :: u32 where "SCRIPT_VERIFY_CHECKSEQUENCEVERIFY \<equiv> push_bit 10 1"
abbreviation (input) SCRIPT_VERIFY_NULLFAIL :: u32 where "SCRIPT_VERIFY_NULLFAIL \<equiv> push_bit 14 1"
abbreviation (input) SCRIPT_ENABLE_DIP0020_OPCODES :: u32 where "SCRIPT_ENABLE_DIP0020_OPCODES \<equiv> push_bit 15 1"
abbreviation (input) SCRIPT_VERIFY_CONST_SCRIPTCODE :: u32 where "SCRIPT_VERIFY_CONST_SCRIPTCODE \<equiv> push_bit 16 1"

definition flag :: "u32 \<Rightarrow> u32 \<Rightarrow> bool" where
  "flag flags f \<longleftrightarrow> flags AND f \<noteq> 0"

text \<open>The one signature version of this code base.\<close>

datatype SigVersion = BASE

section \<open>Truth values\<close>

fun CastToBool_loop :: "valtype \<Rightarrow> nat \<Rightarrow> nat \<Rightarrow> bool" where
  "CastToBool_loop vch i 0 = False"
| "CastToBool_loop vch i (Suc k) =
    (if vch ! i \<noteq> 0 then (if i = length vch - 1 \<and> vch ! i = 0x80 then False else True)
     else CastToBool_loop vch (i + 1) k)"

definition CastToBool :: "valtype \<Rightarrow> bool" where
  "CastToBool vch = CastToBool_loop vch 0 (length vch)"

section \<open>Public keys and signatures\<close>

abbreviation (input) PUBKEY_SIZE :: nat where "PUBKEY_SIZE \<equiv> 65"
abbreviation (input) COMPRESSED_SIZE :: nat where "COMPRESSED_SIZE \<equiv> 33"

definition IsCompressedOrUncompressedPubKey :: "valtype \<Rightarrow> bool" where
  "IsCompressedOrUncompressedPubKey vchPubKey =
    (if length vchPubKey < COMPRESSED_SIZE then False
     else if vchPubKey ! 0 = 0x04 then (if length vchPubKey \<noteq> PUBKEY_SIZE then False else True)
     else if vchPubKey ! 0 = 0x02 \<or> vchPubKey ! 0 = 0x03 then
       (if length vchPubKey \<noteq> COMPRESSED_SIZE then False else True)
     else False)"

definition IsCompressedPubKey :: "valtype \<Rightarrow> bool" where
  "IsCompressedPubKey vchPubKey =
    (if length vchPubKey \<noteq> COMPRESSED_SIZE then False
     else if vchPubKey ! 0 \<noteq> 0x02 \<and> vchPubKey ! 0 \<noteq> 0x03 then False
     else True)"

definition IsValidSignatureEncoding :: "valtype \<Rightarrow> bool" where
  "IsValidSignatureEncoding sig =
    (if length sig < 9 then False
     else if length sig > 73 then False
     else if sig ! 0 \<noteq> 0x30 then False
     else if unat (sig ! 1) \<noteq> length sig - 3 then False
     else let lenR = unat (sig ! 3)
          in if 5 + lenR \<ge> length sig then False
             else let lenS = unat (sig ! (5 + lenR))
                  in if lenR + lenS + 7 \<noteq> length sig then False
                     else if sig ! 2 \<noteq> 0x02 then False
                     else if lenR = 0 then False
                     else if sig ! 4 AND 0x80 \<noteq> 0 then False
                     else if lenR > 1 \<and> sig ! 4 = 0x00 \<and> \<not> (sig ! 5 AND 0x80 \<noteq> 0) then False
                     else if sig ! (lenR + 4) \<noteq> 0x02 then False
                     else if lenS = 0 then False
                     else if sig ! (lenR + 6) AND 0x80 \<noteq> 0 then False
                     else if lenS > 1 \<and> sig ! (lenR + 6) = 0x00 \<and> \<not> (sig ! (lenR + 7) AND 0x80 \<noteq> 0) then False
                     else True)"

definition IsLowDERSignature :: "(valtype \<Rightarrow> bool) \<Rightarrow> valtype \<Rightarrow> ScriptError option" where
  "IsLowDERSignature CheckLowS vchSig =
    (if \<not> IsValidSignatureEncoding vchSig then Some SCRIPT_ERR_SIG_DER
     else if \<not> CheckLowS (take (length vchSig - 1) vchSig) then Some SCRIPT_ERR_SIG_HIGH_S
     else None)"

definition IsDefinedHashtypeSignature :: "valtype \<Rightarrow> bool" where
  "IsDefinedHashtypeSignature vchSig =
    (if length vchSig = 0 then False
     else let nHashType = vchSig ! (length vchSig - 1) AND NOT (of_nat SIGHASH_ANYONECANPAY)
          in if unat nHashType < SIGHASH_ALL \<or> unat nHashType > SIGHASH_SINGLE then False else True)"

definition CheckSignatureEncoding :: "(valtype \<Rightarrow> bool) \<Rightarrow> valtype \<Rightarrow> u32 \<Rightarrow> ScriptError option" where
  "CheckSignatureEncoding CheckLowS vchSig flags =
    (if length vchSig = 0 then None
     else if flag flags (SCRIPT_VERIFY_DERSIG OR SCRIPT_VERIFY_LOW_S OR SCRIPT_VERIFY_STRICTENC) \<and>
       \<not> IsValidSignatureEncoding vchSig then Some SCRIPT_ERR_SIG_DER
     else if flag flags SCRIPT_VERIFY_LOW_S \<and> IsLowDERSignature CheckLowS vchSig \<noteq> None then
       IsLowDERSignature CheckLowS vchSig
     else if flag flags SCRIPT_VERIFY_STRICTENC \<and> \<not> IsDefinedHashtypeSignature vchSig then
       Some SCRIPT_ERR_SIG_HASHTYPE
     else None)"

definition CheckPubKeyEncoding :: "valtype \<Rightarrow> u32 \<Rightarrow> ScriptError option" where
  "CheckPubKeyEncoding vchPubKey flags =
    (if flag flags SCRIPT_VERIFY_STRICTENC \<and> \<not> IsCompressedOrUncompressedPubKey vchPubKey
     then Some SCRIPT_ERR_PUBKEYTYPE else None)"

text \<open>The assertion on the opcode is the outer \<open>None\<close>.\<close>

definition CheckMinimalPush :: "valtype \<Rightarrow> nat \<Rightarrow> bool option" where
  "CheckMinimalPush d opcode =
    (if \<not> opcode \<le> OP_PUSHDATA4 then None
     else if length d = 0 then Some (opcode = OP_0)
     else if length d = 1 \<and> unat (d ! 0) \<ge> 1 \<and> unat (d ! 0) \<le> 16 then Some False
     else if length d = 1 \<and> d ! 0 = 0x81 then Some False
     else if length d \<le> 75 then Some (opcode = length d)
     else if length d \<le> 255 then Some (opcode = OP_PUSHDATA1)
     else if length d \<le> 65535 then Some (opcode = OP_PUSHDATA2)
     else Some True)"

section \<open>FindAndDelete\<close>

text \<open>
  Iterators are the remaining parts of the script. \<open>skip_matches\<close> is the inner loop, \<open>FindAndDelete_loop\<close> the outer one with
  the iterators \<open>pc2\<close> and \<open>pc\<close>; a result is the new script and the number of deleted copies.
\<close>

function skip_matches :: "CScript \<Rightarrow> nat \<Rightarrow> byte list \<Rightarrow> nat \<times> byte list" where
  "skip_matches b nFound pc =
    (if b \<noteq> [] \<and> length pc \<ge> length b \<and> take (length b) pc = b
     then skip_matches b (nFound + 1) (drop (length b) pc)
     else (nFound, pc))"
  by pat_completeness auto
termination
  by (relation "measure (\<lambda>(_, _, pc). length pc)") (auto simp: neq_Nil_conv)

declare skip_matches.simps [simp del]

lemma skip_matches_shorter: "skip_matches b n pc = (n', pc') \<Longrightarrow> length pc' \<le> length pc"
proof (induction b n pc rule: skip_matches.induct)
  case (1 b n pc)
  show ?case
  proof (cases "b \<noteq> [] \<and> length pc \<ge> length b \<and> take (length b) pc = b")
    case True
    then have "length pc' \<le> length (drop (length b) pc)"
      using 1 by (simp add: skip_matches.simps [of b n pc])
    then show ?thesis by simp
  next
    case False
    then show ?thesis using 1(2) by (auto simp: skip_matches.simps [of b n pc] split: if_splits)
  qed
qed

function FindAndDelete_loop ::
  "CScript \<Rightarrow> nat \<Rightarrow> byte list \<Rightarrow> byte list \<Rightarrow> byte list \<Rightarrow> nat \<times> byte list \<times> byte list" where
  "FindAndDelete_loop b nFound result pc2 pc =
    (let result = result @ take (length pc2 - length pc) pc2;
         (nFound, pc) = skip_matches b nFound pc
     in case GetScriptOp pc of
          None \<Rightarrow> (nFound, result, pc)
        | Some (_, _, rest) \<Rightarrow> FindAndDelete_loop b nFound result pc rest)"
  by pat_completeness auto
termination
  by (relation "measure (\<lambda>(_, _, _, _, pc). length pc)")
    (auto dest!: GetScriptOp_shorter dest: skip_matches_shorter [OF sym])

declare FindAndDelete_loop.simps [simp del]

definition FindAndDelete :: "CScript \<Rightarrow> CScript \<Rightarrow> nat \<times> CScript" where
  "FindAndDelete script b =
    (if b = [] then (0, script)
     else let (nFound, result, pc2) = FindAndDelete_loop b 0 [] script script
          in (nFound, if nFound > 0 then result @ pc2 else script))"

section \<open>The condition stack\<close>

record ConditionStack =
  m_stack_size :: u32
  m_first_false_pos :: u32

abbreviation (input) NO_FALSE :: u32 where "NO_FALSE \<equiv> 0xffffffff"

definition cs_init :: ConditionStack where
  "cs_init = \<lparr>m_stack_size = 0, m_first_false_pos = NO_FALSE\<rparr>"

definition cs_empty :: "ConditionStack \<Rightarrow> bool" where
  "cs_empty s \<longleftrightarrow> m_stack_size s = 0"

definition cs_all_true :: "ConditionStack \<Rightarrow> bool" where
  "cs_all_true s \<longleftrightarrow> m_first_false_pos s = NO_FALSE"

definition cs_push_back :: "bool \<Rightarrow> ConditionStack \<Rightarrow> ConditionStack" where
  "cs_push_back f s =
    (let s = (if m_first_false_pos s = NO_FALSE \<and> \<not> f then s\<lparr>m_first_false_pos := m_stack_size s\<rparr> else s)
     in s\<lparr>m_stack_size := m_stack_size s + 1\<rparr>)"

definition cs_pop_back :: "ConditionStack \<Rightarrow> ConditionStack option" where
  "cs_pop_back s =
    (if \<not> m_stack_size s > 0 then None
     else let s = s\<lparr>m_stack_size := m_stack_size s - 1\<rparr>
          in Some (if m_first_false_pos s = m_stack_size s then s\<lparr>m_first_false_pos := NO_FALSE\<rparr> else s))"

definition cs_toggle_top :: "ConditionStack \<Rightarrow> ConditionStack option" where
  "cs_toggle_top s =
    (if \<not> m_stack_size s > 0 then None
     else if m_first_false_pos s = NO_FALSE then Some (s\<lparr>m_first_false_pos := m_stack_size s - 1\<rparr>)
     else if m_first_false_pos s = m_stack_size s - 1 then Some (s\<lparr>m_first_false_pos := NO_FALSE\<rparr>)
     else Some s)"

section \<open>The condition stack is a vector of booleans\<close>

text \<open>
  The interface the interpreter relies on: the vector of booleans that the comment of the class describes, with a relation between
  the implementation and the vector that every operation keeps. The vector grows at its end, and \<open>cap\<close> bounds its length.
\<close>

datatype cond_op = Push bool | Pop | Toggle

fun vec_op :: "cond_op \<Rightarrow> bool list \<Rightarrow> bool list option" where
  "vec_op (Push f) l = Some (l @ [f])"
| "vec_op Pop l = (if l = [] then None else Some (butlast l))"
| "vec_op Toggle l = (if l = [] then None else Some (butlast l @ [\<not> last l]))"

fun run_ops :: "('o \<Rightarrow> 's \<Rightarrow> 's option) \<Rightarrow> 'o list \<Rightarrow> 's \<Rightarrow> 's option" where
  "run_ops f [] s = Some s"
| "run_ops f (p # ps) s = (case f p s of None \<Rightarrow> None | Some s' \<Rightarrow> run_ops f ps s')"

lemma vec_op_length: "vec_op p l = Some l' \<Longrightarrow> length l' \<le> length l + 1"
  by (cases p) (auto split: if_splits)

locale condition_stack =
  fixes R :: "'s \<Rightarrow> bool list \<Rightarrow> bool"
    and init :: 's
    and empty :: "'s \<Rightarrow> bool"
    and all_true :: "'s \<Rightarrow> bool"
    and push_back :: "bool \<Rightarrow> 's \<Rightarrow> 's"
    and pop_back toggle_top :: "'s \<Rightarrow> 's option"
    and cap :: nat
  assumes init: "R init []"
    and empty_iff: "R s l \<Longrightarrow> empty s \<longleftrightarrow> l = []"
    and all_true_iff: "R s l \<Longrightarrow> all_true s \<longleftrightarrow> (\<forall>b \<in> set l. b)"
    and push_back: "R s l \<Longrightarrow> length l < cap \<Longrightarrow> R (push_back f s) (l @ [f])"
    and pop_back: "R s l \<Longrightarrow> rel_option R (pop_back s) (vec_op Pop l)"
    and toggle_top: "R s l \<Longrightarrow> rel_option R (toggle_top s) (vec_op Toggle l)"
begin

fun impl_op :: "cond_op \<Rightarrow> 's \<Rightarrow> 's option" where
  "impl_op (Push f) s = Some (push_back f s)"
| "impl_op Pop s = pop_back s"
| "impl_op Toggle s = toggle_top s"

lemma impl_op_sim: "R s l \<Longrightarrow> length l < cap \<Longrightarrow> rel_option R (impl_op p s) (vec_op p l)"
  using pop_back toggle_top by (cases p) (auto simp: push_back)

lemma run_sim: "R s l \<Longrightarrow> length l + length ps \<le> cap \<Longrightarrow> rel_option R (run_ops impl_op ps s) (run_ops vec_op ps l)"
proof (induction ps arbitrary: s l)
  case (Cons p ps)
  have sim: "rel_option R (impl_op p s) (vec_op p l)"
    using Cons.prems by (intro impl_op_sim) auto
  show ?case
  proof (cases "vec_op p l")
    case None
    then show ?thesis using sim by (auto simp: rel_option_iff split: option.splits)
  next
    case (Some l')
    then obtain s' where "impl_op p s = Some s'" "R s' l'"
      using sim by (auto simp: rel_option_iff split: option.splits)
    moreover have "length l' + length ps \<le> cap"
      using vec_op_length [OF Some] Cons.prems(2) by simp
    ultimately show ?thesis using Cons.IH [of s' l'] Some by simp
  qed
qed simp

lemma run_observations:
  assumes "length ps \<le> cap"
  shows "map_option (\<lambda>s. (empty s, all_true s)) (run_ops impl_op ps init)
    = map_option (\<lambda>l. (l = [], \<forall>b \<in> set l. b)) (run_ops vec_op ps [])"
  using run_sim [OF init, of ps] assms empty_iff all_true_iff
  by (auto simp: rel_option_iff split: option.splits)

end

definition cs_rel :: "ConditionStack \<Rightarrow> bool list \<Rightarrow> bool" where
  "cs_rel s l \<longleftrightarrow> length l < 2 ^ 32 - 1 \<and> unat (m_stack_size s) = length l \<and>
     (if \<forall>b \<in> set l. b then m_first_false_pos s = NO_FALSE
      else unat (m_first_false_pos s) = length (takeWhile (\<lambda>b. b) l))"

fun cs_op :: "cond_op \<Rightarrow> ConditionStack \<Rightarrow> ConditionStack option" where
  "cs_op (Push f) s = Some (cs_push_back f s)"
| "cs_op Pop s = cs_pop_back s"
| "cs_op Toggle s = cs_toggle_top s"

lemma takeWhile_false_less: "\<not> (\<forall>b \<in> set l. b) \<Longrightarrow> length (takeWhile (\<lambda>b. b) l) < length l"
  by (induction l) auto

lemma takeWhile_all: "\<forall>b \<in> set l. b \<Longrightarrow> takeWhile (\<lambda>b. b) l = l"
  by (induction l) auto

lemma unat_NO_FALSE: "unat NO_FALSE = 2 ^ 32 - 1"
  by simp

lemma cs_rel_pos: "cs_rel s l \<Longrightarrow> m_first_false_pos s = NO_FALSE \<longleftrightarrow> (\<forall>b \<in> set l. b)"
  using takeWhile_false_less [of l] by (auto simp: cs_rel_def split: if_splits)

lemma cs_rel_size: "cs_rel s l \<Longrightarrow> m_stack_size s = 0 \<longleftrightarrow> l = []"
  by (auto simp: cs_rel_def unat_eq_zero [symmetric])

lemma cs_rel_push:
  assumes "cs_rel s l" "length l < 2 ^ 32 - 2"
  shows "cs_rel (cs_push_back f s) (l @ [f])"
proof -
  have sz: "unat (m_stack_size s) = length l" using assms(1) by (simp add: cs_rel_def)
  have "unat (m_stack_size s + 1) = length l + 1"
    using sz assms(2) by (subst unat_plus_no_overflow) simp_all
  then show ?thesis
    using assms sz cs_rel_pos [OF assms(1)]
    by (auto simp: cs_rel_def cs_push_back_def takeWhile_all takeWhile_append split: if_splits)
qed

lemma unat_pred: "0 < (w :: u32) \<Longrightarrow> unat (w - 1) = unat w - 1"
  by (simp add: unat_minus_one word_neq_0_conv)

lemma cs_rel_nonempty: "cs_rel s l \<Longrightarrow> 0 < m_stack_size s \<longleftrightarrow> l \<noteq> []"
  using cs_rel_size [of s l] by (simp add: word_neq_0_conv [symmetric])

lemma takeWhile_snoc_cases:
  "takeWhile (\<lambda>b. b) (l @ [f]) = (if \<forall>b \<in> set l. b then l @ (if f then [f] else []) else takeWhile (\<lambda>b. b) l)"
  by (auto simp: takeWhile_append takeWhile_all)

lemma cs_rel_pop: 
  assumes "cs_rel s l"
  shows "rel_option cs_rel (cs_pop_back s) (vec_op Pop l)"
proof (cases l rule: rev_cases)
  case Nil
  then show ?thesis using cs_rel_nonempty [OF assms] by (simp add: cs_pop_back_def)
next
  case (snoc k f)
  have pos: "0 < m_stack_size s" using cs_rel_nonempty [OF assms] snoc by simp
  then have sz: "unat (m_stack_size s - 1) = length k"
    using assms snoc by (simp add: unat_pred cs_rel_def)
  have k: "length k < 2 ^ 32 - 1" using assms snoc by (simp add: cs_rel_def)
  have same: "m_first_false_pos s = m_stack_size s - 1 \<longleftrightarrow> unat (m_first_false_pos s) = length k"
    using sz by (metis word_unat_eq_iff)
  show ?thesis
  proof (cases "\<forall>b \<in> set k. b")
    case True
    have "unat (m_first_false_pos s) = (if f then 2 ^ 32 - 1 else length k)"
      using assms snoc True by (auto simp: cs_rel_def takeWhile_snoc_cases)
    then show ?thesis
      using True snoc pos sz k same assms
      by (auto simp: cs_pop_back_def cs_rel_def takeWhile_snoc_cases split: if_splits)
  next
    case False
    then have "unat (m_first_false_pos s) = length (takeWhile (\<lambda>b. b) k)" "length (takeWhile (\<lambda>b. b) k) < length k"
      using assms snoc by (auto simp: cs_rel_def takeWhile_snoc_cases takeWhile_false_less)
    then show ?thesis
      using False snoc pos sz k same by (auto simp: cs_pop_back_def cs_rel_def)
  qed
qed

lemma cs_rel_toggle: 
  assumes "cs_rel s l"
  shows "rel_option cs_rel (cs_toggle_top s) (vec_op Toggle l)"
proof (cases l rule: rev_cases)
  case Nil
  then show ?thesis using cs_rel_nonempty [OF assms] by (simp add: cs_toggle_top_def)
next
  case (snoc k f)
  have pos: "0 < m_stack_size s" using cs_rel_nonempty [OF assms] snoc by simp
  then have sz: "unat (m_stack_size s - 1) = length k" "unat (m_stack_size s) = Suc (length k)"
    using assms snoc by (simp_all add: unat_pred cs_rel_def)
  have k: "length k < 2 ^ 32 - 2" using assms snoc by (simp add: cs_rel_def)
  have same: "m_first_false_pos s = m_stack_size s - 1 \<longleftrightarrow> unat (m_first_false_pos s) = length k"
    using sz(1) by (metis word_unat_eq_iff)
  show ?thesis
  proof (cases "\<forall>b \<in> set k. b")
    case True
    have "m_first_false_pos s = NO_FALSE \<longleftrightarrow> f" "\<not> f \<longrightarrow> unat (m_first_false_pos s) = length k"
      using cs_rel_pos [OF assms] assms snoc True by (auto simp: cs_rel_def takeWhile_snoc_cases)
    then show ?thesis
      using True snoc pos sz k same by (auto simp: cs_toggle_top_def cs_rel_def takeWhile_snoc_cases)
  next
    case False
    then have "unat (m_first_false_pos s) = length (takeWhile (\<lambda>b. b) k)" "length (takeWhile (\<lambda>b. b) k) < length k"
      using assms snoc by (auto simp: cs_rel_def takeWhile_snoc_cases takeWhile_false_less)
    moreover have "m_first_false_pos s \<noteq> NO_FALSE" using cs_rel_pos [OF assms] False snoc by auto
    ultimately show ?thesis
      using False snoc pos sz k same by (auto simp: cs_toggle_top_def cs_rel_def takeWhile_snoc_cases)
  qed
qed

interpretation cs: condition_stack cs_rel cs_init cs_empty cs_all_true cs_push_back cs_pop_back cs_toggle_top "2 ^ 32 - 2"
proof
  show "cs_rel cs_init []" by (simp add: cs_rel_def cs_init_def)
qed (simp_all only: cs_empty_def cs_all_true_def cs_rel_size cs_rel_pos cs_rel_push cs_rel_pop cs_rel_toggle)

lemma cs_impl_op: "cs.impl_op = cs_op"
  by (rule ext, rename_tac p, case_tac p) auto

text \<open>
  C11. The condition stack, which keeps only the number of nested conditionals and the position of the first inactive one, behaves like the
  vector of booleans it stands for: after every sequence of fewer than 2^32 - 1 pushes, pops and toggles, it fails exactly when
  the vector operations do (popping or toggling an empty stack), and otherwise reports the same emptiness and the same truth of all entries.
\<close>

theorem ConditionStack_refines_vector:
  assumes "length ps \<le> 2 ^ 32 - 2"
  shows "map_option (\<lambda>s. (cs_empty s, cs_all_true s)) (run_ops cs_op ps cs_init)
    = map_option (\<lambda>l. (l = [], \<forall>b \<in> set l. b)) (run_ops vec_op ps [])"
  using cs.run_observations [OF assms] unfolding cs_impl_op .

theorem ConditionStack_refines_vector_witness:
  "length [Push True, Push False, Toggle, Toggle, Push True] \<le> 2 ^ 32 - 2 \<and>
   map_option (\<lambda>s. (cs_empty s, cs_all_true s)) (run_ops cs_op [Push True, Push False, Toggle, Toggle, Push True] cs_init)
     = Some (False, False)"
  using ConditionStack_refines_vector [of "[Push True, Push False, Toggle, Toggle, Push True]"] by simp

section \<open>Signature encodings are strict DER\<close>

text \<open>A positive DER integer: not empty, not negative, and without a superfluous leading zero.\<close>

definition der_integer :: "byte list \<Rightarrow> bool" where
  "der_integer v \<longleftrightarrow> v \<noteq> [] \<and> unat (v ! 0) < 128 \<and> \<not> (length v > 1 \<and> v ! 0 = 0 \<and> unat (v ! 1) < 128)"

definition der_signature :: "byte list \<Rightarrow> byte list \<Rightarrow> byte \<Rightarrow> byte list" where
  "der_signature R S hashtype =
    [0x30, of_nat (length R + length S + 4), 0x02, of_nat (length R)] @ R @ [0x02, of_nat (length S)] @ S @ [hashtype]"

lemma length_der_signature [simp]: "length (der_signature R S h) = length R + length S + 7"
  by (simp add: der_signature_def)

lemma der_signature_nth:
  "der_signature R S h ! 0 = 0x30" "der_signature R S h ! 1 = of_nat (length R + length S + 4)"
  "der_signature R S h ! 2 = 0x02" "der_signature R S h ! 3 = of_nat (length R)"
  "R \<noteq> [] \<Longrightarrow> der_signature R S h ! 4 = R ! 0"
  "length R > 1 \<Longrightarrow> der_signature R S h ! 5 = R ! 1"
  "der_signature R S h ! (length R + 4) = 0x02" "der_signature R S h ! (5 + length R) = of_nat (length S)"
  "S \<noteq> [] \<Longrightarrow> der_signature R S h ! (length R + 6) = S ! 0"
  "length S > 1 \<Longrightarrow> der_signature R S h ! (length R + 7) = S ! 1"
  by (auto simp: der_signature_def nth_append nth_Cons split: nat.splits)

lemma der_signature_valid:
  assumes "der_integer R" "der_integer S" "length R + length S + 7 \<le> 73"
  shows "IsValidSignatureEncoding (der_signature R S h)"
proof -
  have ne: "R \<noteq> []" "S \<noteq> []" using assms(1,2) by (auto simp: der_integer_def)
  then have len: "length R + length S \<ge> 2" by (cases R; cases S) auto
  have u: "unat (of_nat (length R) :: byte) = length R" "unat (of_nat (length S) :: byte) = length S"
    "unat (of_nat (length R + length S + 4) :: byte) = length R + length S + 4"
    by (rule unat_byte_of_nat, use assms(3) in linarith)+
  have "unat (der_signature R S h ! 1) = length R + length S + 4"
    using u(3) by (simp only: der_signature_nth)
  then show ?thesis
    using assms ne len u
    by (auto simp: IsValidSignatureEncoding_def Let_def der_signature_nth der_integer_def and_80_eq_0)
qed

lemma byte_eq_of_nat: "(b :: byte) = of_nat (unat b)"
  by simp

lemma list_eq_der:
  assumes "length sig = r + s + 7" "sig ! 0 = 0x30" "unat (sig ! 1) = r + s + 4" "sig ! 2 = 0x02" "unat (sig ! 3) = r"
    "sig ! (r + 4) = 0x02" "unat (sig ! (5 + r)) = s"
  shows "sig = der_signature (take r (drop 4 sig)) (take s (drop (r + 6) sig)) (last sig)"
proof (rule nth_equalityI)
  show "length sig = length (der_signature (take r (drop 4 sig)) (take s (drop (r + 6) sig)) (last sig))"
    using assms(1) by simp
next
  fix i
  assume i: "i < length sig"
  have len: "length (take r (drop 4 sig)) = r" "length (take s (drop (r + 6) sig)) = s" using assms(1) by auto
  have b: "sig ! 1 = of_nat (r + s + 4)" "sig ! 3 = of_nat r" "sig ! (5 + r) = of_nat s"
    by (rule byte_eq_of_nat [of "sig ! 1", unfolded assms(3)] byte_eq_of_nat [of "sig ! 3", unfolded assms(5)]
        byte_eq_of_nat [of "sig ! (5 + r)", unfolded assms(7)])+
  consider "i < 4" | "4 \<le> i" "i < r + 4" | "i = r + 4" | "i = r + 5" | "r + 6 \<le> i" "i < r + 6 + s" | "i = r + s + 6"
    using i assms(1) by linarith
  then show "sig ! i = der_signature (take r (drop 4 sig)) (take s (drop (r + 6) sig)) (last sig) ! i"
  proof cases
    case 1
    then have "i = 0 \<or> i = 1 \<or> i = 2 \<or> i = 3" by auto
    then show ?thesis using assms b len by (auto simp: der_signature_def)
  next
    case 2
    then obtain j where "i = 4 + j" "j < r" using le_Suc_ex by force
    then show ?thesis using len assms(1) by (simp add: der_signature_def nth_append)
  next
    case 3
    then show ?thesis using len assms by (simp add: der_signature_def nth_append)
  next
    case 4
    then show ?thesis using len b assms by (simp add: der_signature_def nth_append add.commute)
  next
    case 5
    then obtain j where "i = r + 6 + j" "j < s" by (metis le_Suc_ex nat_add_left_cancel_less)
    then show ?thesis using len assms(1) by (simp add: der_signature_def nth_append)
  next
    case 6
    moreover have "sig \<noteq> []" using assms(1) by auto
    ultimately show ?thesis using len assms(1)
      by (simp add: der_signature_def nth_append last_conv_nth add.commute [of 6])
  qed
qed

lemma IsValidSignatureEncoding_cases:
  assumes "IsValidSignatureEncoding sig"
  defines "r \<equiv> unat (sig ! 3)" and "s \<equiv> unat (sig ! (5 + unat (sig ! 3)))"
  shows "length sig = r + s + 7 \<and> length sig \<le> 73 \<and> sig ! 0 = 0x30 \<and> unat (sig ! 1) = r + s + 4 \<and> sig ! 2 = 0x02 \<and>
    sig ! (r + 4) = 0x02 \<and> r > 0 \<and> s > 0 \<and> unat (sig ! 4) < 128 \<and> unat (sig ! (r + 6)) < 128 \<and>
    \<not> (r > 1 \<and> sig ! 4 = 0 \<and> unat (sig ! 5) < 128) \<and> \<not> (s > 1 \<and> sig ! (r + 6) = 0 \<and> unat (sig ! (r + 7)) < 128)"
  using assms(1) unfolding IsValidSignatureEncoding_def Let_def r_def s_def
  by (auto simp: and_80_eq_0 split: if_splits)

text \<open>
  C12. \<open>IsValidSignatureEncoding\<close> accepts exactly the strict DER encodings of two positive integers followed by a hash type byte, of at
  most 73 bytes: each accepted signature is \<open>30 len 02 lenR R 02 lenS S hashtype\<close> with R and S minimal and not negative, and each such
  string is accepted.
\<close>

theorem IsValidSignatureEncoding_iff:
  "IsValidSignatureEncoding sig \<longleftrightarrow>
    (\<exists>R S hashtype. sig = der_signature R S hashtype \<and> der_integer R \<and> der_integer S \<and> length R + length S + 7 \<le> 73)"
proof
  assume valid: "IsValidSignatureEncoding sig"
  define r s where "r = unat (sig ! 3)" and "s = unat (sig ! (5 + unat (sig ! 3)))"
  note c = IsValidSignatureEncoding_cases [OF valid, folded r_def s_def]
  define R S where "R = take r (drop 4 sig)" and "S = take s (drop (r + 6) sig)"
  have len: "length R = r" "length S = s" using c by (auto simp: R_def S_def)
  have "sig = der_signature R S (last sig)"
    unfolding R_def S_def using c by (intro list_eq_der) (auto simp: r_def s_def)
  moreover have "der_integer R" "der_integer S" 
    using c len by (auto simp: der_integer_def R_def S_def add.commute [of r 7])
  moreover have "length R + length S + 7 \<le> 73" using c len by simp
  ultimately show "\<exists>R S hashtype. sig = der_signature R S hashtype \<and> der_integer R \<and> der_integer S \<and> length R + length S + 7 \<le> 73"
    by blast
next
  assume "\<exists>R S hashtype. sig = der_signature R S hashtype \<and> der_integer R \<and> der_integer S \<and> length R + length S + 7 \<le> 73"
  then show "IsValidSignatureEncoding sig" using der_signature_valid by auto
qed

section \<open>FindAndDelete removes whole instructions\<close>

text \<open>
  The script cut into the bytes of its instructions, and the remainder that does not parse.
\<close>

function script_chunks :: "byte list \<Rightarrow> byte list list" where
  "script_chunks pc =
    (case GetScriptOp pc of None \<Rightarrow> [] | Some (_, _, rest) \<Rightarrow> take (length pc - length rest) pc # script_chunks rest)"
  by pat_completeness auto
termination by (relation "measure length") (auto dest: GetScriptOp_shorter)

function script_tail :: "byte list \<Rightarrow> byte list" where
  "script_tail pc = (case GetScriptOp pc of None \<Rightarrow> pc | Some (_, _, rest) \<Rightarrow> script_tail rest)"
  by pat_completeness auto
termination by (relation "measure length") (auto dest: GetScriptOp_shorter)

declare script_chunks.simps [simp del] script_tail.simps [simp del]

text \<open>Reading an instruction depends only on its own bytes.\<close>

lemma ReadLE_append:
  "2 \<le> length b \<Longrightarrow> ReadLE16 (b @ s) = ReadLE16 b" "4 \<le> length b \<Longrightarrow> ReadLE32 (b @ s) = ReadLE32 b"
  by (simp_all add: ReadLE16_def ReadLE32_def)

lemma GetScriptOp_append:
  assumes "GetScriptOp b = Some (opcode, d, rest)"
  shows "GetScriptOp (b @ s) = Some (opcode, d, rest @ s)"
proof -
  obtain x b' where b: "b = x # b'" using assms by (cases b) auto
  consider "unat x < 0x4c" | "unat x = 0x4c" | "unat x = 0x4d" | "unat x = 0x4e" | "unat x > 0x4e" by linarith
  then show ?thesis
  proof cases
    case 2
    then obtain y b'' where "b' = y # b''" using assms b by (cases b') (auto simp: GetScriptOp_def Let_def)
    then show ?thesis using assms b 2 by (auto simp: GetScriptOp_def Let_def split: if_splits)
  qed (use assms b in \<open>auto simp: GetScriptOp_def Let_def ReadLE_append split: if_splits\<close>)
qed

text \<open>The bytes of the first instruction, up to the rest.\<close>

lemma GetScriptOp_suffix:
  assumes "GetScriptOp pc = Some (opcode, d, rest)"
  shows "\<exists>b. pc = b @ rest \<and> GetScriptOp b = Some (opcode, d, [])"
proof -
  obtain x b' where b: "pc = x # b'" using assms by (cases pc) auto
  have split3: "b' = take k b' @ take n (drop k b') @ drop n (drop k b')" for k n by (metis append_take_drop_id)
  consider "unat x < 0x4c" | "unat x = 0x4c" | "unat x = 0x4d" | "unat x = 0x4e" | "unat x > 0x4e" by linarith
  then show ?thesis
  proof cases
    case 1
    then show ?thesis using assms b
      by (intro exI [of _ "x # take (unat x) b'"]) (auto simp: GetScriptOp_def Let_def split: if_splits)
  next
    case 2
    then obtain y b'' where "b' = y # b''" using assms b by (cases b') (auto simp: GetScriptOp_def Let_def)
    then show ?thesis using assms b 2
      by (intro exI [of _ "x # y # take (unat y) b''"]) (auto simp: GetScriptOp_def Let_def split: if_splits)
  next
    case 3
    then have "2 \<le> length b'" "unat (ReadLE16 b') \<le> length b' - 2" "rest = drop (unat (ReadLE16 b')) (drop 2 b')"
      "d = take (unat (ReadLE16 b')) (drop 2 b')" "opcode = 0x4d"
      using assms b by (auto simp: GetScriptOp_def Let_def split: if_splits)
    then show ?thesis using b 3 split3 [of 2 "unat (ReadLE16 b')"]
      by (intro exI [of _ "x # take 2 b' @ take (unat (ReadLE16 b')) (drop 2 b')"])
        (auto simp: GetScriptOp_def Let_def ReadLE_append ReadLE16_def)
  next
    case 4
    then have "4 \<le> length b'" "unat (ReadLE32 b') \<le> length b' - 4" "rest = drop (unat (ReadLE32 b')) (drop 4 b')"
      "d = take (unat (ReadLE32 b')) (drop 4 b')" "opcode = 0x4e"
      using assms b by (auto simp: GetScriptOp_def Let_def split: if_splits)
    then show ?thesis using b 4 split3 [of 4 "unat (ReadLE32 b')"]
      by (intro exI [of _ "x # take 4 b' @ take (unat (ReadLE32 b')) (drop 4 b')"])
        (auto simp: GetScriptOp_def Let_def ReadLE_append ReadLE32_def)
  next
    case 5
    then show ?thesis using assms b
      by (intro exI [of _ "[x]"]) (auto simp: GetScriptOp_def Let_def split: if_splits)
  qed
qed

lemma script_induct [case_names stop step]:
  assumes "\<And>pc. GetScriptOp pc = None \<Longrightarrow> P pc"
    and "\<And>pc opcode d rest. GetScriptOp pc = Some (opcode, d, rest) \<Longrightarrow> P rest \<Longrightarrow> P pc"
  shows "P pc"
proof (induction pc rule: measure_induct_rule [where f = length])
  case (less pc)
  show ?case
  proof (cases "GetScriptOp pc")
    case (Some t)
    then obtain opcode d rest where "GetScriptOp pc = Some (opcode, d, rest)" by (cases t) auto
    then show ?thesis using assms(2) less GetScriptOp_shorter by blast
  qed (rule assms(1))
qed

lemma script_chunks_simps:
  "GetScriptOp pc = None \<Longrightarrow> script_chunks pc = []" "GetScriptOp pc = None \<Longrightarrow> script_tail pc = pc"
  "GetScriptOp pc = Some (opcode, d, rest) \<Longrightarrow> script_chunks pc = take (length pc - length rest) pc # script_chunks rest"
  "GetScriptOp pc = Some (opcode, d, rest) \<Longrightarrow> script_tail pc = script_tail rest"
  by (simp_all add: script_chunks.simps [of pc] script_tail.simps [of pc])

lemma script_chunks_concat: "concat (script_chunks pc) @ script_tail pc = pc"
proof (induction pc rule: script_induct)
  case (step pc opcode d rest)
  obtain b where "pc = b @ rest" using GetScriptOp_suffix step(1) by blast
  then show ?case using step by (simp add: script_chunks_simps)
qed (simp add: script_chunks_simps)

text \<open>At an instruction boundary a complete instruction matches exactly when it is the next one.\<close>

lemma instruction_prefix_iff:
  assumes "GetScriptOp b = Some (op, d, [])" "GetScriptOp pc = Some (opcode, d', rest)"
  shows "take (length b) pc = b \<longleftrightarrow> take (length pc - length rest) pc = b"
proof
  assume "take (length b) pc = b"
  then have pc: "pc = b @ drop (length b) pc" by (metis append_take_drop_id)
  have "GetScriptOp pc = Some (op, d, drop (length b) pc)"
    using GetScriptOp_append [OF assms(1), of "drop (length b) pc"] pc by simp
  then have "rest = drop (length b) pc" using assms(2) by simp
  then show "take (length pc - length rest) pc = b" using pc by (metis append_eq_conv_conj length_append add_diff_cancel_right')
next
  assume a: "take (length pc - length rest) pc = b"
  have "length b = length pc - length rest" using a by auto
  then show "take (length b) pc = b" using a by simp
qed

lemma instruction_no_tail:
  "GetScriptOp b = Some (op, d, []) \<Longrightarrow> GetScriptOp pc = None \<Longrightarrow> take (length b) pc \<noteq> b"
  using GetScriptOp_append [of b op d "[]" "drop (length b) pc"] by (metis append_take_drop_id option.distinct(1))

text \<open>The inner loop skips the run of copies at the front.\<close>

lemma skip_matches_spec:
  assumes b: "GetScriptOp b = Some (op, d, [])"
  shows "\<exists>k pc'. skip_matches b n pc = (n + k, pc') \<and> script_chunks pc = replicate k b @ script_chunks pc' \<and>
    script_tail pc = script_tail pc' \<and>
    (GetScriptOp pc' = None \<or> (\<exists>opcode d' rest. GetScriptOp pc' = Some (opcode, d', rest) \<and> hd (script_chunks pc') \<noteq> b))"
proof (induction pc arbitrary: n rule: script_induct)
  case (stop pc)
  then have "skip_matches b n pc = (n, pc)"
    using instruction_no_tail [OF b stop] by (simp add: skip_matches.simps [of b n pc])
  then show ?case using stop by (intro exI [of _ 0]) auto
next
  case (step pc opcode d' rest)
  have b0: "b \<noteq> []" using b by auto
  note iff = instruction_prefix_iff [OF b step(1)]
  show ?case
  proof (cases "take (length b) pc = b")
    case True
    then have pre: "take (length pc - length rest) pc = b" using iff by simp
    obtain b' where "pc = b' @ rest" using GetScriptOp_suffix step(1) by blast
    then have pc: "pc = b @ rest" using pre by simp
    have "skip_matches b n pc = skip_matches b (n + 1) rest"
      using b0 unfolding pc by (simp add: skip_matches.simps [of b n "b @ rest"])
    moreover obtain k pc' where "skip_matches b (n + 1) rest = (n + 1 + k, pc')"
      "script_chunks rest = replicate k b @ script_chunks pc'" "script_tail rest = script_tail pc'"
      "GetScriptOp pc' = None \<or> (\<exists>opcode d' rest. GetScriptOp pc' = Some (opcode, d', rest) \<and> hd (script_chunks pc') \<noteq> b)"
      using step(2) [of "n + 1"] by blast
    moreover have "script_chunks pc = b # script_chunks rest" "script_tail pc = script_tail rest"
      using step(1) pre by (simp_all add: script_chunks_simps)
    ultimately show ?thesis by (intro exI [of _ "Suc k"] exI [of _ pc']) auto
  next
    case False
    then have "skip_matches b n pc = (n, pc)" by (simp add: skip_matches.simps [of b n pc])
    moreover have "hd (script_chunks pc) \<noteq> b" using False iff step(1) by (simp add: script_chunks_simps)
    ultimately show ?thesis using step(1) by (intro exI [of _ 0] exI [of _ pc]) auto
  qed
qed

lemma FindAndDelete_loop_spec:
  assumes b: "GetScriptOp b = Some (op, d, [])" and "length pc \<le> length pc2"
  shows "\<exists>r pc'. FindAndDelete_loop b n result pc2 pc = (n + length (filter ((=) b) (script_chunks pc)), r, pc') \<and>
    r @ pc' = result @ take (length pc2 - length pc) pc2 @ concat (filter ((\<noteq>) b) (script_chunks pc)) @ script_tail pc"
  using assms(2)
proof (induction pc arbitrary: n result pc2 rule: measure_induct_rule [where f = length])
  case (less pc)
  obtain k pc' where sk: "skip_matches b n pc = (n + k, pc')" and ch: "script_chunks pc = replicate k b @ script_chunks pc'"
    and tl: "script_tail pc = script_tail pc'"
    and stop: "GetScriptOp pc' = None \<or> (\<exists>opcode d' rest. GetScriptOp pc' = Some (opcode, d', rest) \<and> hd (script_chunks pc') \<noteq> b)"
    using skip_matches_spec [OF b, of n pc] by blast
  define result' where "result' = result @ take (length pc2 - length pc) pc2"
  show ?case
  proof (cases "GetScriptOp pc'")
    case None
    then show ?thesis using sk ch tl
      by (simp add: FindAndDelete_loop.simps [of b n result pc2 pc] script_chunks_simps)
  next
    case (Some t)
    then obtain opcode d' rest where op: "GetScriptOp pc' = Some (opcode, d', rest)" by (cases t) auto
    have ne: "take (length pc' - length rest) pc' \<noteq> b" using op stop by (simp add: script_chunks_simps)
    have lt: "length rest < length pc" "length rest \<le> length pc'"
      using GetScriptOp_shorter [OF op] skip_matches_shorter [OF sk] by auto
    obtain r p where "FindAndDelete_loop b (n + k) result' pc' rest = (n + k + length (filter ((=) b) (script_chunks rest)), r, p)"
      "r @ p = result' @ take (length pc' - length rest) pc' @ concat (filter ((\<noteq>) b) (script_chunks rest)) @ script_tail rest"
      using less(1) [OF lt(1) lt(2), of "n + k" result'] by blast
    moreover have "FindAndDelete_loop b n result pc2 pc = FindAndDelete_loop b (n + k) result' pc' rest"
      using sk op by (simp add: FindAndDelete_loop.simps [of b n result pc2 pc] result'_def)
    ultimately show ?thesis
      using ch tl ne op by (simp add: script_chunks_simps result'_def)
  qed
qed

lemma FindAndDelete_chunks:
  assumes "GetScriptOp b = Some (op, d, [])"
  shows "FindAndDelete script b =
    (length (filter ((=) b) (script_chunks script)), concat (filter ((\<noteq>) b) (script_chunks script)) @ script_tail script)"
proof -
  obtain r pc' where fd: "FindAndDelete_loop b 0 [] script script = (length (filter ((=) b) (script_chunks script)), r, pc')"
    "r @ pc' = concat (filter ((\<noteq>) b) (script_chunks script)) @ script_tail script"
    using FindAndDelete_loop_spec [OF assms, of script script 0 "[]"] by auto
  moreover have "concat (filter ((\<noteq>) b) (script_chunks script)) @ script_tail script = script"
    if "filter ((=) b) (script_chunks script) = []"
  proof -
    have "filter ((\<noteq>) b) (script_chunks script) = script_chunks script"
      using that by (auto simp: filter_empty_conv filter_id_conv)
    then show ?thesis by (simp add: script_chunks_concat)
  qed
  moreover have "b \<noteq> []" using assms by auto
  ultimately show ?thesis by (auto simp: FindAndDelete_def)
qed

text \<open>
  C13. When the searched bytes form one instruction, as a pushed signature does, \<open>FindAndDelete\<close> deletes exactly the instructions of the script that are equal
  to it and counts them; the other instructions, and the bytes after the last readable one, stay as they are. Copies that do not start at an
  instruction boundary are not touched.
\<close>

theorem FindAndDelete_instructions:
  assumes "GetScriptOp b = Some (op, d, [])"
  shows "FindAndDelete script b =
    (length (filter ((=) b) (script_chunks script)), concat (filter ((\<noteq>) b) (script_chunks script)) @ script_tail script)"
  using assms by (rule FindAndDelete_chunks)

theorem FindAndDelete_instructions_witness:
  "GetScriptOp [0x01, 0xac] = Some (1, [0xac], []) \<and>
   FindAndDelete [0x01, 0xac, 0x02, 0x01, 0xac, 0x01, 0xac, 0xac] [0x01, 0xac] = (2, [0x02, 0x01, 0xac, 0xac])"
proof -
  have "GetScriptOp [0x01, 0xac] = Some (1, [0xac], [])" by (simp add: GetScriptOp_def)
  moreover have "script_chunks [0x01, 0xac, 0x02, 0x01, 0xac, 0x01, 0xac, 0xac] = [[0x01, 0xac], [0x02, 0x01, 0xac], [0x01, 0xac], [0xac]]"
    "script_tail [0x01, 0xac, 0x02, 0x01, 0xac, 0x01, 0xac, 0xac] = []"
    by (simp_all add: script_chunks.simps script_tail.simps GetScriptOp_def)
  ultimately show ?thesis
    using FindAndDelete_instructions [of "[0x01, 0xac]" 1 "[0xac]" "[0x01, 0xac, 0x02, 0x01, 0xac, 0x01, 0xac, 0xac]"] by simp
qed

end
