(* ===== verification/Serialize.thy ===== *)
theory Serialize
  imports Byte_Order
begin

text \<open>
  The wire format of \<^verbatim>\<open>src/src/serialize.h\<close>: fixed-width integers, compact sizes, variable-length integers, vectors and bit sets.
  Writing appends bytes to a stream, so a writer is a function to the bytes it writes. A reader takes the rest of the stream and
  returns the value and the new rest, or the failure it throws. \<open>Bad_access\<close> stands for an access outside a vector,
  whose behaviour C++ leaves undefined.
\<close>

unbundle bit_operations_syntax

datatype stream_error =
    End_of_data
  | Noncanonical_size
  | Size_too_large
  | Out_of_range_bits
  | Out_of_bounds_index
  | Offset_overflow
  | Invalid_isVarInts
  | Bad_access

type_synonym 'a reader = "byte list \<Rightarrow> stream_error + ('a \<times> byte list)"

definition read_bind :: "'a reader \<Rightarrow> ('a \<Rightarrow> 'b reader) \<Rightarrow> 'b reader" where
  "read_bind r f s = (case r s of Inl e \<Rightarrow> Inl e | Inr (a, s) \<Rightarrow> f a s)"

definition read_return :: "'a \<Rightarrow> 'a reader" where
  "read_return a s = Inr (a, s)"

definition read_fail :: "stream_error \<Rightarrow> 'a reader" where
  "read_fail e s = Inl e"

definition read_bytes :: "nat \<Rightarrow> byte list reader" where
  "read_bytes k s = (if length s < k then Inl End_of_data else Inr (take k s, drop k s))"

section \<open>Fixed-width integers\<close>

abbreviation (input) MAX_SIZE :: u64 where "MAX_SIZE \<equiv> 0x02000000"

definition ser_writedata8 :: "byte \<Rightarrow> byte list" where "ser_writedata8 obj = [obj]"
definition ser_writedata16 :: "u16 \<Rightarrow> byte list" where "ser_writedata16 obj = WriteLE16 obj"
definition ser_writedata32 :: "u32 \<Rightarrow> byte list" where "ser_writedata32 obj = WriteLE32 obj"
definition ser_writedata64 :: "u64 \<Rightarrow> byte list" where "ser_writedata64 obj = WriteLE64 obj"

definition ser_readdata8 :: "byte reader" where "ser_readdata8 = read_bind (read_bytes 1) (\<lambda>b. read_return (hd b))"
definition ser_readdata16 :: "u16 reader" where "ser_readdata16 = read_bind (read_bytes 2) (\<lambda>b. read_return (ReadLE16 b))"
definition ser_readdata32 :: "u32 reader" where "ser_readdata32 = read_bind (read_bytes 4) (\<lambda>b. read_return (ReadLE32 b))"
definition ser_readdata64 :: "u64 reader" where "ser_readdata64 = read_bind (read_bytes 8) (\<lambda>b. read_return (ReadLE64 b))"

section \<open>Compact sizes\<close>

definition GetSizeOfCompactSize :: "u64 \<Rightarrow> nat" where
  "GetSizeOfCompactSize nSize =
    (if nSize < 253 then 1 else if nSize \<le> 0xffff then 1 + 2 else if nSize \<le> 0xffffffff then 1 + 4 else 1 + 8)"

definition WriteCompactSize :: "u64 \<Rightarrow> byte list" where
  "WriteCompactSize nSize =
    (if nSize < 253 then ser_writedata8 (ucast nSize)
     else if nSize \<le> 0xffff then ser_writedata8 253 @ ser_writedata16 (ucast nSize)
     else if nSize \<le> 0xffffffff then ser_writedata8 254 @ ser_writedata32 (ucast nSize)
     else ser_writedata8 255 @ ser_writedata64 nSize)"

definition ReadCompactSize :: "bool \<Rightarrow> u64 reader" where
  "ReadCompactSize range_check =
    read_bind ser_readdata8 (\<lambda>chSize.
    read_bind
      (if chSize < 253 then read_return (ucast chSize)
       else if chSize = 253 then
         read_bind ser_readdata16 (\<lambda>n. if n < 253 then read_fail Noncanonical_size else read_return (ucast n))
       else if chSize = 254 then
         read_bind ser_readdata32 (\<lambda>n. if n < 0x10000 then read_fail Noncanonical_size else read_return (ucast n))
       else
         read_bind ser_readdata64 (\<lambda>n. if n < 0x100000000 then read_fail Noncanonical_size else read_return n))
      (\<lambda>nSizeRet. if range_check \<and> nSizeRet > MAX_SIZE then read_fail Size_too_large else read_return nSizeRet))"

section \<open>Variable-length integers\<close>

text \<open>
  The template takes any integer type; here the value is a natural number and \<open>mx\<close> the largest value of the type. The reader's
  two checks keep every intermediate value within the type, so no operation wraps.
\<close>

fun GetSizeOfVarInt :: "nat \<Rightarrow> nat" where
  "GetSizeOfVarInt n = (if n \<le> 0x7F then 1 else 1 + GetSizeOfVarInt (n div 128 - 1))"

declare GetSizeOfVarInt.simps [simp del]

text \<open>The array \<open>tmp\<close>, from its first entry; \<open>cont\<close> tells that the index is not 0.\<close>

fun varint_tmp :: "bool \<Rightarrow> nat \<Rightarrow> byte list" where
  "varint_tmp cont n =
    (of_nat (n mod 128) OR (if cont then 0x80 else 0x00)) # (if n \<le> 0x7F then [] else varint_tmp True (n div 128 - 1))"

declare varint_tmp.simps [simp del]

definition WriteVarInt :: "nat \<Rightarrow> byte list" where
  "WriteVarInt n = rev (varint_tmp False n)"

fun ReadVarInt_loop :: "nat \<Rightarrow> nat \<Rightarrow> nat reader" where
  "ReadVarInt_loop mx n [] = Inl End_of_data"
| "ReadVarInt_loop mx n (chData # s) =
    (if n > mx div 128 then Inl Size_too_large
     else let n = n * 128 + unat (chData AND 0x7F)
          in if chData AND 0x80 \<noteq> 0 then (if n = mx then Inl Size_too_large else ReadVarInt_loop mx (n + 1) s)
             else Inr (n, s))"

definition ReadVarInt :: "nat \<Rightarrow> nat reader" where
  "ReadVarInt mx = ReadVarInt_loop mx 0"

section \<open>Vectors\<close>

definition ser_bytes :: "byte list \<Rightarrow> byte list" where
  "ser_bytes v = WriteCompactSize (of_nat (length v)) @ v"

definition unser_bytes :: "byte list reader" where
  "unser_bytes = read_bind (ReadCompactSize True) (\<lambda>nSize. read_bytes (unat nSize))"

definition ser_vector :: "('a \<Rightarrow> byte list) \<Rightarrow> 'a list \<Rightarrow> byte list" where
  "ser_vector ser v = WriteCompactSize (of_nat (length v)) @ concat (map ser v)"

primrec unser_elems :: "'a reader \<Rightarrow> nat \<Rightarrow> 'a list reader" where
  "unser_elems unser 0 = read_return []"
| "unser_elems unser (Suc k) =
    read_bind unser (\<lambda>x. read_bind (unser_elems unser k) (\<lambda>xs. read_return (x # xs)))"

definition unser_vector :: "'a reader \<Rightarrow> 'a list reader" where
  "unser_vector unser = read_bind (ReadCompactSize True) (\<lambda>n. unser_elems unser (unat n))"

section \<open>Bit sets\<close>

definition GetSizeOfFixedBitSet :: "nat \<Rightarrow> nat" where
  "GetSizeOfFixedBitSet sz = (sz + 7) div 8"

fun set_bits_loop :: "bool list \<Rightarrow> nat \<Rightarrow> nat \<Rightarrow> byte list \<Rightarrow> byte list" where
  "set_bits_loop vec p 0 vBytes = vBytes"
| "set_bits_loop vec p (Suc k) vBytes =
    set_bits_loop vec (p + 1) k (vBytes[p div 8 := vBytes ! (p div 8) OR push_bit (p mod 8) (of_bool (vec ! p))])"

definition WriteFixedBitSet :: "bool list \<Rightarrow> nat \<Rightarrow> byte list" where
  "WriteFixedBitSet vec sz = set_bits_loop vec 0 (min sz (length vec)) (replicate ((sz + 7) div 8) 0)"

definition ReadFixedBitSet :: "nat \<Rightarrow> bool list reader" where
  "ReadFixedBitSet sz = read_bind (read_bytes ((sz + 7) div 8)) (\<lambda>vBytes.
    let vec = map (\<lambda>p. vBytes ! (p div 8) AND push_bit (p mod 8) 1 \<noteq> 0) [0..<sz]
    in if length vBytes * 8 \<noteq> sz then
         (let r = length vBytes * 8 - sz; m = NOT (drop_bit r 0xff) :: byte
          in if vBytes ! (length vBytes - 1) AND m \<noteq> 0 then read_fail Out_of_range_bits else read_return vec)
       else read_return vec)"

fun varints_loop :: "bool list \<Rightarrow> int \<Rightarrow> int \<Rightarrow> byte list" where
  "varints_loop [] i lst = []"
| "varints_loop (b # vec) i lst =
    (if b then WriteVarInt (unat (word_of_int (i - lst) :: u32)) @ varints_loop vec (i + 1) i
     else varints_loop vec (i + 1) lst)"

definition WriteFixedVarIntsBitSet :: "bool list \<Rightarrow> byte list" where
  "WriteFixedVarIntsBitSet vec = varints_loop vec 0 (- 1) @ WriteVarInt 0"

lemma ReadVarInt_loop_shorter: "ReadVarInt_loop mx n s = Inr (v, rest) \<Longrightarrow> length rest < length s"
  by (induction mx n s rule: ReadVarInt_loop.induct) (auto simp: Let_def split: if_splits)

function read_varints_loop :: "nat \<Rightarrow> bool list \<Rightarrow> int \<Rightarrow> bool list reader" where
  "read_varints_loop sz vec lst s =
    (case ReadVarInt (2 ^ 32 - 1) s of
       Inl e \<Rightarrow> Inl e
     | Inr (offset, s) \<Rightarrow>
         if offset = 0 then Inr (vec, s)
         else let idx = sint (word_of_int (lst + int offset) :: u32)
              in if idx \<ge> sint (of_nat sz :: u32) then Inl Out_of_bounds_index
                 else if lst \<noteq> - 1 \<and> idx \<le> lst then Inl Offset_overflow
                 else if idx < 0 \<or> nat idx \<ge> length vec then Inl Bad_access
                 else read_varints_loop sz (vec[nat idx := True]) idx s)"
  by pat_completeness auto
termination
  by (relation "measure (\<lambda>(_, _, _, s). length s)") (auto simp: ReadVarInt_def dest: ReadVarInt_loop_shorter)

declare read_varints_loop.simps [simp del]

definition ReadFixedVarIntsBitSet :: "nat \<Rightarrow> bool list reader" where
  "ReadFixedVarIntsBitSet sz = read_varints_loop sz (replicate sz False) (- 1)"

text \<open>The assertions of \<^verbatim>\<open>WriteAutoBitSet\<close> are the outer \<open>None\<close>.\<close>

definition WriteAutoBitSet :: "bool list \<times> nat \<Rightarrow> byte list option" where
  "WriteAutoBitSet item =
    (let (vec, sz) = item;
         size1 = length (WriteFixedBitSet vec sz);
         size2 = length (WriteFixedVarIntsBitSet vec)
     in if \<not> length vec = sz then None
        else if \<not> size1 = GetSizeOfFixedBitSet sz then None
        else if size1 < size2 then Some (ser_writedata8 0 @ WriteFixedBitSet vec (length vec))
        else Some (ser_writedata8 1 @ WriteFixedVarIntsBitSet vec))"

definition ReadAutoBitSet :: "nat \<Rightarrow> bool list reader" where
  "ReadAutoBitSet sz = read_bind ser_readdata8 (\<lambda>isVarInts.
    if isVarInts \<noteq> 0 \<and> isVarInts \<noteq> 1 then read_fail Invalid_isVarInts
    else if isVarInts = 0 then ReadFixedBitSet sz
    else ReadFixedVarIntsBitSet sz)"

section \<open>Readers\<close>

lemma le_bytes_numeral: "le_bytes (numeral k) n = of_nat n # le_bytes (pred_numeral k) (n div 256)"
  by (simp only: numeral_eq_Suc [of k] le_bytes.simps)

named_theorems reader_defs \<open>definitions of the stream readers\<close>

declare read_bind_def [reader_defs] read_return_def [reader_defs] read_fail_def [reader_defs]

lemma read_bytes_append [simp]: "length b = k \<Longrightarrow> read_bytes k (b @ s) = Inr (b, s)"
  by (auto simp: read_bytes_def)

lemma read_bytes_Inr: "read_bytes k s = Inr (b, rest) \<longleftrightarrow> s = b @ rest \<and> length b = k"
  by (auto simp: read_bytes_def)

lemma WriteLE_ReadLE:
  "length b = 2 \<Longrightarrow> WriteLE16 (ReadLE16 b) = b" "length b = 8 \<Longrightarrow> WriteLE64 (ReadLE64 b) = b"
  using le_nat_less [of b] le_bytes_le_nat [of b]
  by (simp_all add: ReadLE16_def WriteLE16_def ReadLE64_def WriteLE64_def unat_of_nat)

lemma ReadLE_WriteLE0 [simp]: "ReadLE16 (WriteLE16 x) = x" "ReadLE32 (WriteLE32 y) = y" "ReadLE64 (WriteLE64 z) = z"
  using ReadLE16_WriteLE16 [of x "[]"] ReadLE32_WriteLE32 [of y "[]"] ReadLE64_WriteLE64 [of z "[]"] by simp_all

text \<open>A fixed-width reader succeeds exactly on the bytes the writer makes.\<close>

lemma ser_readdata8_iff: "ser_readdata8 s = Inr (x, rest) \<longleftrightarrow> s = ser_writedata8 x @ rest"
  by (cases s) (auto simp: ser_readdata8_def ser_writedata8_def read_bytes_def reader_defs)

lemma ser_readdata16_iff: "ser_readdata16 s = Inr (x, rest) \<longleftrightarrow> s = ser_writedata16 x @ rest"
  unfolding ser_readdata16_def ser_writedata16_def reader_defs
  by (auto simp: read_bytes_Inr WriteLE_ReadLE split: sum.splits)

lemma ser_readdata32_iff: "ser_readdata32 s = Inr (x, rest) \<longleftrightarrow> s = ser_writedata32 x @ rest"
  unfolding ser_readdata32_def ser_writedata32_def reader_defs
  by (auto simp: read_bytes_Inr WriteLE32_ReadLE32 split: sum.splits)

lemma ser_readdata64_iff: "ser_readdata64 s = Inr (x, rest) \<longleftrightarrow> s = ser_writedata64 x @ rest"
  unfolding ser_readdata64_def ser_writedata64_def reader_defs
  by (auto simp: read_bytes_Inr WriteLE_ReadLE split: sum.splits)

lemmas ser_readdata_iff = ser_readdata8_iff ser_readdata16_iff ser_readdata32_iff ser_readdata64_iff

lemma read_bind_Inr: "read_bind r f s = Inr (b, rest) \<longleftrightarrow> (\<exists>a t. r s = Inr (a, t) \<and> f a t = Inr (b, rest))"
  by (auto simp: read_bind_def split: sum.splits)

lemma read_return_Inr: "read_return a s = Inr (b, rest) \<longleftrightarrow> a = b \<and> s = rest"
  by (auto simp: read_return_def)

lemma read_fail_Inr: "read_fail e s \<noteq> Inr (b, rest)"
  by (simp add: read_fail_def)

lemma read_check_Inr:
  "read_bind r (\<lambda>x. if Q x then read_fail e else read_return (f x)) s = Inr (b, rest) \<longleftrightarrow>
    (\<exists>x. r s = Inr (x, rest) \<and> \<not> Q x \<and> f x = b)"
  by (auto simp: read_bind_Inr read_return_Inr read_fail_Inr split: if_splits)

lemmas read_Inr = read_bind_Inr read_return_Inr read_fail_Inr

section \<open>Compact sizes are canonical\<close>

lemma unat_ucast_down:
  "unat n < 2 ^ 8 \<Longrightarrow> unat (ucast (n :: u64) :: byte) = unat n"
  "unat n < 2 ^ 16 \<Longrightarrow> unat (ucast (n :: u64) :: u16) = unat n"
  "unat n < 2 ^ 32 \<Longrightarrow> unat (ucast (n :: u64) :: u32) = unat n"
  by (simp_all add: unsigned_ucast_eq take_bit_nat_eq_self)

lemma unat_ucast_up:
  "unat (ucast (b :: byte) :: u64) = unat b" "unat (ucast (x :: u16) :: u64) = unat x" "unat (ucast (y :: u32) :: u64) = unat y"
  by (simp_all add: unsigned_ucast_eq take_bit_nat_eq_self_iff less_le_trans [OF unsigned_less])

lemma unat_less_pow: "unat (b :: byte) < 2 ^ 8" "unat (x :: u16) < 2 ^ 16" "unat (y :: u32) < 2 ^ 32"
  using unsigned_less [of b, where 'a = nat] unsigned_less [of x, where 'a = nat] unsigned_less [of y, where 'a = nat]
  by simp_all

lemma unat_le_max: "unat (x :: u16) \<le> 65535" "unat (x :: u16) \<le> 4294967295" "unat (y :: u32) \<le> 4294967295"
proof -
  show "unat x \<le> 65535" "unat x \<le> 4294967295" using unat_less_pow(2) [of x] by simp_all
  show "unat y \<le> 4294967295" using unat_u32_less [of y] by linarith
qed

lemma ucast_down_up:
  "ucast (ucast (b :: byte) :: u64) = b" "ucast (ucast (x :: u16) :: u64) = x" "ucast (ucast (y :: u32) :: u64) = y"
  by (simp_all only: word_unat_eq_iff unat_ucast_down unat_ucast_up unat_less_pow)

lemma ucast_up_down:
  "unat n < 2 ^ 8 \<Longrightarrow> ucast (ucast (n :: u64) :: byte) = n" "unat n < 2 ^ 16 \<Longrightarrow> ucast (ucast (n :: u64) :: u16) = n"
  "unat n < 2 ^ 32 \<Longrightarrow> ucast (ucast (n :: u64) :: u32) = n"
  by (simp_all only: word_unat_eq_iff unat_ucast_down unat_ucast_up)

text \<open>The four forms of a compact size.\<close>

definition compact_form :: "u64 \<Rightarrow> byte list \<Rightarrow> bool" where
  "compact_form n b \<longleftrightarrow>
     (\<exists>x :: byte. unat x < 253 \<and> b = [x] \<and> n = ucast x) \<or>
     (\<exists>x :: u16. 253 \<le> unat x \<and> b = 253 # WriteLE16 x \<and> n = ucast x) \<or>
     (\<exists>x :: u32. 0x10000 \<le> unat x \<and> b = 254 # WriteLE32 x \<and> n = ucast x) \<or>
     (0x100000000 \<le> unat n \<and> b = 255 # WriteLE64 n)"

lemma WriteCompactSize_form: "compact_form n b \<longleftrightarrow> b = WriteCompactSize n"
proof -
  have ge: "compact_form n b \<Longrightarrow> b = WriteCompactSize n" for b
    by (auto simp: compact_form_def WriteCompactSize_def ser_writedata8_def ser_writedata16_def ser_writedata32_def ser_writedata64_def
        word_less_nat_alt word_le_nat_alt unat_ucast_up ucast_down_up unat_le_max)
  consider "unat n < 253" | "253 \<le> unat n" "unat n < 2 ^ 16" | "2 ^ 16 \<le> unat n" "unat n < 2 ^ 32" | "2 ^ 32 \<le> unat n"
    by linarith
  then have "\<exists>b. compact_form n b"
  proof cases
    case 1
    then have "compact_form n [ucast n]" unfolding compact_form_def
      by (intro disjI1 exI [of _ "ucast n"]) (simp add: unat_ucast_down ucast_up_down)
    then show ?thesis ..
  next
    case 2
    then have "compact_form n (253 # WriteLE16 (ucast n))" unfolding compact_form_def
      by (intro disjI2 [OF disjI1] exI [of _ "ucast n"]) (simp add: unat_ucast_down ucast_up_down)
    then show ?thesis ..
  next
    case 3
    then have "compact_form n (254 # WriteLE32 (ucast n))" unfolding compact_form_def
      by (intro disjI2 [OF disjI2 [OF disjI1]] exI [of _ "ucast n"]) (simp add: unat_ucast_down ucast_up_down)
    then show ?thesis ..
  next
    case 4
    then have "compact_form n (255 # WriteLE64 n)" by (simp add: compact_form_def)
    then show ?thesis ..
  qed
  then show ?thesis using ge by blast
qed

lemma byte_size_cases: "unat (c :: byte) < 253 \<or> c = 253 \<or> c = 254 \<or> c = 255"
proof -
  have "unat c < 253 \<or> unat c = 253 \<or> unat c = 254 \<or> unat c = 255" using unat_byte_less [of c] by linarith
  then show ?thesis by (auto simp: word_unat_eq_iff)
qed

lemma WriteCompactSize_ne: "WriteCompactSize n \<noteq> []"
  by (simp add: WriteCompactSize_def ser_writedata8_def)

text \<open>Reading the number after the first byte.\<close>

lemma compact_form_Cons:
  "compact_form n (c # b) \<longleftrightarrow>
    (if unat c < 253 then b = [] \<and> n = ucast c
     else if c = 253 then \<exists>x :: u16. 253 \<le> unat x \<and> b = WriteLE16 x \<and> n = ucast x
     else if c = 254 then \<exists>x :: u32. 0x10000 \<le> unat x \<and> b = WriteLE32 x \<and> n = ucast x
     else 0x100000000 \<le> unat n \<and> b = WriteLE64 n)"
  using byte_size_cases [of c] by (auto simp: compact_form_def)

lemma ReadCompactSize_Cons:
  "ReadCompactSize range_check (c # t) = Inr (n, rest) \<longleftrightarrow>
    (\<exists>b. compact_form n (c # b) \<and> t = b @ rest) \<and> (range_check \<longrightarrow> n \<le> MAX_SIZE)"
proof -
  have c: "ser_readdata8 (c # t) = Inr (c, t)" by (simp add: ser_readdata8_iff ser_writedata8_def)
  define raw :: "u64 reader" where "raw =
      (if c < 253 then read_return (ucast c)
       else if c = 253 then
         read_bind ser_readdata16 (\<lambda>n. if n < 253 then read_fail Noncanonical_size else read_return (ucast n))
       else if c = 254 then
         read_bind ser_readdata32 (\<lambda>n. if n < 0x10000 then read_fail Noncanonical_size else read_return (ucast n))
       else
         read_bind ser_readdata64 (\<lambda>n. if n < 0x100000000 then read_fail Noncanonical_size else read_return n))"
  have "ReadCompactSize range_check (c # t)
      = read_bind raw (\<lambda>n. if range_check \<and> n > MAX_SIZE then read_fail Size_too_large else read_return n) t"
    unfolding ReadCompactSize_def raw_def by (subst read_bind_def) (simp add: c)
  then have "ReadCompactSize range_check (c # t) = Inr (n, rest) \<longleftrightarrow> raw t = Inr (n, rest) \<and> (range_check \<longrightarrow> n \<le> MAX_SIZE)"
    by (auto simp: read_check_Inr not_less)
  moreover have "raw t = Inr (n, rest) \<longleftrightarrow> (\<exists>b. compact_form n (c # b) \<and> t = b @ rest)"
    using byte_size_cases [of c]
    by (elim disjE)
      (auto simp: raw_def read_check_Inr read_return_Inr ser_readdata_iff ser_writedata16_def ser_writedata32_def ser_writedata64_def
        compact_form_Cons word_less_nat_alt not_less)
  ultimately show ?thesis by simp
qed

lemma ReadCompactSize_iff:
  "ReadCompactSize range_check s = Inr (n, rest) \<longleftrightarrow> s = WriteCompactSize n @ rest \<and> (range_check \<longrightarrow> n \<le> MAX_SIZE)"
proof (cases s)
  case Nil
  then show ?thesis
    by (simp add: ReadCompactSize_def read_Inr ser_readdata8_iff ser_writedata8_def WriteCompactSize_ne)
next
  case (Cons c t)
  have "(\<exists>b. compact_form n (c # b) \<and> t = b @ rest) \<longleftrightarrow> c # t = WriteCompactSize n @ rest"
    using WriteCompactSize_ne [of n] by (auto simp: WriteCompactSize_form Cons_eq_append_conv)
  then show ?thesis using Cons by (simp add: ReadCompactSize_Cons)
qed

text \<open>
  C14. Compact sizes have one encoding each: \<open>ReadCompactSize\<close> succeeds exactly when the stream starts with the bytes that \<open>WriteCompactSize\<close> writes
  for the returned number, which is then within the size limit if the limit is checked; what follows is left in the stream.
\<close>

theorem compact_size_canonical:
  "ReadCompactSize range_check s = Inr (n, rest) \<longleftrightarrow> s = WriteCompactSize n @ rest \<and> (range_check \<longrightarrow> n \<le> MAX_SIZE)"
  by (rule ReadCompactSize_iff)

theorem compact_size_canonical_witness:
  "ReadCompactSize True [0xfd, 0x00, 0x01, 0xaa] = Inr (256, [0xaa])"
proof -
  have "WriteCompactSize 256 = [0xfd, 0x00, 0x01]"
    by (simp add: WriteCompactSize_def ser_writedata8_def ser_writedata16_def WriteLE16_def le_bytes_numeral)
  then show ?thesis by (intro compact_size_canonical [THEN iffD2]) simp
qed

lemma length_WriteCompactSize: "length (WriteCompactSize n) = GetSizeOfCompactSize n"
  by (simp add: WriteCompactSize_def GetSizeOfCompactSize_def ser_writedata8_def ser_writedata16_def ser_writedata32_def
      ser_writedata64_def)

section \<open>Variable-length integers are canonical\<close>

lemma unat_or_cont: "unat (of_nat (n mod 128) OR (if cont then 0x80 else 0 :: byte)) = n mod 128 + (if cont then 128 else 0)"
proof -
  have "unat (of_nat (n mod 128) :: byte) = n mod 128"
    using mod_less_divisor [of 128 n] by (intro unat_byte_of_nat) linarith
  then show ?thesis using unat_or_80 [of "of_nat (n mod 128)"] by simp
qed

lemma varint_byte:
  "unat ((of_nat (n mod 128) OR (if cont then 0x80 else 0 :: byte)) AND 0x7F) = n mod 128"
  "(of_nat (n mod 128) OR (if cont then 0x80 else 0 :: byte)) AND 0x80 \<noteq> 0 \<longleftrightarrow> cont"
  using mod_less_divisor [of 128 n] by (simp_all only: unat_and_7f and_80_eq_0 unat_or_cont) auto

lemma ReadVarInt_loop_cont:
  "m < mx \<Longrightarrow> ReadVarInt_loop mx 0 (rev (varint_tmp True m) @ s) = ReadVarInt_loop mx (m + 1) s"
proof (induction m arbitrary: s rule: less_induct)
  case (less m)
  have b: "unat ((of_nat (m mod 128) OR 0x80 :: byte) AND 0x7F) = m mod 128" "(of_nat (m mod 128) OR 0x80 :: byte) AND 0x80 \<noteq> 0"
    using varint_byte [of m True] by simp_all
  show ?case
  proof (cases "m \<le> 0x7F")
    case True
    then show ?thesis using b less(2) by (simp add: varint_tmp.simps [of True m])
  next
    case False
    define k where "k = m div 128 - 1"
    have k: "k < m" "k < mx" "k + 1 = m div 128" using False less(2) by (auto simp: k_def)
    have "rev (varint_tmp True m) = rev (varint_tmp True k) @ [of_nat (m mod 128) OR 0x80]"
      using False by (simp add: varint_tmp.simps [of True m] k_def)
    then have "ReadVarInt_loop mx 0 (rev (varint_tmp True m) @ s) = ReadVarInt_loop mx (m div 128) ((of_nat (m mod 128) OR 0x80) # s)"
      using less(1) [OF k(1,2)] k(3) by simp
    moreover have "\<not> m div 128 > mx div 128" using less(2) by (simp add: not_less div_le_mono)
    moreover have "m div 128 * 128 + m mod 128 = m" by simp
    ultimately show ?thesis using b less(2) by simp
  qed
qed

lemma ReadVarInt_WriteVarInt: "n \<le> mx \<Longrightarrow> ReadVarInt mx (WriteVarInt n @ s) = Inr (n, s)"
proof -
  assume n: "n \<le> mx"
  have b: "unat ((of_nat (n mod 128) :: byte) AND 0x7F) = n mod 128" "(of_nat (n mod 128) :: byte) AND 0x80 = 0"
    using varint_byte [of n False] by simp_all
  show ?thesis
  proof (cases "n \<le> 0x7F")
    case True
    then show ?thesis using b by (simp add: ReadVarInt_def WriteVarInt_def varint_tmp.simps [of False n])
  next
    case False
    define k where "k = n div 128 - 1"
    have k: "k < mx" "k + 1 = n div 128" using False n by (auto simp: k_def)
    have "WriteVarInt n = rev (varint_tmp True k) @ [of_nat (n mod 128)]"
      using False by (simp add: WriteVarInt_def varint_tmp.simps [of False n] k_def)
    then have "ReadVarInt mx (WriteVarInt n @ s) = ReadVarInt_loop mx (n div 128) (of_nat (n mod 128) # s)"
      using ReadVarInt_loop_cont [OF k(1)] k(2) by (simp add: ReadVarInt_def)
    moreover have "\<not> n div 128 > mx div 128" using n by (simp add: not_less div_le_mono)
    moreover have "n div 128 * 128 + n mod 128 = n" by simp
    ultimately show ?thesis using b by simp
  qed
qed

lemma varint_byte_eq: "of_nat (unat (ch :: byte) mod 128) OR (if ch AND 0x80 \<noteq> 0 then 0x80 else 0) = ch"
  using byte_mod_128 [of ch] by (simp only: and_80_eq_0 word_unat_eq_iff [of _ ch] unat_or_cont) auto

lemma varint_step:
  assumes "0 < n" "x < 128"
  shows "varint_tmp True (n * 128 + x) = (of_nat x OR 0x80) # varint_tmp True (n - 1)"
    and "WriteVarInt (n * 128 + x) = rev (varint_tmp True (n - 1)) @ [of_nat x]"
  using assms by (auto simp: WriteVarInt_def varint_tmp.simps [of _ "n * 128 + x"])

lemma ReadVarInt_loop_unique:
  "0 < n \<Longrightarrow> ReadVarInt_loop mx n s = Inr (v, rest) \<Longrightarrow> rev (varint_tmp True (n - 1)) @ s = WriteVarInt v @ rest"
proof (induction s arbitrary: n)
  case (Cons ch s)
  define x where "x = unat ch mod 128"
  have x: "x < 128" "unat (ch AND 0x7F) = x" by (simp_all add: x_def unat_and_7f)
  show ?case
  proof (cases "ch AND 0x80 = 0")
    case True
    then have ch: "of_nat x = ch" using varint_byte_eq [of ch] by (simp add: x_def)
    have "v = n * 128 + x" "rest = s" using Cons.prems True x by (auto simp: Let_def split: if_splits)
    then show ?thesis using varint_step(2) [OF Cons.prems(1) x(1)] ch by simp
  next
    case False
    then have ch: "of_nat x OR 0x80 = ch" using varint_byte_eq [of ch] by (simp add: x_def)
    have "ReadVarInt_loop mx (n * 128 + x + 1) s = Inr (v, rest)"
      using Cons.prems False x by (auto simp: Let_def split: if_splits)
    then have "rev (varint_tmp True (n * 128 + x)) @ s = WriteVarInt v @ rest" using Cons.IH by fastforce
    then show ?thesis using varint_step(1) [OF Cons.prems(1) x(1)] ch by simp
  qed
qed simp

lemma ReadVarInt_unique: "ReadVarInt mx s = Inr (v, rest) \<Longrightarrow> s = WriteVarInt v @ rest"
proof (cases s)
  case (Cons ch t)
  assume r: "ReadVarInt mx s = Inr (v, rest)"
  define x where "x = unat ch mod 128"
  have x: "x < 128" "unat (ch AND 0x7F) = x" by (simp_all add: x_def unat_and_7f)
  show ?thesis
  proof (cases "ch AND 0x80 = 0")
    case True
    then have "of_nat x = ch" using varint_byte_eq [of ch] by (simp add: x_def)
    then show ?thesis using r Cons True x
      by (auto simp: ReadVarInt_def Let_def WriteVarInt_def varint_tmp.simps [of False v])
  next
    case False
    then have "of_nat x OR 0x80 = ch" using varint_byte_eq [of ch] by (simp add: x_def)
    moreover have "ReadVarInt_loop mx (x + 1) t = Inr (v, rest)"
      using r Cons False x by (auto simp: ReadVarInt_def Let_def split: if_splits)
    ultimately show ?thesis
      using ReadVarInt_loop_unique [of "x + 1" mx t v rest] Cons x by (simp add: varint_tmp.simps [of True x])
  qed
qed (simp add: ReadVarInt_def)

lemma ReadVarInt_loop_bound:
  "mx mod 128 = 127 \<Longrightarrow> ReadVarInt_loop mx n s = Inr (v, rest) \<Longrightarrow> v \<le> mx"
proof (induction mx n s rule: ReadVarInt_loop.induct)
  case (2 mx n ch s)
  define x where "x = unat ch mod 128"
  have x: "x < 128" "unat (ch AND 0x7F) = x" by (simp_all add: x_def unat_and_7f)
  have n: "n \<le> mx div 128" using 2(3) by (simp split: if_splits)
  have "n * 128 + x \<le> mx div 128 * 128 + mx mod 128"
    using mult_le_mono1 [OF n, of 128] x(1) 2(2) by linarith
  then have "n * 128 + x \<le> mx" by simp
  then show ?case using 2 x by (auto simp: Let_def split: if_splits)
qed simp

text \<open>
  C15. Every integer of a type of w bits has exactly one variable-length encoding: \<open>ReadVarInt\<close> succeeds exactly when the stream starts with
  the bytes \<open>WriteVarInt\<close> writes for the returned value, and the value fits the type. A stream that would overflow the type, or that ends
  within the number, is rejected.
\<close>

theorem varint_canonical:
  assumes "7 \<le> w"
  shows "ReadVarInt (2 ^ w - 1) s = Inr (n, rest) \<longleftrightarrow> s = WriteVarInt n @ rest \<and> n < 2 ^ w"
proof -
  have "(2 ^ w - 1) mod 2 ^ 7 = (2 ^ 7 - 1 :: nat)"
    using assms by (metis mask_eq_exp_minus_1 take_bit_eq_mod take_bit_of_mask min.absorb1)
  then have "(2 ^ w - 1) mod 128 = (127 :: nat)" by simp
  moreover have "n < 2 ^ w \<longleftrightarrow> n \<le> 2 ^ w - 1" for n :: nat
    using zero_less_power [of "2 :: nat" w] by linarith
  ultimately show ?thesis
    using ReadVarInt_unique [of "2 ^ w - 1" s n rest] ReadVarInt_WriteVarInt [of n "2 ^ w - 1" rest]
      ReadVarInt_loop_bound [of "2 ^ w - 1" 0 s n rest] unfolding ReadVarInt_def by blast
qed

theorem varint_canonical_witness:
  "(7 :: nat) \<le> 32 \<and> ReadVarInt (2 ^ 32 - 1) [0x82, 0xFE, 0x7F, 0x01] = Inr (65535, [0x01])"
proof -
  have "WriteVarInt 65535 = [0x82, 0xFE, 0x7F]"
    by (simp add: WriteVarInt_def varint_tmp.simps)
  then show ?thesis by (intro conjI varint_canonical [THEN iffD2]) simp_all
qed

lemma length_varint_tmp: "length (varint_tmp cont n) = GetSizeOfVarInt n"
proof (induction n arbitrary: cont rule: GetSizeOfVarInt.induct)
  case (1 n)
  then show ?case by (simp add: varint_tmp.simps [of cont n] GetSizeOfVarInt.simps [of n])
qed

lemma length_WriteVarInt: "length (WriteVarInt n) = GetSizeOfVarInt n"
  by (simp add: WriteVarInt_def length_varint_tmp)

section \<open>Canonical formats\<close>

text \<open>
  The contract of a serializable type: reading succeeds exactly on the bytes written for a valid value. Vectors inherit it from their elements.
\<close>

lemma size_of_nat_iff: "unat n = k \<and> n \<le> MAX_SIZE \<longleftrightarrow> n = of_nat k \<and> k \<le> 0x02000000"
  by (auto simp: word_le_nat_alt unat_of_nat)

locale codec =
  fixes ser :: "'a \<Rightarrow> byte list"
    and unser :: "'a reader"
    and ok :: "'a \<Rightarrow> bool"
  assumes unser_iff: "unser s = Inr (x, rest) \<longleftrightarrow> s = ser x @ rest \<and> ok x"
begin

lemma unser_elems_iff:
  "unser_elems unser k s = Inr (xs, rest) \<longleftrightarrow> s = concat (map ser xs) @ rest \<and> length xs = k \<and> (\<forall>x \<in> set xs. ok x)"
proof (induction k arbitrary: s xs)
  case 0
  then show ?case by (auto simp: read_return_Inr)
next
  case (Suc k)
  show ?case by (cases xs) (auto simp: read_Inr unser_iff Suc)
qed

lemma unser_vector_iff:
  "unser_vector unser s = Inr (xs, rest) \<longleftrightarrow>
    s = ser_vector ser xs @ rest \<and> length xs \<le> 0x02000000 \<and> (\<forall>x \<in> set xs. ok x)"
proof -
  have "unser_vector unser s = Inr (xs, rest) \<longleftrightarrow>
      (\<exists>n. (unat n = length xs \<and> n \<le> MAX_SIZE) \<and> s = WriteCompactSize n @ concat (map ser xs) @ rest \<and> (\<forall>x \<in> set xs. ok x))"
    by (auto simp: unser_vector_def read_Inr ReadCompactSize_iff unser_elems_iff)
  also have "\<dots> \<longleftrightarrow> s = ser_vector ser xs @ rest \<and> length xs \<le> 0x02000000 \<and> (\<forall>x \<in> set xs. ok x)"
    unfolding size_of_nat_iff by (auto simp: ser_vector_def)
  finally show ?thesis .
qed

end

interpretation ser_u32: codec ser_writedata32 ser_readdata32 "\<lambda>_. True"
  by unfold_locales (simp add: ser_readdata32_iff)

lemma unser_bytes_iff: "unser_bytes s = Inr (v, rest) \<longleftrightarrow> s = ser_bytes v @ rest \<and> length v \<le> 0x02000000"
proof -
  have "unser_bytes s = Inr (v, rest) \<longleftrightarrow> (\<exists>n. (unat n = length v \<and> n \<le> MAX_SIZE) \<and> s = WriteCompactSize n @ v @ rest)"
    by (auto simp: unser_bytes_def read_Inr ReadCompactSize_iff read_bytes_Inr)
  also have "\<dots> \<longleftrightarrow> s = ser_bytes v @ rest \<and> length v \<le> 0x02000000"
    unfolding size_of_nat_iff by (auto simp: ser_bytes_def)
  finally show ?thesis .
qed

interpretation ser_vch: codec ser_bytes unser_bytes "\<lambda>v. length v \<le> 0x02000000"
  by unfold_locales (rule unser_bytes_iff)

section \<open>Bit sets are read back\<close>

lemma length_set_bits_loop [simp]: "length (set_bits_loop vec p k vBytes) = length vBytes"
  by (induction k arbitrary: p vBytes) simp_all

lemma bit_set_bits_loop:
  assumes "p + k \<le> 8 * length vBytes" "q < length vBytes" "r < 8"
  shows "bit (set_bits_loop vec p k vBytes ! q) r \<longleftrightarrow>
    bit (vBytes ! q) r \<or> p \<le> 8 * q + r \<and> 8 * q + r < p + k \<and> vec ! (8 * q + r)"
  using assms(1,2)
proof (induction k arbitrary: p vBytes)
  case (Suc k)
  define b where "b = vBytes[p div 8 := vBytes ! (p div 8) OR push_bit (p mod 8) (of_bool (vec ! p))]"
  have p: "p div 8 < length vBytes" using Suc.prems(1) by (simp add: less_mult_imp_div_less)
  have pos: "q = p div 8 \<and> r = p mod 8 \<longleftrightarrow> 8 * q + r = p" using assms(3) by auto
  have "bit (b ! q) r \<longleftrightarrow> bit (vBytes ! q) r \<or> 8 * q + r = p \<and> vec ! p"
  proof (cases "q = p div 8")
    case True
    then show ?thesis using p pos assms(3)
      by (auto simp: b_def bit_or_iff bit_push_bit_iff bit_1_iff)
  next
    case False
    then show ?thesis using pos by (auto simp: b_def)
  qed
  moreover have "bit (set_bits_loop vec (p + 1) k b ! q) r \<longleftrightarrow>
      bit (b ! q) r \<or> p + 1 \<le> 8 * q + r \<and> 8 * q + r < p + 1 + k \<and> vec ! (8 * q + r)"
    using Suc.prems by (intro Suc.IH) (simp_all add: b_def)
  ultimately show ?case by (auto simp: b_def [symmetric] le_eq_less_or_eq)
qed auto

lemma bit_WriteFixedBitSet:
  assumes "q < (length vec + 7) div 8" "r < 8"
  shows "bit (WriteFixedBitSet vec (length vec) ! q) r \<longleftrightarrow> 8 * q + r < length vec \<and> vec ! (8 * q + r)"
proof -
  have "length vec \<le> 8 * ((length vec + 7) div 8)" by linarith
  then show ?thesis using assms
    by (simp add: WriteFixedBitSet_def bit_set_bits_loop)
qed

lemma length_WriteFixedBitSet: "length (WriteFixedBitSet vec sz) = GetSizeOfFixedBitSet sz"
  by (simp add: WriteFixedBitSet_def GetSizeOfFixedBitSet_def)

lemma and_push_bit_iff: "r < 8 \<Longrightarrow> (w :: byte) AND push_bit r 1 \<noteq> 0 \<longleftrightarrow> bit w r"
  by (simp add: push_bit_eq_mult and_exp_eq_0_iff_not_bit)

lemma ReadFixedBitSet_WriteFixedBitSet:
  "ReadFixedBitSet (length vec) (WriteFixedBitSet vec (length vec) @ rest) = Inr (vec, rest)"
proof -
  define n where "n = length vec"
  define w where "w = WriteFixedBitSet vec n"
  have len: "length w = (n + 7) div 8" by (simp add: w_def length_WriteFixedBitSet GetSizeOfFixedBitSet_def)
  have bits: "q < (n + 7) div 8 \<Longrightarrow> r < 8 \<Longrightarrow> bit (w ! q) r \<longleftrightarrow> 8 * q + r < n \<and> vec ! (8 * q + r)" for q r
    using bit_WriteFixedBitSet [of q vec r] by (simp add: w_def n_def)
  have "map (\<lambda>p. w ! (p div 8) AND push_bit (p mod 8) 1 \<noteq> 0) [0..<n] = vec"
  proof (rule nth_equalityI)
    fix p assume "p < length (map (\<lambda>p. w ! (p div 8) AND push_bit (p mod 8) 1 \<noteq> 0) [0..<n])"
    then have p: "p < n" by simp
    then have "p div 8 < (n + 7) div 8" by linarith
    then show "map (\<lambda>p. w ! (p div 8) AND push_bit (p mod 8) 1 \<noteq> 0) [0..<n] ! p = vec ! p"
      using p bits [of "p div 8" "p mod 8"] and_push_bit_iff [of "p mod 8" "w ! (p div 8)"] by simp
  qed (simp add: n_def)
  moreover have "w ! (length w - 1) AND NOT (drop_bit (length w * 8 - n) 0xff) = 0" if "length w * 8 \<noteq> n"
  proof (rule bit_eqI)
    fix j
    have L: "length w > 0" using that len by (cases n) auto
    have "\<not> bit (w ! (length w - 1)) j" if "j < 8" "\<not> bit (drop_bit (length w * 8 - n) 0xff :: byte) j"
    proof -
      have "bit (0xff :: byte) k \<longleftrightarrow> k < 8" for k
        using bit_mask_iff [of 8 k, where 'a = byte] by (auto simp: mask_eq_exp_minus_1 dest: bit_imp_le_length)
      then have "8 \<le> length w * 8 - n + j" using that by (simp add: bit_drop_bit_eq not_less)
      moreover have "n \<le> 8 * length w" using len by linarith
      ultimately have "n \<le> 8 * (length w - 1) + j" using L by linarith
      then show ?thesis using bits [of "length w - 1" j] that(1) L len by simp
    qed
    then show "bit (w ! (length w - 1) AND NOT (drop_bit (length w * 8 - n) 0xff)) j = bit 0 j"
      by (auto simp: bit_and_iff bit_not_iff dest: bit_imp_le_length)
  qed
  ultimately show ?thesis
    using len by (simp add: ReadFixedBitSet_def read_bind_def read_return_def Let_def flip: n_def w_def)
qed

lemma sint_small: "0 \<le> i \<Longrightarrow> i < 2 ^ 31 \<Longrightarrow> sint (word_of_int i :: u32) = i"
  by (simp add: signed_of_int signed_take_bit_int_eq_self)

lemma read_varints_loop_spec:
  assumes "length pre + length xs < 2 ^ 31" "- 1 \<le> lst" "lst < int (length pre)"
  shows "read_varints_loop (length pre + length xs) (pre @ replicate (length xs) False) lst
      (varints_loop xs (int (length pre)) lst @ WriteVarInt 0 @ rest) = Inr (pre @ xs, rest)"
  using assms
proof (induction xs arbitrary: pre lst)
  case Nil
  show ?case by (simp add: read_varints_loop.simps [of _ _ lst] ReadVarInt_WriteVarInt)
next
  case (Cons b xs)
  show ?case
  proof (cases b)
    case False
    have "read_varints_loop (length (pre @ [False]) + length xs) ((pre @ [False]) @ replicate (length xs) False) lst
        (varints_loop xs (int (length (pre @ [False]))) lst @ WriteVarInt 0 @ rest) = Inr ((pre @ [False]) @ xs, rest)"
      using Cons.prems by (intro Cons.IH) auto
    then show ?thesis using False by (simp add: add.commute)
  next
    case True
    define i where "i = int (length pre)"
    define off where "off = unat (word_of_int (i - lst) :: u32)"
    have d: "0 < i - lst" "i - lst < 4294967296" "i < 2 ^ 31" using Cons.prems by (simp_all add: i_def)
    have off: "int off = i - lst" using d
      by (simp add: off_def unsigned_of_int take_bit_int_eq_self del: of_int_diff)
    have pos: "0 < off" "off \<le> 0xffffffff" using off d by linarith+
    have idx: "sint (word_of_int (lst + int off) :: u32) = i" using off sint_small [of i] d by (simp add: i_def)
    have sz: "sint (of_nat (length pre + length (b # xs)) :: u32) = int (length pre + length (b # xs))"
      using sint_small [of "int (length pre + length (b # xs))"] Cons.prems(1) by simp
    have upd: "(pre @ replicate (length (b # xs)) False)[nat i := True] = (pre @ [True]) @ replicate (length xs) False"
      by (simp add: i_def list_update_append)
    have "varints_loop (b # xs) i lst @ WriteVarInt 0 @ rest = WriteVarInt off @ (varints_loop xs (i + 1) i @ WriteVarInt 0 @ rest)"
      using True by (simp add: off_def)
    then have "read_varints_loop (length pre + length (b # xs)) (pre @ replicate (length (b # xs)) False) lst
        (varints_loop (b # xs) i lst @ WriteVarInt 0 @ rest)
      = read_varints_loop (length pre + length (b # xs)) ((pre @ [True]) @ replicate (length xs) False) i
        (varints_loop xs (i + 1) i @ WriteVarInt 0 @ rest)"
      using pos d idx sz upd
      by (subst read_varints_loop.simps) (simp add: ReadVarInt_WriteVarInt i_def)
    also have "\<dots> = Inr ((pre @ [True]) @ xs, rest)"
      using Cons.IH [of "pre @ [True]" i] Cons.prems by (simp add: i_def add.commute)
    finally show ?thesis using True by (simp add: i_def)
  qed
qed

lemma ReadFixedVarIntsBitSet_Write:
  "length vec < 2 ^ 31 \<Longrightarrow> ReadFixedVarIntsBitSet (length vec) (WriteFixedVarIntsBitSet vec @ rest) = Inr (vec, rest)"
  using read_varints_loop_spec [of "[]" vec "- 1" rest]
  by (simp add: ReadFixedVarIntsBitSet_def WriteFixedVarIntsBitSet_def)

text \<open>
  A bit set of fewer than 2^31 bits written in the shorter of its two forms is read back unchanged, the assertions of the writer hold, and the
  written form is never longer than the plain bits and one byte.
\<close>

theorem autobitset_roundtrip:
  assumes "length vec < 2 ^ 31"
  shows "\<exists>b. WriteAutoBitSet (vec, length vec) = Some b \<and> ReadAutoBitSet (length vec) (b @ rest) = Inr (vec, rest) \<and>
    length b \<le> 1 + (length vec + 7) div 8"
proof -
  have r: "ser_readdata8 (x # s) = Inr (x, s)" for x s by (simp add: ser_readdata8_iff ser_writedata8_def)
  show ?thesis
    using ReadFixedBitSet_WriteFixedBitSet [of vec rest] ReadFixedVarIntsBitSet_Write [OF assms, of rest]
    by (auto simp: WriteAutoBitSet_def ReadAutoBitSet_def Let_def length_WriteFixedBitSet GetSizeOfFixedBitSet_def ser_writedata8_def
        read_bind_def r)
qed

theorem autobitset_roundtrip_witness:
  "length (replicate 40 False @ [True]) < 2 ^ 31 \<and>
   (\<exists>b. WriteAutoBitSet (replicate 40 False @ [True], 41) = Some b \<and>
     ReadAutoBitSet 41 (b @ [0xaa]) = Inr (replicate 40 False @ [True], [0xaa]) \<and> length b \<le> 7)"
  using autobitset_roundtrip [of "replicate 40 False @ [True]" "[0xaa]"] by simp

lemma ReadVarInt_loop_no_bad: "ReadVarInt_loop mx n s \<noteq> Inl Bad_access"
  by (induction mx n s rule: ReadVarInt_loop.induct) (auto simp: Let_def)

lemma read_varints_loop_no_bad:
  "0 \<le> lst \<Longrightarrow> length vec = sz \<Longrightarrow> sz < 2 ^ 31 \<Longrightarrow> read_varints_loop sz vec lst s \<noteq> Inl Bad_access"
proof (induction "length s" arbitrary: vec lst s rule: less_induct)
  case less
  have sz: "sint (of_nat sz :: u32) = int sz" using sint_small [of "int sz"] less.prems(3) by simp
  show ?case
  proof (cases "ReadVarInt (2 ^ 32 - 1) s")
    case (Inl e)
    then show ?thesis using ReadVarInt_loop_no_bad [of "2 ^ 32 - 1" 0 s]
      by (simp add: read_varints_loop.simps [of sz vec lst s] ReadVarInt_def)
  next
    case (Inr t)
    obtain offset s' where t: "ReadVarInt (2 ^ 32 - 1) s = Inr (offset, s')" using Inr by (cases t) auto
    have "length s' < length s" using t ReadVarInt_loop_shorter by (simp add: ReadVarInt_def)
    then have "0 \<le> idx \<Longrightarrow> read_varints_loop sz (vec[nat idx := True]) idx s' \<noteq> Inl Bad_access" for idx
      using less by simp
    then show ?thesis using t less.prems sz
      by (subst read_varints_loop.simps) (auto simp: Let_def)
  qed
qed

lemma sint_wrapped: "2 ^ 31 \<le> x \<Longrightarrow> x < 2 ^ 32 \<Longrightarrow> sint (word_of_int x :: u32) = x - 2 ^ 32"
proof -
  assume x: "2 ^ 31 \<le> x" "x < 2 ^ 32"
  have "(word_of_int x :: u32) = word_of_int (x - 2 ^ 32)" by simp
  moreover have "sint (word_of_int (x - 2 ^ 32) :: u32) = x - 2 ^ 32"
    using x by (simp add: signed_of_int signed_take_bit_int_eq_self del: of_int_diff)
  ultimately show ?thesis by (simp only:)
qed

text \<open>
  C16. \<open>ReadFixedVarIntsBitSet\<close> checks each offset after converting the sum with the last index to a signed 32-bit number. It writes outside its vector exactly when the first
  offset of the stream is above 2^31: the index is then negative and passes both checks. No later offset can do this.
\<close>

theorem ReadFixedVarIntsBitSet_bad_access:
  assumes "sz < 2 ^ 31"
  shows "ReadFixedVarIntsBitSet sz s = Inl Bad_access \<longleftrightarrow>
    (\<exists>offset rest. ReadVarInt (2 ^ 32 - 1) s = Inr (offset, rest) \<and> 2 ^ 31 < offset)"
proof (cases "ReadVarInt (2 ^ 32 - 1) s")
  case (Inl e)
  then show ?thesis using ReadVarInt_loop_no_bad [of "2 ^ 32 - 1" 0 s]
    by (simp add: ReadFixedVarIntsBitSet_def read_varints_loop.simps [of sz _ _ s] ReadVarInt_def)
next
  case (Inr t)
  obtain offset s' where t: "ReadVarInt (2 ^ 32 - 1) s = Inr (offset, s')" using Inr by (cases t) auto
  have off: "offset < 2 ^ 32" using ReadVarInt_loop_bound [of "2 ^ 32 - 1" 0 s offset s'] t by (simp add: ReadVarInt_def)
  have sz: "sint (of_nat sz :: u32) = int sz" using sint_small [of "int sz"] assms by simp
  have idx: "sint (word_of_int (- 1 + int offset) :: u32) = (if 2 ^ 31 < offset then int offset - 1 - 2 ^ 32 else int offset - 1)"
    if "offset \<noteq> 0"
    using off that sint_wrapped [of "- 1 + int offset"] sint_small [of "- 1 + int offset"] by auto
  have "read_varints_loop sz ((replicate sz False)[nat idx := True]) idx s' \<noteq> Inl Bad_access" if "0 \<le> idx" for idx
    using that assms by (intro read_varints_loop_no_bad) auto
  then show ?thesis using t idx sz off assms
    by (auto simp: ReadFixedVarIntsBitSet_def read_varints_loop.simps [of sz _ "- 1" s] Let_def)
qed

theorem ReadFixedVarIntsBitSet_bad_access_witness:
  "(8 :: nat) < 2 ^ 31 \<and> ReadFixedVarIntsBitSet 8 (WriteVarInt 0x80000001 @ WriteVarInt 0) = Inl Bad_access"
proof -
  have "ReadVarInt (2 ^ 32 - 1) (WriteVarInt 0x80000001 @ WriteVarInt 0) = Inr (0x80000001, WriteVarInt 0)"
    by (rule ReadVarInt_WriteVarInt) simp
  then show ?thesis
    using ReadFixedVarIntsBitSet_bad_access [of 8 "WriteVarInt 0x80000001 @ WriteVarInt 0"] by auto
qed

end
