(* ===== verification/Transaction.thy ===== *)
theory Transaction
  imports Block_Header Script Serialize "HOL-Library.List_Lexorder"
begin

text \<open>
  Transactions and their wire format (\<^verbatim>\<open>src/src/primitives/transaction.h\<close> and \<^verbatim>\<open>.cpp\<close>) and amounts (\<^verbatim>\<open>src/src/amount.h\<close>).
  An amount is an \<open>int\<close> within the 64-bit range; the 16-bit version and type are words, the version read as a signed number.
\<close>

unbundle bit_operations_syntax

section \<open>Amounts\<close>

type_synonym CAmount = int

abbreviation (input) COIN :: CAmount where "COIN \<equiv> 100000000"
abbreviation (input) MAX_MONEY :: CAmount where "MAX_MONEY \<equiv> 9950000 * COIN"

definition MoneyRange :: "CAmount \<Rightarrow> bool" where
  "MoneyRange n \<longleftrightarrow> n \<ge> 0 \<and> n \<le> MAX_MONEY"

section \<open>Transaction data\<close>

abbreviation (input) TRANSACTION_NORMAL :: u16 where "TRANSACTION_NORMAL \<equiv> 0"
abbreviation (input) TRANSACTION_PROVIDER_REGISTER :: u16 where "TRANSACTION_PROVIDER_REGISTER \<equiv> 1"
abbreviation (input) TRANSACTION_PROVIDER_UPDATE_SERVICE :: u16 where "TRANSACTION_PROVIDER_UPDATE_SERVICE \<equiv> 2"
abbreviation (input) TRANSACTION_PROVIDER_UPDATE_REGISTRAR :: u16 where "TRANSACTION_PROVIDER_UPDATE_REGISTRAR \<equiv> 3"
abbreviation (input) TRANSACTION_PROVIDER_UPDATE_REVOKE :: u16 where "TRANSACTION_PROVIDER_UPDATE_REVOKE \<equiv> 4"
abbreviation (input) TRANSACTION_COINBASE :: u16 where "TRANSACTION_COINBASE \<equiv> 5"
abbreviation (input) TRANSACTION_QUORUM_COMMITMENT :: u16 where "TRANSACTION_QUORUM_COMMITMENT \<equiv> 6"
abbreviation (input) TRANSACTION_MNHF_SIGNAL :: u16 where "TRANSACTION_MNHF_SIGNAL \<equiv> 7"
abbreviation (input) TRANSACTION_ASSET_LOCK :: u16 where "TRANSACTION_ASSET_LOCK \<equiv> 8"
abbreviation (input) TRANSACTION_ASSET_UNLOCK :: u16 where "TRANSACTION_ASSET_UNLOCK \<equiv> 9"

record COutPoint =
  op_hash :: uint256
  op_n :: u32

abbreviation (input) NULL_INDEX :: u32 where "NULL_INDEX \<equiv> 0xffffffff"

definition outpoint_null :: COutPoint where
  "outpoint_null = \<lparr>op_hash = replicate 32 0, op_n = NULL_INDEX\<rparr>"

definition outpoint_IsNull :: "COutPoint \<Rightarrow> bool" where
  "outpoint_IsNull o' \<longleftrightarrow> (\<forall>b \<in> set (op_hash o'). b = 0) \<and> op_n o' = NULL_INDEX"

definition outpoint_less :: "COutPoint \<Rightarrow> COutPoint \<Rightarrow> bool" where
  "outpoint_less a b \<longleftrightarrow> op_hash a < op_hash b \<or> (op_hash a = op_hash b \<and> op_n a < op_n b)"

record CTxIn =
  prevout :: COutPoint
  scriptSig :: CScript
  nSequence :: u32

abbreviation (input) SEQUENCE_FINAL :: u32 where "SEQUENCE_FINAL \<equiv> 0xffffffff"
abbreviation (input) SEQUENCE_LOCKTIME_DISABLE_FLAG :: u32 where "SEQUENCE_LOCKTIME_DISABLE_FLAG \<equiv> push_bit 31 1"
abbreviation (input) SEQUENCE_LOCKTIME_TYPE_FLAG :: u32 where "SEQUENCE_LOCKTIME_TYPE_FLAG \<equiv> push_bit 22 1"
abbreviation (input) SEQUENCE_LOCKTIME_MASK :: u32 where "SEQUENCE_LOCKTIME_MASK \<equiv> 0x0000ffff"
abbreviation (input) SEQUENCE_LOCKTIME_GRANULARITY :: nat where "SEQUENCE_LOCKTIME_GRANULARITY \<equiv> 9"

record CTxOut =
  nValue :: CAmount
  scriptPubKey :: CScript

definition txout_null :: CTxOut where
  "txout_null = \<lparr>nValue = - 1, scriptPubKey = []\<rparr>"

definition txout_IsNull :: "CTxOut \<Rightarrow> bool" where
  "txout_IsNull out \<longleftrightarrow> nValue out = - 1"

record CTransaction =
  vin :: "CTxIn list"
  vout :: "CTxOut list"
  tx_nVersion :: u16
  nType :: u16
  nLockTime :: u32
  vExtraPayload :: "byte list"

definition tx_IsNull :: "CTransaction \<Rightarrow> bool" where
  "tx_IsNull tx \<longleftrightarrow> vin tx = [] \<and> vout tx = []"

definition IsCoinBase :: "CTransaction \<Rightarrow> bool" where
  "IsCoinBase tx \<longleftrightarrow> length (vin tx) = 1 \<and> outpoint_IsNull (prevout (vin tx ! 0))"

section \<open>Serialization\<close>

definition ser_outpoint :: "COutPoint \<Rightarrow> byte list" where
  "ser_outpoint o' = op_hash o' @ ser_writedata32 (op_n o')"

definition unser_outpoint :: "COutPoint reader" where
  "unser_outpoint = read_bind (read_bytes 32) (\<lambda>h. read_bind ser_readdata32 (\<lambda>n.
    read_return \<lparr>op_hash = h, op_n = n\<rparr>))"

definition ser_txin :: "CTxIn \<Rightarrow> byte list" where
  "ser_txin i = ser_outpoint (prevout i) @ ser_bytes (scriptSig i) @ ser_writedata32 (nSequence i)"

definition unser_txin :: "CTxIn reader" where
  "unser_txin = read_bind unser_outpoint (\<lambda>p. read_bind unser_bytes (\<lambda>s. read_bind ser_readdata32 (\<lambda>q.
    read_return \<lparr>prevout = p, scriptSig = s, nSequence = q\<rparr>)))"

definition ser_txout :: "CTxOut \<Rightarrow> byte list" where
  "ser_txout out = ser_writedata64 (word_of_int (nValue out)) @ ser_bytes (scriptPubKey out)"

definition unser_txout :: "CTxOut reader" where
  "unser_txout = read_bind ser_readdata64 (\<lambda>v. read_bind unser_bytes (\<lambda>s.
    read_return \<lparr>nValue = sint v, scriptPubKey = s\<rparr>))"

definition n32bitVersion :: "CTransaction \<Rightarrow> u32" where
  "n32bitVersion tx = scast (tx_nVersion tx) OR push_bit 16 (ucast (nType tx))"

definition ser_tx :: "CTransaction \<Rightarrow> byte list" where
  "ser_tx tx = ser_writedata32 (n32bitVersion tx) @ ser_vector ser_txin (vin tx) @ ser_vector ser_txout (vout tx) @
     ser_writedata32 (nLockTime tx) @
     (if tx_nVersion tx = 3 \<and> nType tx \<noteq> TRANSACTION_NORMAL then ser_bytes (vExtraPayload tx) else [])"

definition low_version :: "u32 \<Rightarrow> u16" where "low_version n32 = ucast (n32 AND 0xffff)"
definition high_type :: "u32 \<Rightarrow> u16" where "high_type n32 = ucast (drop_bit 16 n32 AND 0xffff)"

definition unser_tx :: "CTransaction reader" where
  "unser_tx =
    read_bind ser_readdata32 (\<lambda>n32.
    let ver = low_version n32; typ = high_type n32 in
    read_bind (unser_vector unser_txin) (\<lambda>is.
    read_bind (unser_vector unser_txout) (\<lambda>os.
    read_bind ser_readdata32 (\<lambda>lt.
    read_bind (if ver = 3 \<and> typ \<noteq> TRANSACTION_NORMAL then unser_bytes else read_return []) (\<lambda>p.
    read_return \<lparr>vin = is, vout = os, tx_nVersion = ver, nType = typ, nLockTime = lt, vExtraPayload = p\<rparr>)))))"

text \<open>The transaction id: the hash function of \<^verbatim>\<open>CHashWriter\<close> is a parameter.\<close>

definition tx_GetHash :: "(byte list \<Rightarrow> uint256) \<Rightarrow> CTransaction \<Rightarrow> uint256" where
  "tx_GetHash Hash tx = Hash (ser_tx tx)"

definition GetTotalSize :: "CTransaction \<Rightarrow> nat" where
  "GetTotalSize tx = length (ser_tx tx)"

section \<open>The value of the outputs\<close>

fun GetValueOut_loop :: "CTxOut list \<Rightarrow> CAmount \<Rightarrow> CAmount option" where
  "GetValueOut_loop [] nValueOut = Some nValueOut"
| "GetValueOut_loop (out # outs) nValueOut =
    (if \<not> MoneyRange (nValue out) \<or> \<not> MoneyRange (nValueOut + nValue out) then None
     else GetValueOut_loop outs (nValueOut + nValue out))"

text \<open>\<open>None\<close> is the exception "value out of range".\<close>

definition GetValueOut :: "CTransaction \<Rightarrow> CAmount option" where
  "GetValueOut tx = GetValueOut_loop (vout tx) 0"

section \<open>Ordering of inputs and outputs\<close>

definition CompareInputBIP69 :: "CTxIn \<Rightarrow> CTxIn \<Rightarrow> bool" where
  "CompareInputBIP69 a b =
    (if op_hash (prevout a) = op_hash (prevout b) then op_n (prevout a) < op_n (prevout b)
     else rev (op_hash (prevout a)) < rev (op_hash (prevout b)))"

text \<open>Scripts are prevectors, which compare by size first.\<close>

definition prevector_less :: "byte list \<Rightarrow> byte list \<Rightarrow> bool" where
  "prevector_less a b = (if length a < length b then True else if length a > length b then False else a < b)"

definition CompareOutputBIP69 :: "CTxOut \<Rightarrow> CTxOut \<Rightarrow> bool" where
  "CompareOutputBIP69 a b \<longleftrightarrow> nValue a < nValue b \<or> (nValue a = nValue b \<and> prevector_less (scriptPubKey a) (scriptPubKey b))"

section \<open>The wire format is canonical\<close>

definition outpoint_ok :: "COutPoint \<Rightarrow> bool" where
  "outpoint_ok o' \<longleftrightarrow> length (op_hash o') = 32"

definition txin_ok :: "CTxIn \<Rightarrow> bool" where
  "txin_ok i \<longleftrightarrow> outpoint_ok (prevout i) \<and> length (scriptSig i) \<le> 0x02000000"

definition txout_ok :: "CTxOut \<Rightarrow> bool" where
  "txout_ok out \<longleftrightarrow> - (2 ^ 63) \<le> nValue out \<and> nValue out < 2 ^ 63 \<and> length (scriptPubKey out) \<le> 0x02000000"

definition tx_fields_ok :: "CTransaction \<Rightarrow> bool" where
  "tx_fields_ok tx \<longleftrightarrow> length (vin tx) \<le> 0x02000000 \<and> (\<forall>i \<in> set (vin tx). txin_ok i) \<and>
     length (vout tx) \<le> 0x02000000 \<and> (\<forall>out \<in> set (vout tx). txout_ok out) \<and>
     (if tx_nVersion tx = 3 \<and> nType tx \<noteq> TRANSACTION_NORMAL then length (vExtraPayload tx) \<le> 0x02000000
      else vExtraPayload tx = [])"

text \<open>
  The version and type share one 32-bit field. A negative version fills the upper half with ones, so only the type 0xffff survives next to it.
\<close>

definition version_ok :: "CTransaction \<Rightarrow> bool" where
  "version_ok tx \<longleftrightarrow> (sint (tx_nVersion tx) < 0 \<longrightarrow> nType tx = 0xffff)"

lemma unser_outpoint_iff: "unser_outpoint s = Inr (x, rest) \<longleftrightarrow> s = ser_outpoint x @ rest \<and> outpoint_ok x"
  by (cases x) (auto simp: unser_outpoint_def ser_outpoint_def outpoint_ok_def read_Inr read_bytes_Inr ser_readdata_iff)

interpretation ser_outpoint: codec ser_outpoint unser_outpoint outpoint_ok
  by unfold_locales (rule unser_outpoint_iff)

interpretation ser_txin: codec ser_txin unser_txin txin_ok
proof
  fix s x rest
  show "unser_txin s = Inr (x, rest) \<longleftrightarrow> s = ser_txin x @ rest \<and> txin_ok x"
    by (cases x) (auto simp: unser_txin_def ser_txin_def txin_ok_def read_Inr unser_outpoint_iff unser_bytes_iff ser_readdata_iff)
qed

lemma word_of_int_sint_iff: "w = (word_of_int v :: u64) \<and> - (2 ^ 63) \<le> v \<and> v < 2 ^ 63 \<longleftrightarrow> v = sint w"
  using sint_range_size [of w] by (auto simp: signed_of_int signed_take_bit_int_eq_self word_size)

interpretation ser_txout: codec ser_txout unser_txout txout_ok
proof
  fix s x rest
  have "unser_txout s = Inr (x, rest) \<longleftrightarrow>
      (\<exists>w. s = ser_writedata64 w @ ser_bytes (scriptPubKey x) @ rest \<and> nValue x = sint w) \<and> length (scriptPubKey x) \<le> 0x02000000"
    by (cases x) (auto simp: unser_txout_def read_Inr unser_bytes_iff ser_readdata_iff)
  then show "unser_txout s = Inr (x, rest) \<longleftrightarrow> s = ser_txout x @ rest \<and> txout_ok x"
    by (auto simp: ser_txout_def txout_ok_def simp flip: word_of_int_sint_iff)
qed

lemma and_ffff: "(n :: u32) AND 0xffff = take_bit 16 n"
proof -
  have "(0xffff :: u32) = mask 16" by (simp add: mask_eq_exp_minus_1)
  then show ?thesis by (simp only: take_bit_eq_mask)
qed

lemma bit_low_version: "bit (low_version n) k \<longleftrightarrow> k < 16 \<and> bit n k"
  by (auto simp: low_version_def and_ffff bit_ucast_iff bit_take_bit_iff dest: bit_imp_le_length)

lemma bit_high_type: "bit (high_type n) k \<longleftrightarrow> k < 16 \<and> bit n (16 + k)"
  by (auto simp: high_type_def and_ffff bit_ucast_iff bit_take_bit_iff bit_drop_bit_eq dest: bit_imp_le_length)

lemma less_16_cases: "(k :: nat) < 16 \<Longrightarrow> 15 \<le> k \<Longrightarrow> k = 15"
  by simp

lemma not_bit_u16: "16 \<le> m \<Longrightarrow> \<not> bit (w :: u16) m"
  using bit_imp_le_length [of w m] by auto

lemma bit_n32bitVersion:
  "bit (n32bitVersion tx) k \<longleftrightarrow>
    k < 32 \<and> (if k < 16 then bit (tx_nVersion tx) k else bit (tx_nVersion tx) 15 \<or> bit (nType tx) (k - 16))"
  by (auto simp: n32bitVersion_def bit_or_iff bit_push_bit_iff bit_ucast_iff bit_signed_iff min_def
      dest: bit_imp_le_length less_16_cases)

lemma version_ok_bits: "version_ok tx \<longleftrightarrow> (bit (tx_nVersion tx) 15 \<longrightarrow> (\<forall>k < 16. bit (nType tx) k))"
proof -
  have "(0xffff :: u16) = - 1" by simp
  then have "nType tx = 0xffff \<longleftrightarrow> (\<forall>k < 16. bit (nType tx) k)"
    by (auto simp only: bit_eq_iff [of "nType tx"]) (auto dest: bit_imp_le_length)
  moreover have "sint (tx_nVersion tx) < 0 \<longleftrightarrow> bit (tx_nVersion tx) 15"
    using bit_last_iff [of "tx_nVersion tx"] by simp
  ultimately show ?thesis by (simp add: version_ok_def)
qed

lemma n32bitVersion_read:
  assumes "version_ok tx"
  shows "low_version (n32bitVersion tx) = tx_nVersion tx" "high_type (n32bitVersion tx) = nType tx"
  using assms unfolding version_ok_bits
  by (auto intro!: bit_word_eqI simp: bit_low_version bit_high_type bit_n32bitVersion)

lemma n32bitVersion_write:
  assumes "low_version n = tx_nVersion tx" "high_type n = nType tx"
  shows "n = n32bitVersion tx \<longleftrightarrow> version_ok tx"
proof
  assume "n = n32bitVersion tx"
  then have "bit (nType tx) k" if "bit (tx_nVersion tx) 15" "k < 16" for k
    using that assms(2) bit_high_type [of n k] by (simp add: bit_n32bitVersion)
  then show "version_ok tx" by (simp add: version_ok_bits)
next
  assume ok: "version_ok tx"
  have lo: "bit (tx_nVersion tx) k \<longleftrightarrow> k < 16 \<and> bit n k" for k using bit_low_version [of n k] assms(1) by simp
  have hi: "bit (nType tx) k \<longleftrightarrow> k < 16 \<and> bit n (16 + k)" for k using bit_high_type [of n k] assms(2) by simp
  have "bit n k \<longleftrightarrow> bit (n32bitVersion tx) k" if "k < 32" for k
  proof (cases "k < 16")
    case True
    then show ?thesis using lo [of k] by (simp add: bit_n32bitVersion)
  next
    case False
    then have "bit (nType tx) (k - 16) \<longleftrightarrow> bit n k" using hi [of "k - 16"] that by (auto simp: less_diff_conv2)
    moreover have "bit (tx_nVersion tx) 15 \<longrightarrow> bit (nType tx) (k - 16)" using ok that False by (simp add: version_ok_bits)
    ultimately show ?thesis using False that by (auto simp: bit_n32bitVersion)
  qed
  then show "n = n32bitVersion tx" by (intro bit_word_eqI) simp
qed

definition ser_body :: "CTransaction \<Rightarrow> byte list" where
  "ser_body tx = ser_vector ser_txin (vin tx) @ ser_vector ser_txout (vout tx) @ ser_writedata32 (nLockTime tx) @
     (if tx_nVersion tx = 3 \<and> nType tx \<noteq> TRANSACTION_NORMAL then ser_bytes (vExtraPayload tx) else [])"

lemma ser_tx_body: "ser_tx tx = ser_writedata32 (n32bitVersion tx) @ ser_body tx"
  by (simp add: ser_tx_def ser_body_def)

lemma unser_tx_iff:
  "unser_tx s = Inr (tx, rest) \<longleftrightarrow>
    (\<exists>n. s = ser_writedata32 n @ ser_body tx @ rest \<and> low_version n = tx_nVersion tx \<and> high_type n = nType tx) \<and> tx_fields_ok tx"
  by (cases tx) (auto simp: unser_tx_def Let_def read_Inr ser_readdata_iff ser_txin.unser_vector_iff ser_txout.unser_vector_iff
      unser_bytes_iff ser_body_def tx_fields_ok_def split: if_splits)

lemma ser_writedata32_inj: "ser_writedata32 a = ser_writedata32 b \<longleftrightarrow> a = b"
  by (metis ser_readdata32_iff sum.inject(2) prod.inject)

text \<open>
  C17. A transaction whose fields fit their sizes, and whose version is not negative unless its type is 0xffff, is read back from its serialization; and a
  transaction read from a stream is serialized to the very bytes it was read from exactly when its version and type satisfy that condition.
\<close>

theorem tx_serialization:
  "(tx_fields_ok tx \<and> version_ok tx \<longrightarrow> unser_tx (ser_tx tx @ rest) = Inr (tx, rest)) \<and>
   (unser_tx s = Inr (tx, rest) \<longrightarrow> (s = ser_tx tx @ rest \<longleftrightarrow> version_ok tx))"
proof (intro conjI impI)
  assume "tx_fields_ok tx \<and> version_ok tx"
  then show "unser_tx (ser_tx tx @ rest) = Inr (tx, rest)"
    using n32bitVersion_read [of tx] by (auto simp: unser_tx_iff ser_tx_body)
next
  assume "unser_tx s = Inr (tx, rest)"
  then show "s = ser_tx tx @ rest \<longleftrightarrow> version_ok tx"
    using n32bitVersion_write [of _ tx] by (auto simp: unser_tx_iff ser_tx_body ser_writedata32_inj)
qed

definition demo_tx :: CTransaction where
  "demo_tx = \<lparr>vin = [\<lparr>prevout = \<lparr>op_hash = replicate 32 7, op_n = 1\<rparr>, scriptSig = [0x51], nSequence = SEQUENCE_FINAL\<rparr>],
     vout = [\<lparr>nValue = 5 * COIN, scriptPubKey = [0x52]\<rparr>], tx_nVersion = 2, nType = TRANSACTION_NORMAL, nLockTime = 0,
     vExtraPayload = []\<rparr>"

lemma demo_tx_ok: "tx_fields_ok demo_tx" "version_ok demo_tx"
  by (simp_all add: demo_tx_def tx_fields_ok_def txin_ok_def outpoint_ok_def txout_ok_def version_ok_def)

theorem tx_serialization_witness:
  "tx_fields_ok demo_tx \<and> version_ok demo_tx \<and> unser_tx (ser_tx demo_tx @ [0xaa]) = Inr (demo_tx, [0xaa])"
  using tx_serialization [of demo_tx "[0xaa]"] demo_tx_ok by simp

text \<open>
  C18. With a negative version the type is lost: every transaction that differs only in its type has the same serialization, hence the same
  transaction id, although each of them can be read from a stream of its own.
\<close>

theorem tx_negative_version_collision:
  assumes "tx_fields_ok tx" "sint (tx_nVersion tx) < 0"
  shows "tx_GetHash Hash (tx\<lparr>nType := t\<rparr>) = tx_GetHash Hash tx \<and> (\<exists>s. unser_tx s = Inr (tx\<lparr>nType := t\<rparr>, []))"
proof
  have neg: "bit (tx_nVersion tx) 15" using assms(2) bit_last_iff [of "tx_nVersion tx"] by simp
  have v3: "tx_nVersion tx \<noteq> 3" using assms(2) by auto
  have "n32bitVersion (tx\<lparr>nType := t\<rparr>) = n32bitVersion tx"
    using neg by (intro bit_word_eqI) (auto simp: bit_n32bitVersion)
  then show "tx_GetHash Hash (tx\<lparr>nType := t\<rparr>) = tx_GetHash Hash tx"
    using v3 by (simp add: tx_GetHash_def ser_tx_body ser_body_def)
  define n :: u32 where "n = ucast (tx_nVersion tx) OR push_bit 16 (ucast t)"
  have "low_version n = tx_nVersion tx" "high_type n = t"
    by (auto intro!: bit_word_eqI simp: bit_low_version bit_high_type n_def bit_or_iff bit_push_bit_iff bit_ucast_iff
        not_bit_u16 dest: bit_imp_le_length)
  moreover have "tx_fields_ok (tx\<lparr>nType := t\<rparr>)" using assms(1) v3 by (simp add: tx_fields_ok_def)
  ultimately have "unser_tx (ser_writedata32 n @ ser_body (tx\<lparr>nType := t\<rparr>)) = Inr (tx\<lparr>nType := t\<rparr>, [])"
    by (auto simp: unser_tx_iff)
  then show "\<exists>s. unser_tx s = Inr (tx\<lparr>nType := t\<rparr>, [])" ..
qed

theorem tx_negative_version_collision_witness:
  "tx_fields_ok (demo_tx\<lparr>tx_nVersion := 0x8000\<rparr>) \<and> sint (tx_nVersion (demo_tx\<lparr>tx_nVersion := 0x8000\<rparr>)) < 0 \<and>
   tx_GetHash (take 32) (demo_tx\<lparr>tx_nVersion := 0x8000, nType := TRANSACTION_QUORUM_COMMITMENT\<rparr>)
     = tx_GetHash (take 32) (demo_tx\<lparr>tx_nVersion := 0x8000\<rparr>)"
proof -
  have "tx_fields_ok (demo_tx\<lparr>tx_nVersion := 0x8000\<rparr>)" "sint (tx_nVersion (demo_tx\<lparr>tx_nVersion := 0x8000\<rparr>)) < 0"
    using demo_tx_ok(1) by (simp_all add: tx_fields_ok_def demo_tx_def)
  then show ?thesis
    using tx_negative_version_collision [of "demo_tx\<lparr>tx_nVersion := 0x8000\<rparr>" "take 32" TRANSACTION_QUORUM_COMMITMENT] by simp
qed

section \<open>Values\<close>

lemma GetValueOut_loop_val:
  "0 \<le> acc \<Longrightarrow> acc \<le> MAX_MONEY \<Longrightarrow> GetValueOut_loop outs acc =
    (if (\<forall>out \<in> set outs. MoneyRange (nValue out)) \<and> MoneyRange (acc + sum_list (map nValue outs))
     then Some (acc + sum_list (map nValue outs)) else None)"
proof (induction outs arbitrary: acc)
  case (Cons out outs)
  have "0 \<le> sum_list (map nValue outs)" if "\<forall>out \<in> set outs. MoneyRange (nValue out)"
    using that by (intro sum_list_nonneg) (auto simp: MoneyRange_def)
  then show ?case using Cons by (auto simp: MoneyRange_def add.assoc)
qed (simp add: MoneyRange_def)

lemma GetValueOut_val:
  "GetValueOut tx = (if (\<forall>out \<in> set (vout tx). MoneyRange (nValue out)) \<and> MoneyRange (sum_list (map nValue (vout tx)))
     then Some (sum_list (map nValue (vout tx))) else None)"
  using GetValueOut_loop_val [of 0 "vout tx"] by (simp add: GetValueOut_def)

end
