(* ===== verification/Script_Eval.thy ===== *)
theory Script_Eval
  imports Script_Checks Transaction "HOL-Library.Signed_Division" "HOL-Library.Sublist"
begin

text \<open>
  The script interpreter: \<^verbatim>\<open>EvalScript\<close> of \<^verbatim>\<open>src/src/script/interpreter.cpp\<close>, one definition per group of cases of its switch. The stack is a list whose head is
  the top. The signature checker is the record of the virtual functions of \<^verbatim>\<open>BaseSignatureChecker\<close>; the hash functions and the curve operations
  are parameters. An operation ends in \<open>Done\<close>, in \<open>Fail\<close> with the error code it sets (an exception, which
  \<^verbatim>\<open>EvalScript\<close> catches, is the unknown error), or in \<open>Abort\<close> when an assertion fails. What a failed evaluation leaves on the stack is not
  kept.
\<close>

unbundle bit_operations_syntax

section \<open>Outcomes and environment\<close>

datatype 'a outcome = Abort | Fail ScriptError | Done 'a

definition out_bind :: "'a outcome \<Rightarrow> ('a \<Rightarrow> 'b outcome) \<Rightarrow> 'b outcome" where
  "out_bind m f = (case m of Abort \<Rightarrow> Abort | Fail e \<Rightarrow> Fail e | Done x \<Rightarrow> f x)"

definition or_abort :: "'a option \<Rightarrow> 'a outcome" where
  "or_abort m = (case m of None \<Rightarrow> Abort | Some x \<Rightarrow> Done x)"

definition fail_if :: "ScriptError option \<Rightarrow> unit outcome" where
  "fail_if m = (case m of None \<Rightarrow> Done () | Some e \<Rightarrow> Fail e)"

record crypto_fns =
  RIPEMD160 :: "byte list \<Rightarrow> byte list"
  SHA1 :: "byte list \<Rightarrow> byte list"
  SHA256 :: "byte list \<Rightarrow> byte list"
  CheckLowS :: "valtype \<Rightarrow> bool"
  PubKeyVerify :: "valtype \<Rightarrow> byte list \<Rightarrow> valtype \<Rightarrow> bool"

definition CHash160 :: "crypto_fns \<Rightarrow> byte list \<Rightarrow> byte list" where
  "CHash160 c x = RIPEMD160 c (SHA256 c x)"

definition CHash256 :: "crypto_fns \<Rightarrow> byte list \<Rightarrow> byte list" where
  "CHash256 c x = SHA256 c (SHA256 c x)"

record SignatureChecker =
  CheckSig :: "valtype \<Rightarrow> valtype \<Rightarrow> CScript \<Rightarrow> SigVersion \<Rightarrow> bool"
  CheckLockTime :: "int \<Rightarrow> bool"
  CheckSequence :: "int \<Rightarrow> bool"

text \<open>The checker of the base class refuses everything.\<close>

definition BaseSignatureChecker :: SignatureChecker where
  "BaseSignatureChecker = \<lparr>CheckSig = \<lambda>_ _ _ _. False, CheckLockTime = \<lambda>_. False, CheckSequence = \<lambda>_. False\<rparr>"

record EvalEnv =
  flags :: u32
  checker :: SignatureChecker
  sigversion :: SigVersion
  crypto :: crypto_fns

type_synonym stack = "valtype list"

record EvalState =
  es_stack :: stack
  es_alt :: stack
  es_exec :: ConditionStack
  es_codehash :: "byte list"
  es_ops :: nat

definition vchTrue :: valtype where "vchTrue = [1]"
definition vchFalse :: valtype where "vchFalse = []"

definition bool_vch :: "bool \<Rightarrow> valtype" where
  "bool_vch b = (if b then vchTrue else vchFalse)"

definition fRequireMinimal :: "EvalEnv \<Rightarrow> bool" where
  "fRequireMinimal env \<longleftrightarrow> flag (flags env) SCRIPT_VERIFY_MINIMALDATA"

text \<open>Reading a stack element as a number; the constructor's exception ends the evaluation.\<close>

definition stack_num :: "EvalEnv \<Rightarrow> nat \<Rightarrow> valtype \<Rightarrow> int outcome" where
  "stack_num env maxSize vch =
    (case CScriptNum vch (fRequireMinimal env) maxSize of Inl _ \<Rightarrow> Fail SCRIPT_ERR_UNKNOWN_ERROR | Inr n \<Rightarrow> Done n)"

abbreviation (input) stack_int :: "EvalEnv \<Rightarrow> valtype \<Rightarrow> int outcome" where
  "stack_int env vch \<equiv> stack_num env nDefaultMaxNumSize vch"

section \<open>Push value and lock times\<close>

definition op_push_small :: "nat \<Rightarrow> stack \<Rightarrow> stack outcome" where
  "op_push_small opcode st = Done (num_serialize (int opcode - (int OP_1 - 1)) # st)"

definition op_checklocktime :: "EvalEnv \<Rightarrow> stack \<Rightarrow> stack outcome" where
  "op_checklocktime env st =
    (if \<not> flag (flags env) SCRIPT_VERIFY_CHECKLOCKTIMEVERIFY then Done st
     else case st of
       [] \<Rightarrow> Fail SCRIPT_ERR_INVALID_STACK_OPERATION
     | vchTop # _ \<Rightarrow> out_bind (stack_num env 5 vchTop) (\<lambda>nLockTime.
         if nLockTime < 0 then Fail SCRIPT_ERR_NEGATIVE_LOCKTIME
         else if \<not> CheckLockTime (checker env) nLockTime then Fail SCRIPT_ERR_UNSATISFIED_LOCKTIME
         else Done st))"

definition op_checksequence :: "EvalEnv \<Rightarrow> stack \<Rightarrow> stack outcome" where
  "op_checksequence env st =
    (if \<not> flag (flags env) SCRIPT_VERIFY_CHECKSEQUENCEVERIFY then Done st
     else case st of
       [] \<Rightarrow> Fail SCRIPT_ERR_INVALID_STACK_OPERATION
     | vchTop # _ \<Rightarrow> out_bind (stack_num env 5 vchTop) (\<lambda>nSeq.
         if nSeq < 0 then Fail SCRIPT_ERR_NEGATIVE_LOCKTIME
         else if nSeq AND uint SEQUENCE_LOCKTIME_DISABLE_FLAG \<noteq> 0 then Done st
         else if \<not> CheckSequence (checker env) nSeq then Fail SCRIPT_ERR_UNSATISFIED_LOCKTIME
         else Done st))"

definition op_nop_upgradable :: "EvalEnv \<Rightarrow> stack \<Rightarrow> stack outcome" where
  "op_nop_upgradable env st =
    (if flag (flags env) SCRIPT_VERIFY_DISCOURAGE_UPGRADABLE_NOPS then Fail SCRIPT_ERR_DISCOURAGE_UPGRADABLE_NOPS
     else Done st)"

section \<open>Control\<close>

definition op_if :: "nat \<Rightarrow> bool \<Rightarrow> EvalState \<Rightarrow> EvalState outcome" where
  "op_if opcode fExec st =
    (if fExec then
       (case es_stack st of
          [] \<Rightarrow> Fail SCRIPT_ERR_UNBALANCED_CONDITIONAL
        | vch # s \<Rightarrow>
            (let fValue = CastToBool vch; fValue = (if opcode = OP_NOTIF then \<not> fValue else fValue)
             in Done (st\<lparr>es_stack := s, es_exec := cs_push_back fValue (es_exec st)\<rparr>)))
     else Done (st\<lparr>es_exec := cs_push_back False (es_exec st)\<rparr>))"

definition op_else :: "EvalState \<Rightarrow> EvalState outcome" where
  "op_else st =
    (if cs_empty (es_exec st) then Fail SCRIPT_ERR_UNBALANCED_CONDITIONAL
     else out_bind (or_abort (cs_toggle_top (es_exec st))) (\<lambda>e. Done (st\<lparr>es_exec := e\<rparr>)))"

definition op_endif :: "EvalState \<Rightarrow> EvalState outcome" where
  "op_endif st =
    (if cs_empty (es_exec st) then Fail SCRIPT_ERR_UNBALANCED_CONDITIONAL
     else out_bind (or_abort (cs_pop_back (es_exec st))) (\<lambda>e. Done (st\<lparr>es_exec := e\<rparr>)))"

definition op_verify :: "stack \<Rightarrow> stack outcome" where
  "op_verify st = (case st of
      [] \<Rightarrow> Fail SCRIPT_ERR_INVALID_STACK_OPERATION
    | vchTop # s \<Rightarrow> if CastToBool vchTop then Done s else Fail SCRIPT_ERR_VERIFY)"

section \<open>Stack operations\<close>

definition op_toaltstack :: "EvalState \<Rightarrow> EvalState outcome" where
  "op_toaltstack st = (case es_stack st of
      [] \<Rightarrow> Fail SCRIPT_ERR_INVALID_STACK_OPERATION
    | vchTop # s \<Rightarrow> Done (st\<lparr>es_stack := s, es_alt := vchTop # es_alt st\<rparr>))"

definition op_fromaltstack :: "EvalState \<Rightarrow> EvalState outcome" where
  "op_fromaltstack st = (case es_alt st of
      [] \<Rightarrow> Fail SCRIPT_ERR_INVALID_ALTSTACK_OPERATION
    | vchTop # a \<Rightarrow> Done (st\<lparr>es_stack := vchTop # es_stack st, es_alt := a\<rparr>))"

definition op_stack_multi :: "nat \<Rightarrow> stack \<Rightarrow> stack outcome" where
  "op_stack_multi opcode st =
    (if opcode = OP_2DROP then (case st of x2 # x1 # s \<Rightarrow> Done s | _ \<Rightarrow> Fail SCRIPT_ERR_INVALID_STACK_OPERATION)
     else if opcode = OP_2DUP then
       (case st of x2 # x1 # s \<Rightarrow> Done (x2 # x1 # x2 # x1 # s) | _ \<Rightarrow> Fail SCRIPT_ERR_INVALID_STACK_OPERATION)
     else if opcode = OP_3DUP then
       (case st of x3 # x2 # x1 # s \<Rightarrow> Done (x3 # x2 # x1 # x3 # x2 # x1 # s) | _ \<Rightarrow> Fail SCRIPT_ERR_INVALID_STACK_OPERATION)
     else if opcode = OP_2OVER then
       (case st of x4 # x3 # x2 # x1 # s \<Rightarrow> Done (x2 # x1 # x4 # x3 # x2 # x1 # s) | _ \<Rightarrow> Fail SCRIPT_ERR_INVALID_STACK_OPERATION)
     else if opcode = OP_2ROT then
       (case st of x6 # x5 # x4 # x3 # x2 # x1 # s \<Rightarrow> Done (x2 # x1 # x6 # x5 # x4 # x3 # s)
        | _ \<Rightarrow> Fail SCRIPT_ERR_INVALID_STACK_OPERATION)
     else
       (case st of x4 # x3 # x2 # x1 # s \<Rightarrow> Done (x2 # x1 # x4 # x3 # s) | _ \<Rightarrow> Fail SCRIPT_ERR_INVALID_STACK_OPERATION))"

definition op_pick_roll :: "EvalEnv \<Rightarrow> nat \<Rightarrow> stack \<Rightarrow> stack outcome" where
  "op_pick_roll env opcode st = (case st of
      vchTop # second # below \<Rightarrow> out_bind (stack_int env vchTop) (\<lambda>num.
        let n = getint num; s = second # below
        in if n < 0 \<or> n \<ge> int (length s) then Fail SCRIPT_ERR_INVALID_STACK_OPERATION
           else let vch = s ! nat n
                in Done (vch # (if opcode = OP_ROLL then take (nat n) s @ drop (nat n + 1) s else s)))
    | _ \<Rightarrow> Fail SCRIPT_ERR_INVALID_STACK_OPERATION)"

definition op_stack_single :: "nat \<Rightarrow> stack \<Rightarrow> stack outcome" where
  "op_stack_single opcode st =
    (if opcode = OP_IFDUP then
       (case st of x # s \<Rightarrow> Done (if CastToBool x then x # x # s else x # s) | _ \<Rightarrow> Fail SCRIPT_ERR_INVALID_STACK_OPERATION)
     else if opcode = OP_DEPTH then Done (num_serialize (int (length st)) # st)
     else if opcode = OP_DROP then (case st of x # s \<Rightarrow> Done s | _ \<Rightarrow> Fail SCRIPT_ERR_INVALID_STACK_OPERATION)
     else if opcode = OP_DUP then (case st of x # s \<Rightarrow> Done (x # x # s) | _ \<Rightarrow> Fail SCRIPT_ERR_INVALID_STACK_OPERATION)
     else if opcode = OP_NIP then
       (case st of x2 # x1 # s \<Rightarrow> Done (x2 # s) | _ \<Rightarrow> Fail SCRIPT_ERR_INVALID_STACK_OPERATION)
     else if opcode = OP_OVER then
       (case st of x2 # x1 # s \<Rightarrow> Done (x1 # x2 # x1 # s) | _ \<Rightarrow> Fail SCRIPT_ERR_INVALID_STACK_OPERATION)
     else if opcode = OP_ROT then
       (case st of x3 # x2 # x1 # s \<Rightarrow> Done (x1 # x3 # x2 # s) | _ \<Rightarrow> Fail SCRIPT_ERR_INVALID_STACK_OPERATION)
     else if opcode = OP_SWAP then
       (case st of x2 # x1 # s \<Rightarrow> Done (x1 # x2 # s) | _ \<Rightarrow> Fail SCRIPT_ERR_INVALID_STACK_OPERATION)
     else if opcode = OP_TUCK then
       (case st of x2 # x1 # s \<Rightarrow> Done (x2 # x1 # x2 # s) | _ \<Rightarrow> Fail SCRIPT_ERR_INVALID_STACK_OPERATION)
     else
       (case st of x # s \<Rightarrow> Done (num_serialize (int (length x)) # x # s) | _ \<Rightarrow> Fail SCRIPT_ERR_INVALID_STACK_OPERATION))"

section \<open>Comparison and bitwise logic\<close>

definition op_equal :: "nat \<Rightarrow> stack \<Rightarrow> stack outcome" where
  "op_equal opcode st = (case st of
      vch2 # vch1 # s \<Rightarrow>
        (let fEqual = (vch1 = vch2)
         in if opcode = OP_EQUALVERIFY then (if fEqual then Done s else Fail SCRIPT_ERR_EQUALVERIFY)
            else Done (bool_vch fEqual # s))
    | _ \<Rightarrow> Fail SCRIPT_ERR_INVALID_STACK_OPERATION)"

definition op_bitwise :: "nat \<Rightarrow> stack \<Rightarrow> stack outcome" where
  "op_bitwise opcode st = (case st of
      vch2 # vch1 # s \<Rightarrow>
        if length vch1 \<noteq> length vch2 then Fail SCRIPT_ERR_INVALID_OPERAND_SIZE
        else Done (map2 (\<lambda>a b. if opcode = OP_AND then a AND b else if opcode = OP_OR then a OR b else a XOR b) vch1 vch2 # s)
    | _ \<Rightarrow> Fail SCRIPT_ERR_INVALID_STACK_OPERATION)"

section \<open>Numeric operations\<close>

definition numeric1_result :: "nat \<Rightarrow> int \<Rightarrow> int outcome" where
  "numeric1_result opcode bn =
    (if opcode = OP_1ADD then or_abort (num_add bn 1)
     else if opcode = OP_1SUB then or_abort (num_sub bn 1)
     else if opcode = OP_NEGATE then or_abort (num_neg bn)
     else if opcode = OP_ABS then (if bn < 0 then or_abort (num_neg bn) else Done bn)
     else if opcode = OP_NOT then Done (of_bool (bn = 0))
     else if opcode = OP_0NOTEQUAL then Done (of_bool (bn \<noteq> 0))
     else Abort)"

definition op_numeric1 :: "EvalEnv \<Rightarrow> nat \<Rightarrow> stack \<Rightarrow> stack outcome" where
  "op_numeric1 env opcode st = (case st of
      vchTop # s \<Rightarrow>
        out_bind (stack_int env vchTop) (\<lambda>bn. out_bind (numeric1_result opcode bn) (\<lambda>bn. Done (num_serialize bn # s)))
    | _ \<Rightarrow> Fail SCRIPT_ERR_INVALID_STACK_OPERATION)"

definition numeric2_result :: "nat \<Rightarrow> int \<Rightarrow> int \<Rightarrow> int outcome" where
  "numeric2_result opcode bn1 bn2 =
    (if opcode = OP_ADD then Done (bn1 + bn2)
     else if opcode = OP_SUB then Done (bn1 - bn2)
     else if opcode = OP_DIV then (if bn2 = 0 then Fail SCRIPT_ERR_DIV_BY_ZERO else Done (bn1 sdiv bn2))
     else if opcode = OP_MOD then (if bn2 = 0 then Fail SCRIPT_ERR_MOD_BY_ZERO else Done (bn1 smod bn2))
     else if opcode = OP_BOOLAND then Done (of_bool (bn1 \<noteq> 0 \<and> bn2 \<noteq> 0))
     else if opcode = OP_BOOLOR then Done (of_bool (bn1 \<noteq> 0 \<or> bn2 \<noteq> 0))
     else if opcode = OP_NUMEQUAL then Done (of_bool (bn1 = bn2))
     else if opcode = OP_NUMEQUALVERIFY then Done (of_bool (bn1 = bn2))
     else if opcode = OP_NUMNOTEQUAL then Done (of_bool (bn1 \<noteq> bn2))
     else if opcode = OP_LESSTHAN then Done (of_bool (bn1 < bn2))
     else if opcode = OP_GREATERTHAN then Done (of_bool (bn1 > bn2))
     else if opcode = OP_LESSTHANOREQUAL then Done (of_bool (bn1 \<le> bn2))
     else if opcode = OP_GREATERTHANOREQUAL then Done (of_bool (bn1 \<ge> bn2))
     else if opcode = OP_MIN then Done (if bn1 < bn2 then bn1 else bn2)
     else if opcode = OP_MAX then Done (if bn1 > bn2 then bn1 else bn2)
     else Abort)"

definition op_numeric2 :: "EvalEnv \<Rightarrow> nat \<Rightarrow> stack \<Rightarrow> stack outcome" where
  "op_numeric2 env opcode st = (case st of
      vchTop # second # s \<Rightarrow>
        out_bind (stack_int env second) (\<lambda>bn1. out_bind (stack_int env vchTop) (\<lambda>bn2.
        out_bind (numeric2_result opcode bn1 bn2) (\<lambda>bn.
          if opcode = OP_NUMEQUALVERIFY
          then (if CastToBool (num_serialize bn) then Done s else Fail SCRIPT_ERR_NUMEQUALVERIFY)
          else Done (num_serialize bn # s))))
    | _ \<Rightarrow> Fail SCRIPT_ERR_INVALID_STACK_OPERATION)"

definition op_within :: "EvalEnv \<Rightarrow> stack \<Rightarrow> stack outcome" where
  "op_within env st = (case st of
      x3 # x2 # x1 # s \<Rightarrow>
        out_bind (stack_int env x1) (\<lambda>bn1. out_bind (stack_int env x2) (\<lambda>bn2. out_bind (stack_int env x3) (\<lambda>bn3.
          Done (bool_vch (bn2 \<le> bn1 \<and> bn1 < bn3) # s))))
    | _ \<Rightarrow> Fail SCRIPT_ERR_INVALID_STACK_OPERATION)"

section \<open>Hashes and signatures\<close>

definition op_hashes :: "EvalEnv \<Rightarrow> nat \<Rightarrow> stack \<Rightarrow> stack outcome" where
  "op_hashes env opcode st = (case st of
      vch # s \<Rightarrow>
        Done ((if opcode = OP_RIPEMD160 then RIPEMD160 (crypto env) vch
               else if opcode = OP_SHA1 then SHA1 (crypto env) vch
               else if opcode = OP_SHA256 then SHA256 (crypto env) vch
               else if opcode = OP_HASH160 then CHash160 (crypto env) vch
               else CHash256 (crypto env) vch) # s)
    | _ \<Rightarrow> Fail SCRIPT_ERR_INVALID_STACK_OPERATION)"

text \<open>The encoding checks of a signature and a key, in the order of the code.\<close>

definition check_encodings :: "EvalEnv \<Rightarrow> valtype \<Rightarrow> valtype \<Rightarrow> unit outcome" where
  "check_encodings env vchSig vchPubKey =
    out_bind (fail_if (CheckSignatureEncoding (CheckLowS (crypto env)) vchSig (flags env))) (\<lambda>_.
      fail_if (CheckPubKeyEncoding vchPubKey (flags env)))"

text \<open>Dropping one signature from the script code.\<close>

definition drop_sig :: "EvalEnv \<Rightarrow> valtype \<Rightarrow> CScript \<Rightarrow> CScript outcome" where
  "drop_sig env vchSig scriptCode =
    (if sigversion env = BASE then
       (let (found, scriptCode) = FindAndDelete scriptCode (push_data vchSig)
        in if found > 0 \<and> flag (flags env) SCRIPT_VERIFY_CONST_SCRIPTCODE then Fail SCRIPT_ERR_SIG_FINDANDDELETE
           else Done scriptCode)
     else Done scriptCode)"

definition EvalChecksig :: "EvalEnv \<Rightarrow> valtype \<Rightarrow> valtype \<Rightarrow> CScript \<Rightarrow> bool outcome" where
  "EvalChecksig env vchSig vchPubKey scriptCode =
    out_bind (drop_sig env vchSig scriptCode) (\<lambda>scriptCode.
    out_bind (check_encodings env vchSig vchPubKey) (\<lambda>_.
    let fSuccess = CheckSig (checker env) vchSig vchPubKey scriptCode (sigversion env)
    in if \<not> fSuccess \<and> flag (flags env) SCRIPT_VERIFY_NULLFAIL \<and> length vchSig \<noteq> 0 then Fail SCRIPT_ERR_SIG_NULLFAIL
       else Done fSuccess))"

definition op_checksig :: "EvalEnv \<Rightarrow> nat \<Rightarrow> CScript \<Rightarrow> stack \<Rightarrow> stack outcome" where
  "op_checksig env opcode code st = (case st of
      vchPubKey # vchSig # s \<Rightarrow>
        out_bind (EvalChecksig env vchSig vchPubKey code) (\<lambda>fSuccess.
          if opcode = OP_CHECKSIGVERIFY then (if fSuccess then Done s else Fail SCRIPT_ERR_CHECKSIGVERIFY)
          else Done (bool_vch fSuccess # s))
    | _ \<Rightarrow> Fail SCRIPT_ERR_INVALID_STACK_OPERATION)"

definition op_checkdatasig :: "EvalEnv \<Rightarrow> nat \<Rightarrow> stack \<Rightarrow> stack outcome" where
  "op_checkdatasig env opcode st = (case st of
      vchPubKey # vchMessage # vchSig # s \<Rightarrow>
        out_bind (check_encodings env vchSig vchPubKey) (\<lambda>_.
        let fSuccess = (length vchSig \<noteq> 0 \<and> PubKeyVerify (crypto env) vchPubKey (SHA256 (crypto env) vchMessage) vchSig)
        in if \<not> fSuccess \<and> flag (flags env) SCRIPT_VERIFY_NULLFAIL \<and> length vchSig \<noteq> 0 then Fail SCRIPT_ERR_SIG_NULLFAIL
           else if opcode = OP_CHECKDATASIGVERIFY then (if fSuccess then Done s else Fail SCRIPT_ERR_CHECKDATASIGVERIFY)
           else Done (bool_vch fSuccess # s))
    | _ \<Rightarrow> Fail SCRIPT_ERR_INVALID_STACK_OPERATION)"

fun drop_sigs :: "EvalEnv \<Rightarrow> valtype list \<Rightarrow> CScript \<Rightarrow> CScript outcome" where
  "drop_sigs env [] scriptCode = Done scriptCode"
| "drop_sigs env (vchSig # sigs) scriptCode =
    out_bind (drop_sig env vchSig scriptCode) (\<lambda>scriptCode. drop_sigs env sigs scriptCode)"

text \<open>
  The matching loop over the signatures and keys that are left. It is entered with at most as many signatures as keys and stops
  as soon as there are more, so the last equation is not reached.
\<close>

fun multisig_loop :: "EvalEnv \<Rightarrow> CScript \<Rightarrow> valtype list \<Rightarrow> valtype list \<Rightarrow> bool outcome" where
  "multisig_loop env scriptCode [] keys = Done True"
| "multisig_loop env scriptCode (vchSig # sigs) (vchPubKey # keys) =
    out_bind (check_encodings env vchSig vchPubKey) (\<lambda>_.
      let fOk = CheckSig (checker env) vchSig vchPubKey scriptCode (sigversion env);
          sigs' = (if fOk then sigs else vchSig # sigs)
      in if length sigs' > length keys then Done False else multisig_loop env scriptCode sigs' keys)"
| "multisig_loop env scriptCode (vchSig # sigs) [] = Done False"

text \<open>Removing the arguments; after the first \<open>ikey2\<close> elements come the signatures.\<close>

fun multisig_cleanup :: "EvalEnv \<Rightarrow> bool \<Rightarrow> nat \<Rightarrow> nat \<Rightarrow> stack \<Rightarrow> stack outcome" where
  "multisig_cleanup env fSuccess 0 ikey2 st = Done st"
| "multisig_cleanup env fSuccess (Suc i) ikey2 [] = Fail SCRIPT_ERR_UNKNOWN_ERROR"
| "multisig_cleanup env fSuccess (Suc i) ikey2 (vchTop # st) =
    (if \<not> fSuccess \<and> flag (flags env) SCRIPT_VERIFY_NULLFAIL \<and> ikey2 = 0 \<and> length vchTop \<noteq> 0 then Fail SCRIPT_ERR_SIG_NULLFAIL
     else multisig_cleanup env fSuccess i (if ikey2 > 0 then ikey2 - 1 else ikey2) st)"

text \<open>The stack and the operation count after the instruction.\<close>

definition op_checkmultisig :: "EvalEnv \<Rightarrow> nat \<Rightarrow> CScript \<Rightarrow> nat \<Rightarrow> stack \<Rightarrow> (stack \<times> nat) outcome" where
  "op_checkmultisig env opcode code nOpCount st =
    (if length st < 1 then Fail SCRIPT_ERR_INVALID_STACK_OPERATION
     else out_bind (stack_int env (st ! 0)) (\<lambda>num.
       let nKeys = getint num
       in if nKeys < 0 \<or> nKeys > int MAX_PUBKEYS_PER_MULTISIG then Fail SCRIPT_ERR_PUBKEY_COUNT
          else let nKeysCount = nat nKeys; nOpCount = nOpCount + nKeysCount
               in if nOpCount > MAX_OPS_PER_SCRIPT then Fail SCRIPT_ERR_OP_COUNT
                  else if length st < 2 + nKeysCount then Fail SCRIPT_ERR_INVALID_STACK_OPERATION
                  else out_bind (stack_int env (st ! (1 + nKeysCount))) (\<lambda>num.
                    let nSigs = getint num
                    in if nSigs < 0 \<or> nSigs > nKeys then Fail SCRIPT_ERR_SIG_COUNT
                       else let nSigsCount = nat nSigs; i = 3 + nKeysCount + nSigsCount
                            in if length st < i then Fail SCRIPT_ERR_INVALID_STACK_OPERATION
                               else let keys = take nKeysCount (drop 1 st); sigs = take nSigsCount (drop (2 + nKeysCount) st)
                                    in out_bind (drop_sigs env sigs code) (\<lambda>scriptCode.
                                       out_bind (multisig_loop env scriptCode sigs keys) (\<lambda>fSuccess.
                                       out_bind (multisig_cleanup env fSuccess (i - 1) (nKeysCount + 2) st) (\<lambda>st.
                                       case st of
                                         [] \<Rightarrow> Fail SCRIPT_ERR_INVALID_STACK_OPERATION
                                       | dummy # s \<Rightarrow>
                                           if flag (flags env) SCRIPT_VERIFY_NULLDUMMY \<and> length dummy \<noteq> 0 then Fail SCRIPT_ERR_SIG_NULLDUMMY
                                           else if opcode = OP_CHECKMULTISIGVERIFY then
                                             (if fSuccess then Done (s, nOpCount) else Fail SCRIPT_ERR_CHECKMULTISIGVERIFY)
                                           else Done (bool_vch fSuccess # s, nOpCount)))))))"

section \<open>Splice and conversion\<close>

definition op_cat :: "stack \<Rightarrow> stack outcome" where
  "op_cat st = (case st of
      vch2 # vch1 # s \<Rightarrow>
        if length vch1 + length vch2 > MAX_SCRIPT_ELEMENT_SIZE then Fail SCRIPT_ERR_PUSH_SIZE else Done ((vch1 @ vch2) # s)
    | _ \<Rightarrow> Fail SCRIPT_ERR_INVALID_STACK_OPERATION)"

definition op_split :: "EvalEnv \<Rightarrow> stack \<Rightarrow> stack outcome" where
  "op_split env st = (case st of
      vchTop # vch # s \<Rightarrow> out_bind (stack_int env vchTop) (\<lambda>num.
        let nPosition = getint num
        in if nPosition < 0 \<or> nPosition > int (length vch) then Fail SCRIPT_ERR_INVALID_SPLIT_RANGE
           else if nPosition = 0 then Done (vch # [] # s)
           else if nPosition = int (length vch) then Done ([] # vch # s)
           else Done (drop (nat nPosition) vch # take (nat nPosition) vch # s))
    | _ \<Rightarrow> Fail SCRIPT_ERR_INVALID_STACK_OPERATION)"

definition op_num2bin :: "EvalEnv \<Rightarrow> stack \<Rightarrow> stack outcome" where
  "op_num2bin env st = (case st of
      vchTop # raw # s \<Rightarrow> out_bind (stack_int env vchTop) (\<lambda>num.
        let sz = uint (word_of_int (getint num) :: u64)
        in if sz > int MAX_SCRIPT_ELEMENT_SIZE then Fail SCRIPT_ERR_PUSH_SIZE
           else let rawnum = snd (MinimallyEncode raw)
                in if length rawnum > nat sz then Fail SCRIPT_ERR_IMPOSSIBLE_ENCODING
                   else if length rawnum = nat sz then Done (rawnum # s)
                   else let signbit = (if length rawnum > 0 then last rawnum AND 0x80 else 0x00);
                            body = (if length rawnum > 0 then butlast rawnum @ [last rawnum AND 0x7f] else rawnum)
                        in Done ((body @ replicate (nat sz - 1 - length body) 0x00 @ [signbit]) # s))
    | _ \<Rightarrow> Fail SCRIPT_ERR_INVALID_STACK_OPERATION)"

definition op_bin2num :: "stack \<Rightarrow> stack outcome" where
  "op_bin2num st = (case st of
      vchTop # s \<Rightarrow>
        (let n = snd (MinimallyEncode vchTop)
         in if \<not> IsMinimallyEncoded n nDefaultMaxNumSize then Fail SCRIPT_ERR_INVALID_NUMBER_RANGE else Done (n # s))
    | _ \<Rightarrow> Fail SCRIPT_ERR_INVALID_STACK_OPERATION)"

section \<open>The switch\<close>

definition on_stack :: "(stack \<Rightarrow> stack outcome) \<Rightarrow> EvalState \<Rightarrow> EvalState outcome" where
  "on_stack f st = out_bind (f (es_stack st)) (\<lambda>s. Done (st\<lparr>es_stack := s\<rparr>))"

text \<open>The opcodes of the case labels that stand for more than one opcode.\<close>

definition upgradable_nops :: "nat list" where
  "upgradable_nops = [OP_NOP1, OP_NOP4, OP_NOP5, OP_NOP6, OP_NOP7, OP_NOP8, OP_NOP9, OP_NOP10]"

definition stack_multi_ops :: "nat list" where
  "stack_multi_ops = [OP_2DROP, OP_2DUP, OP_3DUP, OP_2OVER, OP_2ROT, OP_2SWAP]"

definition stack_single_ops :: "nat list" where
  "stack_single_ops = [OP_IFDUP, OP_DEPTH, OP_DROP, OP_DUP, OP_NIP, OP_OVER, OP_ROT, OP_SWAP, OP_TUCK, OP_SIZE]"

definition numeric1_ops :: "nat list" where
  "numeric1_ops = [OP_1ADD, OP_1SUB, OP_NEGATE, OP_ABS, OP_NOT, OP_0NOTEQUAL]"

definition numeric2_ops :: "nat list" where
  "numeric2_ops = [OP_ADD, OP_SUB, OP_DIV, OP_MOD, OP_BOOLAND, OP_BOOLOR, OP_NUMEQUAL, OP_NUMEQUALVERIFY, OP_NUMNOTEQUAL,
     OP_LESSTHAN, OP_GREATERTHAN, OP_LESSTHANOREQUAL, OP_GREATERTHANOREQUAL, OP_MIN, OP_MAX]"

definition hash_ops :: "nat list" where
  "hash_ops = [OP_RIPEMD160, OP_SHA1, OP_SHA256, OP_HASH160, OP_HASH256]"

definition dip0020_ops :: "nat list" where
  "dip0020_ops = [OP_CAT, OP_SPLIT, OP_AND, OP_OR, OP_XOR, OP_DIV, OP_MOD, OP_NUM2BIN, OP_BIN2NUM, OP_CHECKDATASIG,
     OP_CHECKDATASIGVERIFY]"

definition disabled_ops :: "nat list" where
  "disabled_ops = [OP_INVERT, OP_2MUL, OP_2DIV, OP_MUL, OP_LSHIFT, OP_RSHIFT]"

text \<open>\<open>pc\<close> is the rest of the script after the instruction.\<close>

definition eval_opcode :: "EvalEnv \<Rightarrow> bool \<Rightarrow> nat \<Rightarrow> byte list \<Rightarrow> EvalState \<Rightarrow> EvalState outcome" where
  "eval_opcode env fExec opcode pc st =
    (if opcode = OP_1NEGATE \<or> (OP_1 \<le> opcode \<and> opcode \<le> OP_16) then on_stack (op_push_small opcode) st
     else if opcode = OP_NOP then Done st
     else if opcode = OP_CHECKLOCKTIMEVERIFY then on_stack (op_checklocktime env) st
     else if opcode = OP_CHECKSEQUENCEVERIFY then on_stack (op_checksequence env) st
     else if opcode \<in> set upgradable_nops then on_stack (op_nop_upgradable env) st
     else if opcode = OP_IF \<or> opcode = OP_NOTIF then op_if opcode fExec st
     else if opcode = OP_ELSE then op_else st
     else if opcode = OP_ENDIF then op_endif st
     else if opcode = OP_VERIFY then on_stack op_verify st
     else if opcode = OP_RETURN then Fail SCRIPT_ERR_OP_RETURN
     else if opcode = OP_TOALTSTACK then op_toaltstack st
     else if opcode = OP_FROMALTSTACK then op_fromaltstack st
     else if opcode \<in> set stack_multi_ops then on_stack (op_stack_multi opcode) st
     else if opcode = OP_PICK \<or> opcode = OP_ROLL then on_stack (op_pick_roll env opcode) st
     else if opcode \<in> set stack_single_ops then on_stack (op_stack_single opcode) st
     else if opcode = OP_EQUAL \<or> opcode = OP_EQUALVERIFY then on_stack (op_equal opcode) st
     else if opcode = OP_AND \<or> opcode = OP_OR \<or> opcode = OP_XOR then on_stack (op_bitwise opcode) st
     else if opcode \<in> set numeric1_ops then on_stack (op_numeric1 env opcode) st
     else if opcode \<in> set numeric2_ops then on_stack (op_numeric2 env opcode) st
     else if opcode = OP_WITHIN then on_stack (op_within env) st
     else if opcode \<in> set hash_ops then on_stack (op_hashes env opcode) st
     else if opcode = OP_CODESEPARATOR then Done (st\<lparr>es_codehash := pc\<rparr>)
     else if opcode = OP_CHECKSIG \<or> opcode = OP_CHECKSIGVERIFY then on_stack (op_checksig env opcode (es_codehash st)) st
     else if opcode = OP_CHECKDATASIG \<or> opcode = OP_CHECKDATASIGVERIFY then on_stack (op_checkdatasig env opcode) st
     else if opcode = OP_CHECKMULTISIG \<or> opcode = OP_CHECKMULTISIGVERIFY then
       out_bind (op_checkmultisig env opcode (es_codehash st) (es_ops st) (es_stack st))
         (\<lambda>(s, nOpCount). Done (st\<lparr>es_stack := s, es_ops := nOpCount\<rparr>))
     else if opcode = OP_CAT then on_stack op_cat st
     else if opcode = OP_SPLIT then on_stack (op_split env) st
     else if opcode = OP_NUM2BIN then on_stack (op_num2bin env) st
     else if opcode = OP_BIN2NUM then on_stack op_bin2num st
     else Fail SCRIPT_ERR_BAD_OPCODE)"

section \<open>The loop\<close>

text \<open>The checks before the switch.\<close>

definition opcode_guards :: "EvalEnv \<Rightarrow> nat \<Rightarrow> valtype \<Rightarrow> EvalState \<Rightarrow> EvalState outcome" where
  "opcode_guards env opcode vchPushValue st =
    (if length vchPushValue > MAX_SCRIPT_ELEMENT_SIZE then Fail SCRIPT_ERR_PUSH_SIZE
     else let st = (if opcode > OP_16 then st\<lparr>es_ops := es_ops st + 1\<rparr> else st)
          in if opcode > OP_16 \<and> es_ops st > MAX_OPS_PER_SCRIPT then Fail SCRIPT_ERR_OP_COUNT
             else if \<not> flag (flags env) SCRIPT_ENABLE_DIP0020_OPCODES \<and> opcode \<in> set dip0020_ops then Fail SCRIPT_ERR_DISABLED_OPCODE
             else if opcode \<in> set disabled_ops then Fail SCRIPT_ERR_DISABLED_OPCODE
             else if opcode = OP_CODESEPARATOR \<and> sigversion env = BASE \<and> flag (flags env) SCRIPT_VERIFY_CONST_SCRIPTCODE
             then Fail SCRIPT_ERR_OP_CODESEPARATOR
             else Done st)"

definition eval_instr :: "EvalEnv \<Rightarrow> nat \<Rightarrow> valtype \<Rightarrow> byte list \<Rightarrow> EvalState \<Rightarrow> EvalState outcome" where
  "eval_instr env opcode vchPushValue pc st =
    (let fExec = cs_all_true (es_exec st)
     in out_bind (opcode_guards env opcode vchPushValue st) (\<lambda>st.
        out_bind
          (if fExec \<and> opcode \<le> OP_PUSHDATA4 then
             out_bind (if fRequireMinimal env then or_abort (CheckMinimalPush vchPushValue opcode) else Done True) (\<lambda>minimal.
               if \<not> minimal then Fail SCRIPT_ERR_MINIMALDATA
               else Done (st\<lparr>es_stack := vchPushValue # es_stack st\<rparr>))
           else if fExec \<or> (OP_IF \<le> opcode \<and> opcode \<le> OP_ENDIF) then eval_opcode env fExec opcode pc st
           else Done st)
          (\<lambda>st. if length (es_stack st) + length (es_alt st) > MAX_STACK_SIZE then Fail SCRIPT_ERR_STACK_SIZE else Done st)))"

function eval_loop :: "EvalEnv \<Rightarrow> byte list \<Rightarrow> EvalState \<Rightarrow> EvalState outcome" where
  "eval_loop env pc st =
    (if pc = [] then Done st
     else case GetScriptOp pc of
       None \<Rightarrow> Fail SCRIPT_ERR_BAD_OPCODE
     | Some (opcode, vchPushValue, rest) \<Rightarrow>
         (case eval_instr env opcode vchPushValue rest st of
            Abort \<Rightarrow> Abort | Fail e \<Rightarrow> Fail e | Done st \<Rightarrow> eval_loop env rest st))"
  by pat_completeness auto
termination
  by (relation "measure (\<lambda>(_, pc, _). length pc)") (auto dest: GetScriptOp_shorter)

declare eval_loop.simps [simp del]

lemma eval_loop_Nil [simp]: "eval_loop env [] st = Done st"
  by (simp add: eval_loop.simps)

lemma eval_loop_bad: "GetScriptOp pc = None \<Longrightarrow> pc \<noteq> [] \<Longrightarrow> eval_loop env pc st = Fail SCRIPT_ERR_BAD_OPCODE"
  by (simp add: eval_loop.simps)

lemma eval_loop_step:
  "GetScriptOp pc = Some (opcode, d, rest) \<Longrightarrow> eval_loop env pc st = out_bind (eval_instr env opcode d rest st) (eval_loop env rest)"
  by (cases pc) (simp_all add: eval_loop.simps [of env "_ # _"] out_bind_def)

definition EvalScript :: "EvalEnv \<Rightarrow> stack \<Rightarrow> CScript \<Rightarrow> stack outcome" where
  "EvalScript env st script =
    (if length script > MAX_SCRIPT_SIZE then Fail SCRIPT_ERR_SCRIPT_SIZE
     else out_bind
       (eval_loop env script \<lparr>es_stack = st, es_alt = [], es_exec = cs_init, es_codehash = script, es_ops = 0\<rparr>) (\<lambda>st.
       if \<not> cs_empty (es_exec st) then Fail SCRIPT_ERR_UNBALANCED_CONDITIONAL else Done (es_stack st)))"

end
