(* ===== verification/Script_Safety.thy ===== *)
theory Script_Safety
  imports Script_Eval
begin

text \<open>
  What every evaluation of a script guarantees: no assertion of the interpreter fails, and the limits on the number and the size of stack elements and on the
  number of operations hold in every state; and what the signature matching of \<^verbatim>\<open>OP_CHECKMULTISIG\<close> decides.
\<close>

section \<open>Outcomes\<close>

text \<open>The outcome is not an abort, and a result satisfies the predicate.\<close>

definition out_all :: "('a \<Rightarrow> bool) \<Rightarrow> 'a outcome \<Rightarrow> bool" where
  "out_all P m \<longleftrightarrow> (case m of Abort \<Rightarrow> False | Fail e \<Rightarrow> True | Done x \<Rightarrow> P x)"

lemma out_all_simps [simp]: "\<not> out_all P Abort" "out_all P (Fail e)" "out_all P (Done x) \<longleftrightarrow> P x"
  by (simp_all add: out_all_def)

lemma out_bind_simps [simp]: "out_bind Abort f = Abort" "out_bind (Fail e) f = Fail e" "out_bind (Done x) f = f x"
  by (simp_all add: out_bind_def)

lemma out_all_bind [simp]: "out_all P (out_bind m f) \<longleftrightarrow> out_all (\<lambda>x. out_all P (f x)) m"
  by (cases m) simp_all

lemma out_all_mono: "out_all P m \<Longrightarrow> (\<And>x. P x \<Longrightarrow> Q x) \<Longrightarrow> out_all Q m"
  by (cases m) auto

lemma out_bind_Done: "out_bind m f = Done y \<longleftrightarrow> (\<exists>x. m = Done x \<and> f x = Done y)"
  by (cases m) simp_all

lemma out_all_or_abort [simp]: "out_all P (or_abort m) \<longleftrightarrow> (\<exists>x. m = Some x \<and> P x)"
  by (cases m) (simp_all add: or_abort_def)

lemma out_all_fail_if [simp]: "out_all P (fail_if m) \<longleftrightarrow> m \<noteq> None \<or> P ()"
  by (cases m) (simp_all add: fail_if_def)

section \<open>Numbers on the stack\<close>

lemma stack_num_abs:
  assumes "k \<le> 5"
  shows "out_all (\<lambda>n. \<bar>n\<bar> < 128 * 256 ^ (k - 1)) (stack_num env k vch)"
proof (cases "length vch \<le> k")
  case True
  have "magnitude vch < 128 * 256 ^ (k - 1)"
  proof (cases vch rule: rev_cases)
    case Nil
    then show ?thesis by (simp add: magnitude_def)
  next
    case (snoc xs b)
    have "(256 :: nat) ^ length xs \<le> 256 ^ (k - 1)" using True snoc by (intro power_increasing) auto
    then show ?thesis using magnitude_less [of xs b] unfolding snoc by linarith
  qed
  then have "\<bar>sm_value vch\<bar> < 128 * 256 ^ (k - 1)"
    by (simp add: magnitude_def) (metis nat_less_iff abs_ge_zero of_nat_mult of_nat_numeral of_nat_power)
  moreover have "set_vch vch = sm_value vch" using True assms by (intro set_vch_val) simp
  ultimately show ?thesis by (simp add: stack_num_def CScriptNum_def)
next
  case False
  then show ?thesis by (simp add: stack_num_def CScriptNum_def)
qed

lemma stack_num_5: "out_all (\<lambda>n. \<bar>n\<bar> < 2 ^ 39) (stack_num env 5 vch)"
  using stack_num_abs [of 5 env vch] by simp

lemma stack_int_range: "out_all (\<lambda>n. \<bar>n\<bar> < 2 ^ 31) (stack_int env vch)"
  using stack_num_abs [of 4 env vch] by (simp add: nDefaultMaxNumSize_def)

lemma stack_int_all: "(\<And>n. \<bar>n\<bar> < 2 ^ 31 \<Longrightarrow> P n) \<Longrightarrow> out_all P (stack_int env vch)"
  using stack_int_range [of env vch] by (auto elim: out_all_mono)

lemma length_num_serialize_small:
  "\<bar>n\<bar> < 2 ^ 63 \<Longrightarrow> length (num_serialize n) \<le> 520"
  using length_num_serialize [of n] by (simp add: abs_less_iff)

lemma length_MinimallyEncode: "length (snd (MinimallyEncode d)) \<le> length d"
proof -
  have "i < length d \<Longrightarrow> length (MinimallyEncode_loop d l i) \<le> length d" for l i
    by (induction i) auto
  then show ?thesis by (auto simp: MinimallyEncode_def Let_def)
qed

section \<open>Elements within the size limit\<close>

definition small :: "stack \<Rightarrow> bool" where
  "small s \<longleftrightarrow> (\<forall>x \<in> set s. length x \<le> MAX_SCRIPT_ELEMENT_SIZE)"

definition wf_crypto :: "crypto_fns \<Rightarrow> bool" where
  "wf_crypto c \<longleftrightarrow> (\<forall>x. length (RIPEMD160 c x) = 20 \<and> length (SHA1 c x) = 20 \<and> length (SHA256 c x) = 32)"

lemma small_simps [simp]:
  "small []" "small (x # s) \<longleftrightarrow> length x \<le> 520 \<and> small s" "small (s @ t) \<longleftrightarrow> small s \<and> small t"
  by (auto simp: small_def)

lemma small_nth: "small s \<Longrightarrow> i < length s \<Longrightarrow> length (s ! i) \<le> 520"
  by (simp add: small_def)

lemma small_take_drop: "small s \<Longrightarrow> small (take i s)" "small s \<Longrightarrow> small (drop i s)"
  by (auto simp: small_def dest: in_set_takeD in_set_dropD)

lemma bool_vch_small [simp]: "length (bool_vch b) \<le> 520"
  by (simp add: bool_vch_def vchTrue_def vchFalse_def)

text \<open>Each operation on the stack keeps the size limit, and none of them aborts.\<close>

named_theorems op_small \<open>operations keep the size limit\<close>

lemma op_push_small_small [op_small]: "opcode < 256 \<Longrightarrow> small s \<Longrightarrow> out_all small (op_push_small opcode s)"
  by (simp add: op_push_small_def length_num_serialize_small)

lemma op_locktime_small [op_small]:
  "small s \<Longrightarrow> out_all small (op_checklocktime env s)" "small s \<Longrightarrow> out_all small (op_checksequence env s)"
  using stack_num_5 [of env "hd s"]
  by (auto simp: op_checklocktime_def op_checksequence_def split: list.splits elim!: out_all_mono)

lemma op_simple_small [op_small]:
  "small s \<Longrightarrow> out_all small (op_nop_upgradable env s)" "small s \<Longrightarrow> out_all small (op_verify s)"
  "small s \<Longrightarrow> out_all small (op_stack_multi opcode s)" "small s \<Longrightarrow> out_all small (op_equal opcode s)"
  "small s \<Longrightarrow> out_all small (op_bitwise opcode s)" "small s \<Longrightarrow> out_all small (op_cat s)"
  by (auto simp: op_nop_upgradable_def op_verify_def op_stack_multi_def op_equal_def op_bitwise_def op_cat_def Let_def
      split: list.splits)

lemma op_stack_single_small [op_small]:
  "length s < 2 ^ 32 \<Longrightarrow> small s \<Longrightarrow> out_all small (op_stack_single opcode s)"
  by (auto simp: op_stack_single_def length_num_serialize_small split: list.splits)

lemma op_pick_roll_small [op_small]: "small s \<Longrightarrow> out_all small (op_pick_roll env opcode s)"
  by (auto simp: op_pick_roll_def Let_def nat_less_iff small_nth [of "_ # _"] small_take_drop [of "_ # _"] small_take_drop
      intro!: stack_int_all split: list.splits)

lemma num_small:
  "\<bar>n\<bar> < 2 ^ 31 \<Longrightarrow> num_add n 1 = Some (n + 1)" "\<bar>n\<bar> < 2 ^ 31 \<Longrightarrow> num_sub n 1 = Some (n - 1)"
  "\<bar>n\<bar> < 2 ^ 31 \<Longrightarrow> num_neg n = Some (- n)"
  by (auto simp: num_add_def num_sub_def num_neg_def)

lemma numeric1_result_range:
  "opcode \<in> set numeric1_ops \<Longrightarrow> \<bar>n\<bar> < 2 ^ 31 \<Longrightarrow> out_all (\<lambda>r. \<bar>r\<bar> < 2 ^ 63) (numeric1_result opcode n)"
  unfolding numeric1_ops_def by (auto simp: numeric1_result_def num_small)

lemma abs_sgn_mult_le: "0 \<le> y \<Longrightarrow> y \<le> z \<Longrightarrow> \<bar>sgn (x :: int) * y\<bar> \<le> z"
  by (cases x "0 :: int" rule: linorder_cases) auto

lemma abs_div_le: "\<bar>a :: int\<bar> div \<bar>b\<bar> \<le> \<bar>a\<bar>"
  using div_le_dividend [of "nat \<bar>a\<bar>" "nat \<bar>b\<bar>"]
  by (metis abs_ge_zero int_nat_eq of_nat_le_iff zdiv_int)

lemma sdiv_abs: "\<bar>(a :: int) sdiv b\<bar> \<le> \<bar>a\<bar>"
  using abs_sgn_mult_le [of "\<bar>a\<bar> div \<bar>b\<bar>" "\<bar>a\<bar>" "a * b"] abs_div_le [of a b]
  by (cases "b = 0") (simp_all add: signed_divide_int_def sgn_mult pos_imp_zdiv_nonneg_iff)

lemma smod_abs: "\<bar>(a :: int) smod b\<bar> \<le> \<bar>a\<bar>"
  using abs_sgn_mult_le [of "\<bar>a\<bar> mod \<bar>b\<bar>" "\<bar>a\<bar>" a]
  by (cases "b = 0") (simp_all add: signed_modulo_int_def zmod_le_nonneg_dividend)

lemma numeric2_result_range:
  assumes "opcode \<in> set numeric2_ops" "\<bar>a\<bar> < 2 ^ 31" "\<bar>b\<bar> < 2 ^ 31"
  shows "out_all (\<lambda>r. \<bar>r\<bar> < 2 ^ 63) (numeric2_result opcode a b)"
proof -
  have "\<bar>a sdiv b\<bar> < 2 ^ 63" "\<bar>a smod b\<bar> < 2 ^ 63" "\<bar>a + b\<bar> < 2 ^ 63" "\<bar>a - b\<bar> < 2 ^ 63" "\<bar>a\<bar> < 2 ^ 63" "\<bar>b\<bar> < 2 ^ 63"
    using sdiv_abs [of a b] smod_abs [of a b] assms(2,3) by auto
  moreover have "\<bar>of_bool P :: int\<bar> < 2 ^ 63" for P by (cases P) auto
  ultimately show ?thesis using assms(1) unfolding numeric2_ops_def numeric2_result_def by simp blast
qed

lemma op_numeric1_small [op_small]:
  "opcode \<in> set numeric1_ops \<Longrightarrow> small s \<Longrightarrow> out_all small (op_numeric1 env opcode s)"
  by (auto simp: op_numeric1_def length_num_serialize_small intro!: stack_int_all split: list.splits
      elim!: out_all_mono [OF numeric1_result_range])

lemma op_numeric2_small [op_small]:
  "opcode \<in> set numeric2_ops \<Longrightarrow> small s \<Longrightarrow> out_all small (op_numeric2 env opcode s)"
  by (auto simp: op_numeric2_def length_num_serialize_small intro!: stack_int_all split: list.splits
      elim!: out_all_mono [OF numeric2_result_range])

lemma op_within_small [op_small]: "small s \<Longrightarrow> out_all small (op_within env s)"
  by (auto simp: op_within_def intro!: stack_int_all split: list.splits)

lemma op_hash_small [op_small]: "wf_crypto (crypto env) \<Longrightarrow> small s \<Longrightarrow> out_all small (op_hashes env opcode s)"
  by (auto simp: op_hashes_def wf_crypto_def CHash160_def CHash256_def split: list.splits)

lemma check_encodings_Abort: "check_encodings env vchSig vchPubKey \<noteq> Abort"
  by (auto simp: check_encodings_def fail_if_def split: option.splits)

lemma drop_sig_Abort: "drop_sig env vchSig code \<noteq> Abort"
  by (simp add: drop_sig_def Let_def split: prod.splits)

lemma out_all_True: "out_all (\<lambda>_. True) m \<longleftrightarrow> m \<noteq> Abort"
  by (cases m) simp_all

lemma op_checksig_small [op_small]: "small s \<Longrightarrow> out_all small (op_checksig env opcode code s)"
  using drop_sig_Abort [of env] check_encodings_Abort [of env]
  by (auto simp: op_checksig_def EvalChecksig_def Let_def out_all_True [symmetric] split: list.splits
      elim!: out_all_mono)

lemma op_checkdatasig_small [op_small]: "small s \<Longrightarrow> out_all small (op_checkdatasig env opcode s)"
  using check_encodings_Abort [of env]
  by (auto simp: op_checkdatasig_def Let_def out_all_True [symmetric] split: list.splits elim!: out_all_mono)

lemma drop_sigs_Abort: "drop_sigs env sigs code \<noteq> Abort"
proof (induction sigs arbitrary: code)
  case (Cons vchSig sigs)
  then show ?case using drop_sig_Abort [of env vchSig code] by (cases "drop_sig env vchSig code") simp_all
qed simp

lemma multisig_loop_Abort: "multisig_loop env code sigs keys \<noteq> Abort"
proof (induction env code sigs keys rule: multisig_loop.induct)
  case (2 env code vchSig sigs vchPubKey keys)
  then show ?case
    using check_encodings_Abort [of env vchSig vchPubKey] by (cases "check_encodings env vchSig vchPubKey") (simp_all add: Let_def)
qed simp_all

lemma multisig_cleanup_small: "small s \<Longrightarrow> out_all small (multisig_cleanup env b i ikey2 s)"
  by (induction env b i ikey2 s rule: multisig_cleanup.induct) auto

lemma multisig_all:
  "(\<And>c. P c) \<Longrightarrow> out_all P (drop_sigs env sigs code)" "(\<And>b. Q b) \<Longrightarrow> out_all Q (multisig_loop env code sigs keys)"
  using drop_sigs_Abort [of env sigs code] multisig_loop_Abort [of env code sigs keys]
  by (cases "drop_sigs env sigs code", simp_all) (cases "multisig_loop env code sigs keys", simp_all)

lemma op_checkmultisig_small:
  assumes "small s"
  shows "out_all (\<lambda>(s', n). small s' \<and> n \<le> MAX_OPS_PER_SCRIPT) (op_checkmultisig env opcode code ops s)"
  unfolding op_checkmultisig_def Let_def
  by (auto split: list.splits intro!: stack_int_all multisig_all out_all_mono [OF multisig_cleanup_small [OF assms]])

lemma op_splice_small [op_small]:
  "small s \<Longrightarrow> out_all small (op_split env s)" "small s \<Longrightarrow> out_all small (op_bin2num s)"
  using le_trans [OF length_MinimallyEncode]
  by (auto simp: op_split_def op_bin2num_def Let_def intro!: stack_int_all split: list.splits)

lemma nat_uint_le: "\<not> 520 < uint (w :: u64) \<Longrightarrow> nat (uint w) \<le> 520"
  by linarith

lemma num2bin_pad: "xs \<noteq> [] \<Longrightarrow> \<not> n < length xs \<Longrightarrow> n \<le> 520 \<Longrightarrow> length xs - Suc 0 + n - Suc (length xs) \<le> 518"
  by (cases xs) auto

lemma op_num2bin_small [op_small]: "small s \<Longrightarrow> out_all small (op_num2bin env s)"
  unfolding op_num2bin_def Let_def
  by (auto simp: num2bin_pad simp del: nat_uint_eq dest!: nat_uint_le intro!: stack_int_all split: list.splits)

section \<open>The limits hold in every state\<close>

definition es_ok :: "EvalState \<Rightarrow> bool" where
  "es_ok st \<longleftrightarrow> small (es_stack st) \<and> small (es_alt st) \<and> length (es_stack st) + length (es_alt st) \<le> MAX_STACK_SIZE \<and>
     es_ops st \<le> MAX_OPS_PER_SCRIPT"

text \<open>Between an instruction and the check after it, the stacks may be longer by a few elements.\<close>

definition es_mid :: "EvalState \<Rightarrow> bool" where
  "es_mid st \<longleftrightarrow> small (es_stack st) \<and> small (es_alt st) \<and> es_ops st \<le> MAX_OPS_PER_SCRIPT"

lemma on_stack_mid:
  "es_mid st \<Longrightarrow> out_all small (f (es_stack st)) \<Longrightarrow> out_all es_mid (on_stack f st)"
  by (auto simp: on_stack_def es_mid_def elim!: out_all_mono)

lemma cs_ops_total: "\<not> cs_empty e \<Longrightarrow> \<exists>e'. cs_toggle_top e = Some e'" "\<not> cs_empty e \<Longrightarrow> \<exists>e'. cs_pop_back e = Some e'"
  by (auto simp: cs_empty_def cs_toggle_top_def cs_pop_back_def Let_def word_neq_0_conv)

lemma op_control_mid:
  "es_mid st \<Longrightarrow> out_all es_mid (op_if opcode fExec st)" "es_mid st \<Longrightarrow> out_all es_mid (op_else st)"
  "es_mid st \<Longrightarrow> out_all es_mid (op_endif st)" "es_mid st \<Longrightarrow> out_all es_mid (op_toaltstack st)"
  "es_mid st \<Longrightarrow> out_all es_mid (op_fromaltstack st)"
  using cs_ops_total [of "es_exec st"]
  by (auto simp: op_if_def op_else_def op_endif_def op_toaltstack_def op_fromaltstack_def es_mid_def Let_def split: list.splits)

lemma eval_opcode_mid:
  assumes "wf_crypto (crypto env)" "es_mid st" "length (es_stack st) < 2 ^ 32" "opcode < 256"
  shows "out_all es_mid (eval_opcode env fExec opcode pc st)"
proof -
  have s: "small (es_stack st)" using assms(2) by (simp add: es_mid_def)
  have multi: "out_all (\<lambda>x. out_all es_mid (case x of (s, n) \<Rightarrow> Done (st\<lparr>es_stack := s, es_ops := n\<rparr>)))
      (op_checkmultisig env opcode (es_codehash st) (es_ops st) (es_stack st))"
    using op_checkmultisig_small [OF s, of env opcode "es_codehash st" "es_ops st"] assms(2)
    by (auto simp: es_mid_def elim!: out_all_mono)
  have mid: "es_mid (st\<lparr>es_codehash := pc\<rparr>)" using assms(2) by (simp add: es_mid_def)
  show ?thesis
    unfolding eval_opcode_def
    using assms multi mid s
    by (simp add: on_stack_mid op_small op_control_mid)
qed

lemma opcode_guards_mid:
  "es_ok st \<Longrightarrow> out_all (\<lambda>st'. es_mid st' \<and> es_stack st' = es_stack st \<and> es_alt st' = es_alt st \<and> length vch \<le> MAX_SCRIPT_ELEMENT_SIZE)
    (opcode_guards env opcode vch st)"
  by (auto simp: opcode_guards_def es_ok_def es_mid_def Let_def)

lemma eval_instr_ok:
  assumes "wf_crypto (crypto env)" "es_ok st" "opcode < 256"
  shows "out_all es_ok (eval_instr env opcode vch pc st)"
proof -
  have len: "length (es_stack st) < 2 ^ 32" using assms(2) by (simp add: es_ok_def)
  have push: "out_all es_mid (out_bind (if fRequireMinimal env then or_abort (CheckMinimalPush vch opcode) else Done True) (\<lambda>minimal.
      if \<not> minimal then Fail SCRIPT_ERR_MINIMALDATA else Done (st'\<lparr>es_stack := vch # es_stack st'\<rparr>)))"
    if "es_mid st'" "length vch \<le> 520" "opcode \<le> OP_PUSHDATA4" for st'
    using that by (auto simp: es_mid_def CheckMinimalPush_def)
  show ?thesis
    unfolding eval_instr_def Let_def out_all_bind [of es_ok]
  proof (rule out_all_mono [OF opcode_guards_mid [OF assms(2)]], elim conjE)
    fix st'
    assume st': "es_mid st'" "es_stack st' = es_stack st" "es_alt st' = es_alt st" "length vch \<le> MAX_SCRIPT_ELEMENT_SIZE"
    let ?body = "if cs_all_true (es_exec st) \<and> opcode \<le> OP_PUSHDATA4 then
             out_bind (if fRequireMinimal env then or_abort (CheckMinimalPush vch opcode) else Done True) (\<lambda>minimal.
               if \<not> minimal then Fail SCRIPT_ERR_MINIMALDATA else Done (st'\<lparr>es_stack := vch # es_stack st'\<rparr>))
           else if cs_all_true (es_exec st) \<or> (OP_IF \<le> opcode \<and> opcode \<le> OP_ENDIF)
           then eval_opcode env (cs_all_true (es_exec st)) opcode pc st' else Done st'"
    have "out_all es_mid ?body"
      using st' len push eval_opcode_mid [OF assms(1) st'(1) _ assms(3)] by simp
    then show "out_all (\<lambda>st. out_all es_ok (if length (es_stack st) + length (es_alt st) > MAX_STACK_SIZE
        then Fail SCRIPT_ERR_STACK_SIZE else Done st)) ?body"
      by (rule out_all_mono) (simp add: es_mid_def es_ok_def)
  qed
qed

lemma GetScriptOp_opcode: "GetScriptOp pc = Some (opcode, d, rest) \<Longrightarrow> opcode < 256"
  by (auto simp: GetScriptOp_def Let_def split: list.splits if_splits option.splits)

lemma eval_loop_ok:
  assumes "wf_crypto (crypto env)"
  shows "es_ok st \<Longrightarrow> out_all es_ok (eval_loop env pc st)"
proof (induction pc arbitrary: st rule: script_induct)
  case (stop pc)
  then show ?case by (cases "pc = []") (simp_all add: eval_loop_bad)
next
  case (step pc opcode d rest)
  have "out_all es_ok (eval_instr env opcode d rest st)"
    using eval_instr_ok [OF assms step.prems GetScriptOp_opcode [OF step(1)]] .
  then show ?case using step(2) by (simp add: eval_loop_step [OF step(1)]) (auto elim: out_all_mono)
qed

lemma EvalScript_all:
  assumes "wf_crypto (crypto env)" "small st" "length st \<le> MAX_STACK_SIZE"
  shows "out_all (\<lambda>st'. small st' \<and> length st' \<le> MAX_STACK_SIZE) (EvalScript env st script)"
proof -
  have ok: "es_ok \<lparr>es_stack = st, es_alt = [], es_exec = cs_init, es_codehash = script, es_ops = 0\<rparr>"
    using assms(2,3) by (simp add: es_ok_def)
  then show ?thesis
    unfolding EvalScript_def using eval_loop_ok [OF assms(1) ok, of script]
    by (auto simp: es_ok_def elim!: out_all_mono)
qed

text \<open>
  C19. Evaluating a script on a stack within the limits always ends with a result or an error code and never in a failed assertion, and the
  resulting stack is again within the limits: at most 1000 elements of at most 520 bytes each.
\<close>

theorem EvalScript_limits:
  assumes "wf_crypto (crypto env)" "small st" "length st \<le> MAX_STACK_SIZE"
  shows "EvalScript env st script \<noteq> Abort \<and>
    (\<forall>st'. EvalScript env st script = Done st' \<longrightarrow> small st' \<and> length st' \<le> MAX_STACK_SIZE)"
  using EvalScript_all [OF assms, of script] by (cases "EvalScript env st script") simp_all

definition demo_crypto :: crypto_fns where
  "demo_crypto = \<lparr>RIPEMD160 = \<lambda>x. take 20 (x @ replicate 20 0), SHA1 = \<lambda>x. take 20 (x @ replicate 20 0),
     SHA256 = \<lambda>x. take 32 (x @ replicate 32 0), CheckLowS = \<lambda>_. True, PubKeyVerify = \<lambda>_ _ _. False\<rparr>"

definition demo_env :: EvalEnv where
  "demo_env = \<lparr>flags = SCRIPT_VERIFY_MINIMALDATA, checker = BaseSignatureChecker, sigversion = BASE, crypto = demo_crypto\<rparr>"

lemma wf_demo_crypto: "wf_crypto demo_crypto"
  by (auto simp: wf_crypto_def demo_crypto_def min_def)

theorem EvalScript_limits_witness:
  "wf_crypto (crypto demo_env) \<and> small [[1, 2]] \<and> length [[1, 2 :: byte]] \<le> MAX_STACK_SIZE \<and>
   EvalScript demo_env [[1, 2]] [0x76, 0x93] \<noteq> Abort"
  using EvalScript_limits [of demo_env "[[1, 2]]" "[0x76, 0x93]"] wf_demo_crypto by (simp add: demo_env_def)

section \<open>Multiple signatures\<close>

text \<open>
  The loop takes the keys in order and advances over the signatures as they match. This decides whether the signatures match some of the keys in order.
\<close>

definition sigs_match :: "EvalEnv \<Rightarrow> CScript \<Rightarrow> valtype list \<Rightarrow> valtype list \<Rightarrow> bool" where
  "sigs_match env code sigs keys \<longleftrightarrow>
    (\<exists>ks. subseq ks keys \<and> list_all2 (\<lambda>sig key. CheckSig (checker env) sig key code (sigversion env)) sigs ks)"

lemma sigs_match_Nil [simp]: "sigs_match env code [] keys"
  by (simp add: sigs_match_def)

lemma sigs_match_length: "sigs_match env code sigs keys \<Longrightarrow> length sigs \<le> length keys"
  unfolding sigs_match_def by (metis list_all2_lengthD list_emb_length)

lemma sigs_match_Cons:
  "sigs_match env code (sig # sigs) (key # keys) \<longleftrightarrow>
    (if CheckSig (checker env) sig key code (sigversion env) then sigs_match env code sigs keys
     else sigs_match env code (sig # sigs) keys)"
proof (cases "CheckSig (checker env) sig key code (sigversion env)")
  case True
  have "sigs_match env code (sig # sigs) (key # keys) \<Longrightarrow> sigs_match env code sigs keys"
    unfolding sigs_match_def list_all2_Cons1 by (metis subseq_Cons2_iff subseq_Cons')
  moreover have "sigs_match env code sigs keys \<Longrightarrow> sigs_match env code (sig # sigs) (key # keys)"
    using True by (auto simp: sigs_match_def list_all2_Cons1)
  ultimately show ?thesis using True by auto
next
  case False
  then have "sigs_match env code (sig # sigs) (key # keys) \<longleftrightarrow> sigs_match env code (sig # sigs) keys"
    by (auto simp: sigs_match_def list_all2_Cons1 subseq_Cons2_iff split: if_splits)
  then show ?thesis using False by simp
qed

lemma multisig_loop_match:
  assumes "\<And>sig key. sig \<in> set sigs \<Longrightarrow> key \<in> set keys \<Longrightarrow> check_encodings env sig key = Done ()" "length sigs \<le> length keys"
  shows "multisig_loop env code sigs keys = Done (sigs_match env code sigs keys)"
  using assms
proof (induction env code sigs keys rule: multisig_loop.induct)
  case (2 env code sig sigs key keys)
  have enc: "check_encodings env sig key = Done ()" using "2.prems"(1) by simp
  show ?case
  proof (cases "CheckSig (checker env) sig key code (sigversion env)")
    case True
    then show ?thesis using 2 enc by (simp add: sigs_match_Cons)
  next
    case False
    show ?thesis
    proof (cases "length (sig # sigs) > length keys")
      case True
      then have "\<not> sigs_match env code (sig # sigs) keys" using sigs_match_length by fastforce
      then show ?thesis using True False enc by (simp add: sigs_match_Cons)
    next
      case le: False
      then show ?thesis using False 2 enc by (simp add: sigs_match_Cons)
    qed
  qed
qed simp_all

lemma multisig_cleanup_drop:
  "fSuccess \<or> \<not> flag (flags env) SCRIPT_VERIFY_NULLFAIL \<Longrightarrow> i \<le> length st \<Longrightarrow>
    multisig_cleanup env fSuccess i ikey2 st = Done (drop i st)"
  by (induction env fSuccess i ikey2 st rule: multisig_cleanup.induct) auto

lemma num_serialize_digit: "0 < n \<Longrightarrow> n < 128 \<Longrightarrow> num_serialize (int n) = [of_nat n]"
proof -
  assume n: "0 < n" "n < 128"
  have w: "word_of_int (int n) = (of_nat n :: u64)" by simp
  have u: "unat (of_nat n :: u64) = n" using n by (simp add: unat_of_nat)
  then have "drop_bit 8 (of_nat n :: u64) = 0" "(of_nat n :: u64) \<noteq> 0"
    using n by (simp_all add: word_unat_eq_iff unat_drop_bit_nat)
  moreover have "(ucast (of_nat n :: u64) :: byte) = of_nat n" using n u by (simp add: word_unat_eq_iff unsigned_ucast_eq take_bit_nat_eq_self unat_of_nat)
  ultimately have "serialize_loop (word_of_int (int n)) = [of_nat n]"
    by (simp only: w) (simp add: serialize_loop.simps [of "of_nat n"] serialize_loop.simps [of 0])
  moreover have "(of_nat n :: byte) AND 0x80 = 0" using n by (simp add: and_80_eq_0 unat_byte_of_nat)
  ultimately show ?thesis using n by (simp add: num_serialize_def Let_def)
qed

lemma stack_int_digit: "n < 128 \<Longrightarrow> stack_int env (num_serialize (int n)) = Done (int n)"
proof -
  assume n: "n < 128"
  then have b: "(of_nat n :: byte) AND 0x80 = 0" "unat (of_nat n :: byte) = n"
    by (simp_all add: and_80_eq_0 unat_byte_of_nat)
  show ?thesis
  proof (cases "n = 0")
    case True
    then show ?thesis by (simp add: stack_num_def CScriptNum_def num_serialize_def IsMinimallyEncoded_def set_vch_def)
  next
    case False
    then have ser: "num_serialize (int n) = [of_nat n]" using n by (simp add: num_serialize_digit)
    have "sm_value [of_nat n] = int n" using b n by (simp add: sm_value_def)
    then have "set_vch [of_nat n] = int n" by (simp add: set_vch_val)
    moreover have "IsMinimallyEncoded [of_nat n] 4" using b n False by (simp add: IsMinimallyEncoded_def and_7f_eq_0)
    ultimately show ?thesis by (simp add: stack_num_def CScriptNum_def ser nDefaultMaxNumSize_def)
  qed
qed

text \<open>
  C20. \<^verbatim>\<open>OP_CHECKMULTISIG\<close> with n keys and m signatures on the stack, all well encoded, pushes true exactly when the signatures match some m of the keys in the same order, takes its
  arguments and the extra element below them from the stack, and counts n operations.
\<close>

theorem op_checkmultisig_decides:
  assumes "length keys \<le> MAX_PUBKEYS_PER_MULTISIG" "length sigs \<le> length keys" "ops + length keys \<le> MAX_OPS_PER_SCRIPT"
    and "\<forall>sig \<in> set sigs. \<forall>key \<in> set keys. check_encodings env sig key = Done ()"
    and "drop_sigs env sigs code = Done code'" "\<not> flag (flags env) SCRIPT_VERIFY_NULLFAIL"
    and "flag (flags env) SCRIPT_VERIFY_NULLDUMMY \<longrightarrow> dummy = []"
  shows "op_checkmultisig env OP_CHECKMULTISIG code ops
      (num_serialize (int (length keys)) # keys @ num_serialize (int (length sigs)) # sigs @ dummy # st)
    = Done (bool_vch (sigs_match env code' sigs keys) # st, ops + length keys)"
proof -
  define n m where "n = length keys" and "m = length sigs"
  define s where "s = num_serialize (int n) # keys @ num_serialize (int m) # sigs @ dummy # st"
  have nm: "n \<le> 20" "m \<le> n" "ops + n \<le> 201" "length s = 4 + n + m + length st - 1"
    using assms(1-3) by (simp_all add: n_def m_def s_def)
  have el: "s ! 0 = num_serialize (int n)" "s ! (1 + n) = num_serialize (int m)" "take n (drop 1 s) = keys"
    "take m (drop (2 + n) s) = sigs" "drop (2 + n + m) s = dummy # st"
    by (simp_all add: s_def n_def m_def nth_append)
  have num: "stack_int env (num_serialize (int n)) = Done (int n)" "stack_int env (num_serialize (int m)) = Done (int m)"
    using nm by (simp_all add: stack_int_digit)
  have get: "getint (int n) = int n" "getint (int m) = int m" using nm by (simp_all add: getint_def)
  have loop: "multisig_loop env code' sigs keys = Done (sigs_match env code' sigs keys)"
    using assms(2,4) by (intro multisig_loop_match) auto
  have clean: "multisig_cleanup env b (3 + n + m - 1) (n + 2) s = Done (dummy # st)" for b
    using multisig_cleanup_drop [of b env "2 + n + m" s "n + 2"] assms(6) nm el(5) by simp
  show ?thesis
    unfolding op_checkmultisig_def s_def [symmetric] n_def [symmetric] m_def [symmetric]
    using nm assms(5,7) by (simp add: el [simplified] num get loop clean [simplified] Let_def)
qed

definition same_env :: EvalEnv where
  "same_env = \<lparr>flags = SCRIPT_VERIFY_NONE, checker = \<lparr>CheckSig = \<lambda>sig key _ _. sig = key, CheckLockTime = \<lambda>_. True, CheckSequence = \<lambda>_. True\<rparr>,
     sigversion = BASE, crypto = demo_crypto\<rparr>"

lemma FindAndDelete_Nil: "FindAndDelete [] b = (0, [])"
  by (simp add: FindAndDelete_def FindAndDelete_loop.simps skip_matches.simps)

lemma check_encodings_same: "check_encodings same_env sig key = Done ()"
  by (simp add: check_encodings_def same_env_def CheckSignatureEncoding_def CheckPubKeyEncoding_def flag_def fail_if_def)

lemma drop_sigs_same: "drop_sigs same_env sigs [] = Done []"
  by (induction sigs) (simp_all add: drop_sig_def FindAndDelete_Nil same_env_def)

theorem op_checkmultisig_decides_witness:
  "op_checkmultisig same_env OP_CHECKMULTISIG [] 1
     (num_serialize 3 # [[1], [2], [3]] @ num_serialize 2 # [[1], [3]] @ [] # [[9]])
    = Done (bool_vch True # [[9]], 4)"
proof -
  have "sigs_match same_env [] [[1], [3]] [[1], [2], [3]]"
    by (simp add: sigs_match_Cons same_env_def)
  moreover have "\<not> flag (flags same_env) SCRIPT_VERIFY_NULLFAIL" by (simp add: same_env_def flag_def)
  ultimately show ?thesis
    using op_checkmultisig_decides [of "[[1], [2], [3]]" "[[1], [3]]" 1 same_env "[]" "[]" "[]" "[[9]]"]
    by (simp add: check_encodings_same drop_sigs_same del: drop_sigs.simps)
qed

end
