(* ===== verification/Sighash.thy ===== *)
theory Sighash
  imports Script_Safety
begin

text \<open>
  The hash that a signature of an input signs, and the checker that compares signatures and lock times with a transaction
  (\<^verbatim>\<open>CTransactionSignatureSerializer\<close>, \<^verbatim>\<open>SignatureHash\<close> and \<^verbatim>\<open>GenericTransactionSignatureChecker\<close> of \<^verbatim>\<open>src/src/script/interpreter.cpp\<close>, \<^verbatim>\<open>CPubKey\<close>
  of \<^verbatim>\<open>src/src/pubkey.h\<close>). The older routine that works on a modified copy of the transaction, kept in \<^verbatim>\<open>src/src/test/sighash_tests.cpp\<close>, is the reference
  that the in-place serializer is compared with. A hash type is the 32-bit word of the \<^verbatim>\<open>int\<close>.
\<close>

unbundle bit_operations_syntax

section \<open>The serializer\<close>

text \<open>The iterator after \<open>GetScriptOp\<close> has failed: it has passed the opcode and, if they are there, the bytes of the size.\<close>

definition GetScriptOp_stop :: "byte list \<Rightarrow> byte list" where
  "GetScriptOp_stop pc = (case pc of
     [] \<Rightarrow> []
   | b # pc \<Rightarrow>
       (let opcode = unat b;
            k = (if opcode = OP_PUSHDATA1 then 1 else if opcode = OP_PUSHDATA2 then 2 else if opcode = OP_PUSHDATA4 then 4 else 0)
        in if length pc < k then pc else drop k pc))"

function count_code_separators :: "byte list \<Rightarrow> nat \<Rightarrow> nat" where
  "count_code_separators it nCodeSeparators = (case GetScriptOp it of
      None \<Rightarrow> nCodeSeparators
    | Some (opcode, _, rest) \<Rightarrow>
        count_code_separators rest (if opcode = OP_CODESEPARATOR then nCodeSeparators + 1 else nCodeSeparators))"
  by pat_completeness auto
termination by (relation "measure (\<lambda>(it, _). length it)") (auto dest: GetScriptOp_shorter)

text \<open>The second loop: what has been written, \<open>itBegin\<close> and \<open>it\<close>.\<close>

function write_script_code :: "byte list \<Rightarrow> byte list \<Rightarrow> byte list \<Rightarrow> byte list \<times> byte list \<times> byte list" where
  "write_script_code s itBegin it = (case GetScriptOp it of
      None \<Rightarrow> (s, itBegin, GetScriptOp_stop it)
    | Some (opcode, _, rest) \<Rightarrow>
        if opcode = OP_CODESEPARATOR then write_script_code (s @ take (length itBegin - length rest - 1) itBegin) rest rest
        else write_script_code s itBegin rest)"
  by pat_completeness auto
termination by (relation "measure (\<lambda>(_, _, it). length it)") (auto dest: GetScriptOp_shorter)

declare count_code_separators.simps [simp del] write_script_code.simps [simp del]

definition SerializeScriptCode :: "CScript \<Rightarrow> byte list" where
  "SerializeScriptCode scriptCode =
    (let nCodeSeparators = count_code_separators scriptCode 0;
         (s, itBegin, it) = write_script_code [] scriptCode scriptCode
     in WriteCompactSize (of_nat (length scriptCode - nCodeSeparators)) @ s @
        (if itBegin \<noteq> [] then take (length itBegin - length it) itBegin else []))"

record SigSerializer =
  txTo :: CTransaction
  scriptCode :: CScript
  nIn :: nat
  fAnyoneCanPay :: bool
  fHashSingle :: bool
  fHashNone :: bool

definition mk_serializer :: "CTransaction \<Rightarrow> CScript \<Rightarrow> nat \<Rightarrow> u32 \<Rightarrow> SigSerializer" where
  "mk_serializer tx code n nHashType = \<lparr>txTo = tx, scriptCode = code, nIn = n,
     fAnyoneCanPay = (nHashType AND of_nat SIGHASH_ANYONECANPAY \<noteq> 0),
     fHashSingle = (nHashType AND 0x1f = of_nat SIGHASH_SINGLE), fHashNone = (nHashType AND 0x1f = of_nat SIGHASH_NONE)\<rparr>"

definition SerializeInput :: "SigSerializer \<Rightarrow> nat \<Rightarrow> byte list" where
  "SerializeInput z nInput =
    (let nInput = (if fAnyoneCanPay z then nIn z else nInput); txin = vin (txTo z) ! nInput
     in ser_outpoint (prevout txin) @
        (if nInput \<noteq> nIn z then ser_bytes [] else SerializeScriptCode (scriptCode z)) @
        ser_writedata32 (if nInput \<noteq> nIn z \<and> (fHashSingle z \<or> fHashNone z) then 0 else nSequence txin))"

definition SerializeOutput :: "SigSerializer \<Rightarrow> nat \<Rightarrow> byte list" where
  "SerializeOutput z nOutput =
    (if fHashSingle z \<and> nOutput \<noteq> nIn z then ser_txout txout_null else ser_txout (vout (txTo z) ! nOutput))"

definition sig_Serialize :: "SigSerializer \<Rightarrow> byte list" where
  "sig_Serialize z =
    (let tx = txTo z;
         nInputs = (if fAnyoneCanPay z then 1 else length (vin tx));
         nOutputs = (if fHashNone z then 0 else if fHashSingle z then nIn z + 1 else length (vout tx))
     in ser_writedata32 (n32bitVersion tx) @
        WriteCompactSize (of_nat nInputs) @ concat (map (SerializeInput z) [0..<nInputs]) @
        WriteCompactSize (of_nat nOutputs) @ concat (map (SerializeOutput z) [0..<nOutputs]) @
        ser_writedata32 (nLockTime tx) @
        (if tx_nVersion tx = 3 \<and> nType tx \<noteq> TRANSACTION_NORMAL then ser_bytes (vExtraPayload tx) else []))"

definition uint256_ONE :: uint256 where
  "uint256_ONE = 1 # replicate 31 0"

text \<open>\<open>None\<close> is the failed assertion that the input exists.\<close>

definition SignatureHash :: "crypto_fns \<Rightarrow> CScript \<Rightarrow> CTransaction \<Rightarrow> nat \<Rightarrow> u32 \<Rightarrow> uint256 option" where
  "SignatureHash c code tx n nHashType =
    (if \<not> n < length (vin tx) then None
     else if nHashType AND 0x1f = of_nat SIGHASH_SINGLE \<and> n \<ge> length (vout tx) then Some uint256_ONE
     else Some (CHash256 c (sig_Serialize (mk_serializer tx code n nHashType) @ ser_writedata32 nHashType)))"

section \<open>The reference on a copy of the transaction\<close>

definition blank_scripts :: "CScript \<Rightarrow> nat \<Rightarrow> CTxIn list \<Rightarrow> CTxIn list" where
  "blank_scripts code n ins = (map (\<lambda>i. i\<lparr>scriptSig := []\<rparr>) ins)[n := (ins ! n)\<lparr>scriptSig := code\<rparr>]"

definition free_sequences :: "nat \<Rightarrow> CTxIn list \<Rightarrow> CTxIn list" where
  "free_sequences n ins = map (\<lambda>i. if i \<noteq> n then (ins ! i)\<lparr>nSequence := 0\<rparr> else ins ! i) [0..<length ins]"

definition single_outputs :: "nat \<Rightarrow> CTxOut list \<Rightarrow> CTxOut list" where
  "single_outputs n outs = map (\<lambda>_. txout_null) [0..<n] @ [outs ! n]"

definition sighash_tx :: "CScript \<Rightarrow> CTransaction \<Rightarrow> nat \<Rightarrow> u32 \<Rightarrow> CTransaction" where
  "sighash_tx code tx n nHashType =
    (let code = snd (FindAndDelete code [of_nat OP_CODESEPARATOR]);
         tmp = tx\<lparr>vin := blank_scripts code n (vin tx)\<rparr>;
         tmp = (if nHashType AND 0x1f = of_nat SIGHASH_NONE then tmp\<lparr>vout := [], vin := free_sequences n (vin tmp)\<rparr>
                else if nHashType AND 0x1f = of_nat SIGHASH_SINGLE
                then tmp\<lparr>vout := single_outputs n (vout tmp), vin := free_sequences n (vin tmp)\<rparr>
                else tmp)
     in if nHashType AND of_nat SIGHASH_ANYONECANPAY \<noteq> 0 then tmp\<lparr>vin := [vin tmp ! n]\<rparr> else tmp)"

definition SignatureHashOld :: "crypto_fns \<Rightarrow> CScript \<Rightarrow> CTransaction \<Rightarrow> nat \<Rightarrow> u32 \<Rightarrow> uint256" where
  "SignatureHashOld c code tx n nHashType =
    (if n \<ge> length (vin tx) then uint256_ONE
     else if nHashType AND 0x1f = of_nat SIGHASH_SINGLE \<and> n \<ge> length (vout tx) then uint256_ONE
     else CHash256 c (ser_tx (sighash_tx code tx n nHashType) @ ser_writedata32 nHashType))"

section \<open>The transaction signature checker\<close>

definition GetLen :: "byte \<Rightarrow> nat" where
  "GetLen chHeader =
    (if chHeader = 2 \<or> chHeader = 3 then COMPRESSED_SIZE
     else if chHeader = 4 \<or> chHeader = 6 \<or> chHeader = 7 then PUBKEY_SIZE else 0)"

definition CPubKey :: "byte list \<Rightarrow> byte list" where
  "CPubKey vch =
    (let len = (if vch = [] then 0 else GetLen (hd vch)) in if len \<noteq> 0 \<and> len = length vch then vch else [0xFF])"

definition pubkey_IsValid :: "byte list \<Rightarrow> bool" where
  "pubkey_IsValid key \<longleftrightarrow> GetLen (hd key) > 0"

text \<open>The checker is made for an index of an input; the assertion of \<open>SignatureHash\<close> then holds.\<close>

definition tx_CheckSig :: "crypto_fns \<Rightarrow> CTransaction \<Rightarrow> nat \<Rightarrow> valtype \<Rightarrow> valtype \<Rightarrow> CScript \<Rightarrow> SigVersion \<Rightarrow> bool" where
  "tx_CheckSig c tx n vchSig vchPubKey code sigv =
    (let pubkey = CPubKey vchPubKey
     in if \<not> pubkey_IsValid pubkey then False
        else if vchSig = [] then False
        else case SignatureHash c code tx n (ucast (last vchSig)) of
               None \<Rightarrow> False
             | Some sighash \<Rightarrow> PubKeyVerify c pubkey sighash (butlast vchSig))"

definition tx_CheckLockTime :: "CTransaction \<Rightarrow> nat \<Rightarrow> int \<Rightarrow> bool" where
  "tx_CheckLockTime tx n lockTime =
    (let own = uint (nLockTime tx); threshold = int LOCKTIME_THRESHOLD
     in if \<not> ((own < threshold \<and> lockTime < threshold) \<or> (own \<ge> threshold \<and> lockTime \<ge> threshold)) then False
        else if lockTime > own then False
        else if SEQUENCE_FINAL = nSequence (vin tx ! n) then False
        else True)"

definition tx_CheckSequence :: "CTransaction \<Rightarrow> nat \<Rightarrow> int \<Rightarrow> bool" where
  "tx_CheckSequence tx n sequence =
    (let txToSequence = uint (nSequence (vin tx ! n));
         nLockTimeMask = uint (SEQUENCE_LOCKTIME_TYPE_FLAG OR SEQUENCE_LOCKTIME_MASK);
         typeFlag = uint SEQUENCE_LOCKTIME_TYPE_FLAG;
         txToSequenceMasked = txToSequence AND nLockTimeMask;
         nSequenceMasked = sequence AND nLockTimeMask
     in if (scast (tx_nVersion tx) :: u32) < 2 then False
        else if txToSequence AND uint SEQUENCE_LOCKTIME_DISABLE_FLAG \<noteq> 0 then False
        else if \<not> ((txToSequenceMasked < typeFlag \<and> nSequenceMasked < typeFlag) \<or>
                  (txToSequenceMasked \<ge> typeFlag \<and> nSequenceMasked \<ge> typeFlag)) then False
        else if nSequenceMasked > txToSequenceMasked then False
        else True)"

definition TransactionSignatureChecker :: "crypto_fns \<Rightarrow> CTransaction \<Rightarrow> nat \<Rightarrow> SignatureChecker" where
  "TransactionSignatureChecker c tx n = \<lparr>CheckSig = tx_CheckSig c tx n, CheckLockTime = tx_CheckLockTime tx n,
     CheckSequence = tx_CheckSequence tx n\<rparr>"

section \<open>The serializer writes the modified transaction\<close>

lemma GetScriptOp_codesep: "GetScriptOp [0xab] = Some (0xab, [], [])"
  by (simp add: GetScriptOp_def)

lemma codesep_chunk:
  assumes "GetScriptOp pc = Some (opcode, d, rest)"
  shows "take (length pc - length rest) pc = [0xab] \<longleftrightarrow> opcode = OP_CODESEPARATOR"
proof
  assume ch: "take (length pc - length rest) pc = [0xab]"
  obtain b where "pc = b @ rest" "GetScriptOp b = Some (opcode, d, [])" using GetScriptOp_suffix [OF assms] by blast
  then show "opcode = OP_CODESEPARATOR" using ch by (simp add: GetScriptOp_codesep)
next
  assume op: "opcode = OP_CODESEPARATOR"
  obtain x pc' where pc: "pc = x # pc'" using assms by (cases pc) auto
  then have "unat x = 0xab" "rest = pc'" using assms op
    by (auto simp: GetScriptOp_def Let_def split: if_splits option.splits)
  then show "take (length pc - length rest) pc = [0xab]" using pc by (simp add: word_unat_eq_iff)
qed

lemma count_code_separators_chunks:
  "count_code_separators it n = n + length (filter ((=) [0xab]) (script_chunks it))"
proof (induction it arbitrary: n rule: script_induct)
  case (step pc opcode d rest)
  show ?case using step codesep_chunk [OF step(1)]
    by (subst count_code_separators.simps) (auto simp: script_chunks_simps)
qed (simp add: count_code_separators.simps script_chunks_simps)

lemma write_script_code_chunks:
  assumes "script_tail it = []"
  shows "\<exists>s' ib. write_script_code s (p @ it) it = (s', ib, []) \<and>
    s' @ ib = s @ p @ concat (filter ((\<noteq>) [0xab]) (script_chunks it))"
  using assms
proof (induction it arbitrary: s p rule: script_induct)
  case (stop pc)
  then show ?case
    by (subst write_script_code.simps) (simp add: script_chunks_simps GetScriptOp_stop_def)
next
  case (step pc opcode d rest)
  obtain b where pc: "pc = b @ rest" using GetScriptOp_suffix [OF step(1)] by blast
  have tl: "script_tail rest = []" using step(1,3) by (simp add: script_chunks_simps)
  show ?case
  proof (cases "opcode = OP_CODESEPARATOR")
    case True
    then have b: "b = [0xab]" using codesep_chunk [OF step(1)] pc by simp
    have "write_script_code s (p @ pc) pc = write_script_code (s @ p) rest rest"
      using step(1) True by (subst write_script_code.simps) (simp add: pc b)
    moreover have "script_chunks pc = [0xab] # script_chunks rest" using step(1) by (simp add: script_chunks_simps pc b)
    ultimately show ?thesis using step(2) [OF tl, of "s @ p" "[]"] by simp
  next
    case False
    then have b: "b \<noteq> [0xab]" using codesep_chunk [OF step(1)] pc by simp
    have "write_script_code s (p @ pc) pc = write_script_code s ((p @ b) @ rest) rest"
      using step(1) False by (subst write_script_code.simps) (simp add: pc)
    moreover have "script_chunks pc = b # script_chunks rest" using step(1) by (simp add: script_chunks_simps pc)
    ultimately show ?thesis using step(2) [OF tl, of s "p @ b"] b by auto
  qed
qed

lemma length_concat_filter:
  "length (concat xs) = length (concat (filter ((\<noteq>) b) xs)) + length b * length (filter ((=) b) xs)"
  by (induction xs) auto

lemma SerializeScriptCode_deleted:
  assumes "script_tail code = []"
  shows "SerializeScriptCode code = ser_bytes (snd (FindAndDelete code [of_nat OP_CODESEPARATOR]))"
proof -
  define code' where "code' = concat (filter ((\<noteq>) [0xab]) (script_chunks code))"
  have "FindAndDelete code [0xab] = (length (filter ((=) [0xab]) (script_chunks code)), code')"
    using FindAndDelete_chunks [OF GetScriptOp_codesep, of code] assms by (simp add: code'_def)
  moreover have "length code - count_code_separators code 0 = length code'"
    using length_concat_filter [of "script_chunks code" "[0xab]"] script_chunks_concat [of code] assms
    by (simp add: count_code_separators_chunks code'_def)
  moreover obtain s' ib where "write_script_code [] code code = (s', ib, [])" "s' @ ib = code'"
    using write_script_code_chunks [OF assms, of "[]" "[]"] by (auto simp: code'_def)
  ultimately show ?thesis by (auto simp: SerializeScriptCode_def ser_bytes_def)
qed

lemma blank_scripts_nth:
  "i < length ins \<Longrightarrow> n < length ins \<Longrightarrow> blank_scripts code n ins ! i = (ins ! i)\<lparr>scriptSig := if i = n then code else []\<rparr>"
  by (simp add: blank_scripts_def)

lemma length_blank_scripts [simp]: "length (blank_scripts code n ins) = length ins"
  by (simp add: blank_scripts_def)

lemma free_sequences_nth:
  "i < length ins \<Longrightarrow> free_sequences n ins ! i = (if i = n then ins ! i else (ins ! i)\<lparr>nSequence := 0\<rparr>)"
  by (simp add: free_sequences_def)

lemma length_free_sequences [simp]: "length (free_sequences n ins) = length ins"
  by (simp add: free_sequences_def)

lemma single_outputs_nth: "i \<le> n \<Longrightarrow> single_outputs n outs ! i = (if i = n then outs ! i else txout_null)"
  by (simp add: single_outputs_def nth_append)

lemma length_single_outputs [simp]: "length (single_outputs n outs) = n + 1"
  by (simp add: single_outputs_def)

lemma sighash_inputs:
  fixes ht :: u32
  assumes "n < length (vin tx)" "script_tail code = []"
  defines "z \<equiv> mk_serializer tx code n ht"
  shows "map (SerializeInput z) [0..<if fAnyoneCanPay z then 1 else length (vin tx)] = map ser_txin (vin (sighash_tx code tx n ht))"
proof (rule nth_equalityI)
  show "length (map (SerializeInput z) [0..<if fAnyoneCanPay z then 1 else length (vin tx)]) = length (map ser_txin (vin (sighash_tx code tx n ht)))"
    by (simp add: z_def mk_serializer_def sighash_tx_def Let_def)
next
  fix i assume "i < length (map (SerializeInput z) [0..<if fAnyoneCanPay z then 1 else length (vin tx)])"
  then show "map (SerializeInput z) [0..<if fAnyoneCanPay z then 1 else length (vin tx)] ! i = map ser_txin (vin (sighash_tx code tx n ht)) ! i"
    using assms(1) SerializeScriptCode_deleted [OF assms(2)]
    by (simp add: z_def mk_serializer_def sighash_tx_def Let_def SerializeInput_def ser_txin_def blank_scripts_nth free_sequences_nth
        split: if_splits)
qed

lemma sighash_outputs:
  fixes ht :: u32 and code :: CScript
  assumes "ht AND 0x1f = of_nat SIGHASH_SINGLE \<Longrightarrow> n < length (vout tx)"
  defines "z \<equiv> mk_serializer tx code n ht"
  shows "map (SerializeOutput z) [0..<if fHashNone z then 0 else if fHashSingle z then n + 1 else length (vout tx)]
    = map ser_txout (vout (sighash_tx code tx n ht))"
proof (rule nth_equalityI)
  fix i assume "i < length (map (SerializeOutput z) [0..<if fHashNone z then 0 else if fHashSingle z then n + 1 else length (vout tx)])"
  then show "map (SerializeOutput z) [0..<if fHashNone z then 0 else if fHashSingle z then n + 1 else length (vout tx)] ! i
      = map ser_txout (vout (sighash_tx code tx n ht)) ! i"
    by (auto simp: z_def mk_serializer_def sighash_tx_def Let_def SerializeOutput_def single_outputs_nth split: if_splits)
qed (simp add: z_def mk_serializer_def sighash_tx_def Let_def)

lemma sighash_fields:
  "n32bitVersion (sighash_tx code tx n ht) = n32bitVersion tx" "nLockTime (sighash_tx code tx n ht) = nLockTime tx"
  "tx_nVersion (sighash_tx code tx n ht) = tx_nVersion tx" "nType (sighash_tx code tx n ht) = nType tx"
  "vExtraPayload (sighash_tx code tx n ht) = vExtraPayload tx"
  by (simp_all add: sighash_tx_def Let_def n32bitVersion_def)

lemma sig_Serialize_tx:
  assumes "n < length (vin tx)" "script_tail code = []" "ht AND 0x1f = of_nat SIGHASH_SINGLE \<Longrightarrow> n < length (vout tx)"
  shows "sig_Serialize (mk_serializer tx code n ht) = ser_tx (sighash_tx code tx n ht)"
proof -
  let ?z = "mk_serializer tx code n ht" and ?t = "sighash_tx code tx n ht"
  note ins = sighash_inputs [OF assms(1,2), of ht] and outs = sighash_outputs [OF assms(3), of ht code]
  have z: "txTo ?z = tx" "nIn ?z = n" by (simp_all add: mk_serializer_def)
  have "(if fAnyoneCanPay ?z then 1 else length (vin tx)) = length (vin ?t)"
    using arg_cong [OF ins, of length] by simp
  moreover have "(if fHashNone ?z then 0 else if fHashSingle ?z then n + 1 else length (vout tx)) = length (vout ?t)"
    using arg_cong [OF outs, of length] by simp
  ultimately show ?thesis using ins outs
    unfolding sig_Serialize_def ser_tx_def ser_vector_def Let_def z sighash_fields by simp
qed

text \<open>
  C21. For every hash type and every input of the transaction the in-place serializer gives the same signature hash as the reference routine that edits a copy of the
  transaction, provided the script code parses to its end.
\<close>

theorem SignatureHash_equiv_old:
  assumes "n < length (vin tx)" "script_tail code = []"
  shows "SignatureHash c code tx n ht = Some (SignatureHashOld c code tx n ht)"
  using assms by (auto simp: SignatureHash_def SignatureHashOld_def sig_Serialize_tx not_le)

theorem SignatureHash_equiv_old_witness:
  "0 < length (vin demo_tx) \<and> script_tail [0xab, 0xac] = [] \<and>
   SignatureHash demo_crypto [0xab, 0xac] demo_tx 0 0x83 = Some (SignatureHashOld demo_crypto [0xab, 0xac] demo_tx 0 0x83)"
proof -
  have "0 < length (vin demo_tx)" by (simp add: demo_tx_def)
  moreover have "script_tail [0xab, 0xac] = []" by (simp add: script_tail.simps GetScriptOp_def)
  ultimately show ?thesis using SignatureHash_equiv_old [of 0 demo_tx "[0xab, 0xac]" demo_crypto "0x83"] by simp
qed

section \<open>What a signature commits to\<close>

definition sighash_ok :: "CScript \<Rightarrow> CTransaction \<Rightarrow> nat \<Rightarrow> u32 \<Rightarrow> bool" where
  "sighash_ok code tx n ht \<longleftrightarrow> n < length (vin tx) \<and> script_tail code = [] \<and> length code \<le> 0x02000000 \<and>
     (ht AND 0x1f = of_nat SIGHASH_SINGLE \<longrightarrow> n < length (vout tx)) \<and> tx_fields_ok tx"

text \<open>
  A negative version leaves no trace of the type, as if the type were 0xffff.
\<close>

definition normal_type :: "CTransaction \<Rightarrow> CTransaction" where
  "normal_type tx = (if sint (tx_nVersion tx) < 0 then tx\<lparr>nType := 0xffff\<rparr> else tx)"

lemma negative_version_type:
  assumes "sint (tx_nVersion tx) < 0"
  shows "n32bitVersion (tx\<lparr>nType := t\<rparr>) = n32bitVersion tx" "tx_nVersion tx \<noteq> 3"
proof -
  have "bit (tx_nVersion tx) 15" using assms bit_last_iff [of "tx_nVersion tx"] by simp
  then show "n32bitVersion (tx\<lparr>nType := t\<rparr>) = n32bitVersion tx" by (intro bit_word_eqI) (auto simp: bit_n32bitVersion)
  show "tx_nVersion tx \<noteq> 3" using assms by auto
qed

lemma sig_Serialize_type:
  assumes "sint (tx_nVersion tx) < 0"
  shows "sig_Serialize (mk_serializer (tx\<lparr>nType := t\<rparr>) code n ht) = sig_Serialize (mk_serializer tx code n ht)"
proof -
  let ?z = "mk_serializer (tx\<lparr>nType := t\<rparr>) code n ht" and ?z' = "mk_serializer tx code n ht"
  have "SerializeInput ?z = SerializeInput ?z'" "SerializeOutput ?z = SerializeOutput ?z'"
    by (simp_all add: fun_eq_iff SerializeInput_def SerializeOutput_def mk_serializer_def Let_def)
  moreover have "fAnyoneCanPay ?z = fAnyoneCanPay ?z'" "fHashNone ?z = fHashNone ?z'" "fHashSingle ?z = fHashSingle ?z'" "nIn ?z = nIn ?z'"
    "txTo ?z = tx\<lparr>nType := t\<rparr>" "txTo ?z' = tx"
    by (simp_all add: mk_serializer_def)
  ultimately show ?thesis using negative_version_type [OF assms] unfolding sig_Serialize_def Let_def by simp
qed

lemma normal_type_props:
  "ser_tx (normal_type tx) = ser_tx tx" "version_ok (normal_type tx)" "tx_fields_ok tx \<Longrightarrow> tx_fields_ok (normal_type tx)"
  by (auto simp: normal_type_def negative_version_type ser_tx_def version_ok_def tx_fields_ok_def)

lemma normal_type_fields:
  "normal_type t = normal_type t' \<Longrightarrow> vin t = vin t' \<and> vout t = vout t' \<and> tx_nVersion t = tx_nVersion t' \<and> nLockTime t = nLockTime t' \<and>
    vExtraPayload t = vExtraPayload t' \<and> (0 \<le> sint (tx_nVersion t) \<longrightarrow> nType t = nType t')"
  by (cases t; cases t') (auto simp: normal_type_def split: if_splits)

lemma ser_tx_unique:
  assumes "tx_fields_ok t" "tx_fields_ok t'" "ser_tx t @ r = ser_tx t' @ r'"
  shows "normal_type t = normal_type t' \<and> r = r'"
proof -
  have "unser_tx (ser_tx x @ rest) = Inr (x, rest)" if "tx_fields_ok x" "version_ok x" for x rest
    using that n32bitVersion_read [of x] by (auto simp: unser_tx_iff ser_tx_body)
  then have "Inr (normal_type t, r) = (Inr (normal_type t', r') :: stream_error + _)" using assms normal_type_props by metis
  then show ?thesis by simp
qed

lemma length_FindAndDelete:
  "GetScriptOp b = Some (op, d, []) \<Longrightarrow> length (snd (FindAndDelete code b)) \<le> length code"
  using length_concat_filter [of "script_chunks code" b] arg_cong [OF script_chunks_concat [of code], of length]
  by (simp add: FindAndDelete_chunks)

lemma txin_ok_update [simp]:
  "txin_ok (i\<lparr>scriptSig := code\<rparr>) \<longleftrightarrow> outpoint_ok (prevout i) \<and> length code \<le> 0x02000000"
  "txin_ok (i\<lparr>nSequence := q\<rparr>) \<longleftrightarrow> txin_ok i"
  by (simp_all add: txin_ok_def)

lemma txin_ok_blank_free:
  assumes "\<forall>i \<in> set ins. txin_ok i" "length code \<le> 0x02000000" "n < length ins"
  shows "\<forall>i \<in> set (blank_scripts code n ins). txin_ok i"
    "\<forall>i \<in> set (free_sequences n (blank_scripts code n ins)). txin_ok i"
  using assms by (auto simp: in_set_conv_nth [of _ "blank_scripts _ _ _"] in_set_conv_nth [of _ "free_sequences _ _"]
      blank_scripts_nth free_sequences_nth txin_ok_def)

lemma sighash_tx_ok:
  assumes "sighash_ok code tx n ht"
  shows "tx_fields_ok (sighash_tx code tx n ht)"
proof -
  define code' where "code' = snd (FindAndDelete code [0xab])"
  have len: "length code' \<le> 0x02000000" "n < length (vin tx)" and ok: "tx_fields_ok tx"
    using assms length_FindAndDelete [OF GetScriptOp_codesep, of code] by (auto simp: sighash_ok_def code'_def)
  have ins: "\<forall>i \<in> set (blank_scripts code' n (vin tx)). txin_ok i" "\<forall>i \<in> set (free_sequences n (blank_scripts code' n (vin tx))). txin_ok i"
    using ok len by (auto intro: txin_ok_blank_free [rule_format] simp: tx_fields_ok_def)
  then have "\<forall>i \<in> set (vin (sighash_tx code tx n ht)). txin_ok i"
    using len(2) by (auto simp: sighash_tx_def Let_def code'_def [symmetric] intro: ins [rule_format])
  moreover have "txout_ok txout_null" by (simp add: txout_ok_def txout_null_def)
  then have "\<forall>out \<in> set (vout (sighash_tx code tx n ht)). txout_ok out"
    using ok assms by (auto simp: sighash_tx_def Let_def single_outputs_def tx_fields_ok_def sighash_ok_def)
  moreover have "length (vin (sighash_tx code tx n ht)) \<le> 0x02000000" "length (vout (sighash_tx code tx n ht)) \<le> 0x02000000"
    using ok assms by (auto simp: sighash_tx_def Let_def tx_fields_ok_def sighash_ok_def)
  ultimately show ?thesis using ok by (simp add: tx_fields_ok_def sighash_fields)
qed

lemma blank_scripts_maps [simp]:
  "n < length ins \<Longrightarrow> map prevout (blank_scripts code n ins) = map prevout ins"
  "n < length ins \<Longrightarrow> map nSequence (blank_scripts code n ins) = map nSequence ins"
  by (auto intro!: nth_equalityI simp: blank_scripts_nth)


definition demo_tx_unsigned :: CTransaction where
  "demo_tx_unsigned = demo_tx\<lparr>vin := map (\<lambda>i. i\<lparr>scriptSig := []\<rparr>) (vin demo_tx)\<rparr>"

lemma sighash_ok_demo: "sighash_ok [0xac] demo_tx 0 1" "sighash_ok [0xac] demo_tx_unsigned 0 1"
  using demo_tx_ok
  by (simp_all add: sighash_ok_def script_tail.simps GetScriptOp_def demo_tx_def demo_tx_unsigned_def tx_fields_ok_def version_ok_def
      txin_ok_def)


end
