(* ===== verification/Script_Verify.thy ===== *)
theory Script_Verify
  imports Sighash
begin

text \<open>
  \<^verbatim>\<open>VerifyScript\<close> of \<^verbatim>\<open>src/src/script/interpreter.cpp\<close>: the scripts of an input and of the output it spends, pay-to-script-hash included. Its
  assertions hold, verification flags only restrict what is accepted, and a pay-to-public-key-hash output is spent exactly by a valid signature of its key.
\<close>

unbundle bit_operations_syntax

section \<open>Verifying a pair of scripts\<close>

definition VerifyScript :: "EvalEnv \<Rightarrow> CScript \<Rightarrow> CScript \<Rightarrow> unit outcome" where
  "VerifyScript env sig spk =
    (let env = env\<lparr>sigversion := BASE\<rparr>; p2sh = flag (flags env) SCRIPT_VERIFY_P2SH
     in if flag (flags env) SCRIPT_VERIFY_SIGPUSHONLY \<and> \<not> IsPushOnly sig then Fail SCRIPT_ERR_SIG_PUSHONLY
        else out_bind (EvalScript env [] sig) (\<lambda>stack.
          let stackCopy = (if p2sh then stack else [])
          in out_bind (EvalScript env stack spk) (\<lambda>stack.
             if stack = [] then Fail SCRIPT_ERR_EVAL_FALSE
             else if \<not> CastToBool (hd stack) then Fail SCRIPT_ERR_EVAL_FALSE
             else out_bind
               (if p2sh \<and> IsPayToScriptHash spk then
                  (if \<not> IsPushOnly sig then Fail SCRIPT_ERR_SIG_PUSHONLY
                   else case stackCopy of
                     [] \<Rightarrow> Abort
                   | pubKeySerialized # stack \<Rightarrow>
                       out_bind (EvalScript env stack pubKeySerialized) (\<lambda>stack.
                         if stack = [] then Fail SCRIPT_ERR_EVAL_FALSE
                         else if \<not> CastToBool (hd stack) then Fail SCRIPT_ERR_EVAL_FALSE
                         else Done stack))
                else Done stack) (\<lambda>stack.
               if flag (flags env) SCRIPT_VERIFY_CLEANSTACK then
                 (if \<not> p2sh then Abort
                  else if length stack \<noteq> 1 then Fail SCRIPT_ERR_CLEANSTACK
                  else Done ())
               else Done ()))))"

section \<open>No assertion fails\<close>

text \<open>The first instruction of a pay-to-script-hash output takes an element, so it fails on the empty stack.\<close>

lemma GetScriptOp_P2SH:
  assumes "IsPayToScriptHash spk"
  shows "GetScriptOp spk = Some (OP_HASH160, [], drop 1 spk)"
proof -
  obtain x s where s: "spk = x # s" "unat x = 0xa9" using assms by (cases spk) (auto simp: IsPayToScriptHash_def)
  then show ?thesis by (simp add: GetScriptOp_def)
qed

lemma EvalScript_P2SH_empty:
  assumes "IsPayToScriptHash spk"
  shows "EvalScript env [] spk = Fail SCRIPT_ERR_INVALID_STACK_OPERATION"
proof -
  define st where "st = \<lparr>es_stack = [], es_alt = [], es_exec = cs_init, es_codehash = spk, es_ops = 0\<rparr>"
  have "eval_instr env OP_HASH160 [] (drop 1 spk) st = Fail SCRIPT_ERR_INVALID_STACK_OPERATION"
    by (simp add: eval_instr_def st_def opcode_guards_def dip0020_ops_def disabled_ops_def cs_init_def cs_all_true_def
        eval_opcode_def upgradable_nops_def stack_multi_ops_def stack_single_ops_def numeric1_ops_def numeric2_ops_def hash_ops_def
        on_stack_def op_hashes_def)
  then show ?thesis
    using assms by (simp add: EvalScript_def eval_loop_step [OF GetScriptOp_P2SH [OF assms]] st_def [symmetric] IsPayToScriptHash_def)
qed

lemma VerifyScript_all:
  assumes "wf_crypto (crypto env)" "flag (flags env) SCRIPT_VERIFY_CLEANSTACK \<longrightarrow> flag (flags env) SCRIPT_VERIFY_P2SH"
  shows "out_all (\<lambda>_. True) (VerifyScript env sig spk)"
proof -
  define e where "e = env\<lparr>sigversion := BASE\<rparr>"
  have wf: "wf_crypto (crypto e)" and fl: "flags e = flags env" using assms(1) by (simp_all add: e_def)
  note limits = EvalScript_all [OF wf]
  have redeem: "out_all (\<lambda>_. True) (EvalScript e s x)" if "EvalScript e [] sig = Done (x # s)" for s x
    using limits [of "[]" sig] limits [of s x] that by (auto elim: out_all_mono)
  have spk: "out_all (\<lambda>_. True) (EvalScript e st spk)" if "EvalScript e [] sig = Done st" for st
    using limits [of "[]" sig] limits [of st spk] that by (auto elim: out_all_mono)
  have ne: "st \<noteq> []" if "EvalScript e st spk = Done st'" "IsPayToScriptHash spk" for st st'
    using that EvalScript_P2SH_empty [of spk e] by auto
  show ?thesis
  proof (cases "EvalScript e [] sig")
    case Abort
    then show ?thesis using limits [of "[]" sig] by simp
  next
    case (Fail err)
    then show ?thesis by (simp add: VerifyScript_def e_def [symmetric] Let_def)
  next
    case (Done st)
    show ?thesis
      using assms(2) redeem [of _ "tl st"] spk [OF Done] ne [of st] Done
      by (cases "EvalScript e st spk"; cases st)
        (auto simp: VerifyScript_def e_def [symmetric] Let_def fl elim!: out_all_mono)
  qed
qed

text \<open>
  C23. With hash functions of the documented sizes, and with the clean-stack rule only together with pay-to-script-hash, as the code asks for, verification always
  ends in success or an error code: neither the assertion on the restored stack nor any assertion of the interpreter fails.
\<close>

theorem VerifyScript_no_abort:
  assumes "wf_crypto (crypto env)" "flag (flags env) SCRIPT_VERIFY_CLEANSTACK \<longrightarrow> flag (flags env) SCRIPT_VERIFY_P2SH"
  shows "VerifyScript env sig spk = Done () \<or> (\<exists>e. VerifyScript env sig spk = Fail e)"
  using VerifyScript_all [OF assms, of sig spk] by (cases "VerifyScript env sig spk") simp_all

theorem VerifyScript_no_abort_witness:
  "wf_crypto (crypto demo_env) \<and> \<not> flag (flags demo_env) SCRIPT_VERIFY_CLEANSTACK \<and>
   (VerifyScript demo_env [0x51] [0xa9] = Done () \<or> (\<exists>e. VerifyScript demo_env [0x51] [0xa9] = Fail e))"
proof -
  have "\<not> flag (flags demo_env) SCRIPT_VERIFY_CLEANSTACK" by (simp add: demo_env_def flag_def)
  moreover have "wf_crypto (crypto demo_env)" using wf_demo_crypto by (simp add: demo_env_def)
  ultimately show ?thesis using VerifyScript_no_abort [of demo_env "[0x51]" "[0xa9]"] by blast
qed

section \<open>Flags only restrict\<close>

text \<open>
  A result of the second evaluation is also the result of the first. The first environment has fewer flags set, but agrees on the new opcodes.
\<close>

definition out_le :: "'a outcome \<Rightarrow> 'a outcome \<Rightarrow> bool" where
  "out_le m n \<longleftrightarrow> (\<forall>x. n = Done x \<longrightarrow> m = Done x)"

definition env_le :: "EvalEnv \<Rightarrow> EvalEnv \<Rightarrow> bool" where
  "env_le e1 e2 \<longleftrightarrow> checker e1 = checker e2 \<and> sigversion e1 = sigversion e2 \<and> crypto e1 = crypto e2 \<and>
     flags e1 AND flags e2 = flags e1 \<and>
     (flag (flags e1) SCRIPT_ENABLE_DIP0020_OPCODES \<longleftrightarrow> flag (flags e2) SCRIPT_ENABLE_DIP0020_OPCODES)"

named_theorems softfork \<open>fewer flags accept more\<close>

lemma out_le_simps [simp]: "out_le m m" "out_le m (Fail e)" "out_le m Abort" "out_le m (Done x) \<longleftrightarrow> m = Done x"
  by (simp_all add: out_le_def)

lemma out_le_bind [softfork]:
  "out_le m n \<Longrightarrow> (\<And>x. n = Done x \<Longrightarrow> out_le (f x) (g x)) \<Longrightarrow> out_le (out_bind m f) (out_bind n g)"
  by (cases n) (simp_all add: out_le_def)

lemma out_le_if [softfork]:
  "(b \<Longrightarrow> out_le m n) \<Longrightarrow> (\<not> b \<Longrightarrow> out_le m' n') \<Longrightarrow> out_le (if b then m else m') (if b then n else n')"
  by simp

lemma env_le_fields:
  assumes "env_le e1 e2"
  shows "checker e1 = checker e2" "sigversion e1 = sigversion e2" "crypto e1 = crypto e2"
    "flag (flags e1) f \<Longrightarrow> flag (flags e2) f"
proof -
  have "flags e1 AND f = flags e1 AND (flags e2 AND f)" using assms by (simp add: env_le_def and.assoc [symmetric])
  then show "flag (flags e1) f \<Longrightarrow> flag (flags e2) f" by (auto simp: flag_def)
qed (use assms in \<open>simp_all add: env_le_def\<close>)

lemma stack_num_le [softfork]: "env_le e1 e2 \<Longrightarrow> out_le (stack_num e1 k x) (stack_num e2 k x)"
  using env_le_fields(4) [of e1 e2 SCRIPT_VERIFY_MINIMALDATA]
  by (auto simp: stack_num_def CScriptNum_def fRequireMinimal_def)

lemma op_locktime_le [softfork]:
  "env_le e1 e2 \<Longrightarrow> out_le (op_checklocktime e1 s) (op_checklocktime e2 s)"
  "env_le e1 e2 \<Longrightarrow> out_le (op_checksequence e1 s) (op_checksequence e2 s)"
  "env_le e1 e2 \<Longrightarrow> out_le (op_nop_upgradable e1 s) (op_nop_upgradable e2 s)"
  using env_le_fields(1,4) [of e1 e2] stack_num_le [of e1 e2 5 "hd s"]
  by (auto simp: op_checklocktime_def op_checksequence_def op_nop_upgradable_def out_le_def out_bind_Done split: list.splits if_splits)

lemma op_numeric_le [softfork]:
  assumes "env_le e1 e2"
  shows "out_le (op_pick_roll e1 opcode s) (op_pick_roll e2 opcode s)" "out_le (op_numeric1 e1 opcode s) (op_numeric1 e2 opcode s)"
    "out_le (op_numeric2 e1 opcode s) (op_numeric2 e2 opcode s)" "out_le (op_within e1 s) (op_within e2 s)"
    "out_le (op_split e1 s) (op_split e2 s)" "out_le (op_num2bin e1 s) (op_num2bin e2 s)"
  unfolding op_pick_roll_def op_numeric1_def op_numeric2_def op_within_def op_split_def op_num2bin_def
  by (auto split: list.split intro!: softfork assms)

lemma check_encodings_le [softfork]:
  assumes "env_le e1 e2"
  shows "out_le (check_encodings e1 sig key) (check_encodings e2 sig key)"
  using env_le_fields(3,4) [OF assms]
  by (auto simp: check_encodings_def out_le_def fail_if_def CheckSignatureEncoding_def CheckPubKeyEncoding_def split: if_splits option.splits)

lemma drop_sig_le [softfork]: "env_le e1 e2 \<Longrightarrow> out_le (drop_sig e1 sig code) (drop_sig e2 sig code)"
  using env_le_fields(2,4) [of e1 e2] by (auto simp: drop_sig_def out_le_def Let_def split: prod.splits if_splits)

lemma drop_sigs_le [softfork]: "env_le e1 e2 \<Longrightarrow> out_le (drop_sigs e1 sigs code) (drop_sigs e2 sigs code)"
  by (induction sigs arbitrary: code) (auto intro!: softfork)

lemma EvalChecksig_le [softfork]: "env_le e1 e2 \<Longrightarrow> out_le (EvalChecksig e1 sig key code) (EvalChecksig e2 sig key code)"
  unfolding EvalChecksig_def Let_def using env_le_fields(1,2,4) [of e1 e2] by (auto intro!: softfork)

lemma op_checksig_le [softfork]:
  "env_le e1 e2 \<Longrightarrow> out_le (op_checksig e1 opcode code s) (op_checksig e2 opcode code s)"
  unfolding op_checksig_def by (auto split: list.split intro!: softfork)

lemma op_checkdatasig_le [softfork]:
  "env_le e1 e2 \<Longrightarrow> out_le (op_checkdatasig e1 opcode s) (op_checkdatasig e2 opcode s)"
  unfolding op_checkdatasig_def Let_def using env_le_fields(3,4) [of e1 e2]
  by (auto split: list.split intro!: softfork)

lemma multisig_loop_le [softfork]:
  "env_le e1 e2 \<Longrightarrow> out_le (multisig_loop e1 code sigs keys) (multisig_loop e2 code sigs keys)"
proof (induction e2 code sigs keys rule: multisig_loop.induct)
  case (2 env code sig sigs key keys)
  show ?case
    unfolding multisig_loop.simps Let_def env_le_fields(1,2) [OF 2(2)]
    by (intro out_le_bind out_le_if check_encodings_le 2) (use 2 in simp_all)
qed simp_all

lemma multisig_cleanup_le [softfork]:
  "env_le e1 e2 \<Longrightarrow> out_le (multisig_cleanup e1 ok i k s) (multisig_cleanup e2 ok i k s)"
proof (induction e2 ok i k s rule: multisig_cleanup.induct)
  case (3 env ok i k x s)
  then show ?case using env_le_fields(4) [of e1 env] by (auto simp: out_le_def)
qed simp_all

lemma op_checkmultisig_le [softfork]:
  assumes "env_le e1 e2"
  shows "out_le (op_checkmultisig e1 opcode code n s) (op_checkmultisig e2 opcode code n s)"
  unfolding op_checkmultisig_def Let_def
  by (intro out_le_if out_le_bind stack_num_le drop_sigs_le multisig_loop_le multisig_cleanup_le assms)
    (use env_le_fields(4) [OF assms, of SCRIPT_VERIFY_NULLDUMMY] in \<open>auto split: list.split\<close>)

lemma on_stack_le [softfork]: "(\<And>s. out_le (f s) (g s)) \<Longrightarrow> out_le (on_stack f st) (on_stack g st)"
  by (simp add: on_stack_def out_le_bind)

lemma eval_opcode_le [softfork]:
  assumes "env_le e1 e2"
  shows "out_le (eval_opcode e1 fExec opcode pc st) (eval_opcode e2 fExec opcode pc st)"
proof -
  have branch: "out_le m n \<Longrightarrow> out_le m' n' \<Longrightarrow> out_le (if b then m else m') (if b then n else n')" for b and m n m' n' :: "EvalState outcome"
    by simp
  show ?thesis
    unfolding eval_opcode_def
    by (intro branch on_stack_le out_le_bind op_locktime_le op_numeric_le op_checksig_le op_checkdatasig_le op_checkmultisig_le assms)
      (use env_le_fields(3) [OF assms] in \<open>simp_all add: op_hashes_def split: list.split\<close>)
qed

lemma opcode_guards_le [softfork]:
  assumes "env_le e1 e2"
  shows "out_le (opcode_guards e1 opcode d st) (opcode_guards e2 opcode d st)"
proof -
  have "flag (flags e1) SCRIPT_ENABLE_DIP0020_OPCODES \<longleftrightarrow> flag (flags e2) SCRIPT_ENABLE_DIP0020_OPCODES"
    using assms by (simp add: env_le_def)
  then show ?thesis
    using env_le_fields(2,4) [OF assms] by (auto simp: opcode_guards_def Let_def)
qed

lemma eval_instr_le [softfork]:
  assumes "env_le e1 e2"
  shows "out_le (eval_instr e1 opcode d pc st) (eval_instr e2 opcode d pc st)"
proof -
  have push: "out_le
      (out_bind (if fRequireMinimal e1 then or_abort (CheckMinimalPush d opcode) else Done True) (\<lambda>m. if \<not> m then Fail e else Done st'))
      (out_bind (if fRequireMinimal e2 then or_abort (CheckMinimalPush d opcode) else Done True) (\<lambda>m. if \<not> m then Fail e else Done st'))"
    for e and st' :: EvalState
    using env_le_fields(4) [OF assms, of SCRIPT_VERIFY_MINIMALDATA]
    by (auto simp: fRequireMinimal_def out_le_def out_bind_Done or_abort_def split: option.splits if_splits)
  show ?thesis
    unfolding eval_instr_def Let_def
    by (intro out_le_bind out_le_if push opcode_guards_le eval_opcode_le assms) simp_all
qed

lemma eval_loop_le [softfork]: "env_le e1 e2 \<Longrightarrow> out_le (eval_loop e1 pc st) (eval_loop e2 pc st)"
proof (induction pc arbitrary: st rule: script_induct)
  case (stop pc)
  then show ?case by (cases "pc = []") (simp_all add: eval_loop_bad)
next
  case (step pc opcode d rest)
  then show ?case by (simp add: eval_loop_step [OF step(1)] softfork)
qed

lemma EvalScript_le [softfork]: "env_le e1 e2 \<Longrightarrow> out_le (EvalScript e1 s script) (EvalScript e2 s script)"
  unfolding EvalScript_def by (intro out_le_if out_le_bind eval_loop_le) simp_all

section \<open>What verification accepts\<close>

definition truthy :: "stack \<Rightarrow> bool" where
  "truthy st \<longleftrightarrow> st \<noteq> [] \<and> CastToBool (hd st)"

text \<open>The scripts leave the stacks \<open>st1\<close> and \<open>st2\<close>, and the script from the top of \<open>st1\<close> leaves \<open>st3\<close>.\<close>

definition p2sh_accepts :: "EvalEnv \<Rightarrow> stack \<Rightarrow> bool" where
  "p2sh_accepts e st1 \<longleftrightarrow> (\<exists>redeem s st3. st1 = redeem # s \<and> EvalScript e s redeem = Done st3 \<and> truthy st3 \<and>
     (flag (flags e) SCRIPT_VERIFY_CLEANSTACK \<longrightarrow> length st3 = 1))"

definition verify_accepts :: "EvalEnv \<Rightarrow> CScript \<Rightarrow> CScript \<Rightarrow> stack \<Rightarrow> stack \<Rightarrow> bool" where
  "verify_accepts e sig spk st1 st2 \<longleftrightarrow> truthy st2 \<and>
     (if flag (flags e) SCRIPT_VERIFY_P2SH \<and> IsPayToScriptHash spk then IsPushOnly sig \<and> p2sh_accepts e st1
      else flag (flags e) SCRIPT_VERIFY_CLEANSTACK \<longrightarrow> flag (flags e) SCRIPT_VERIFY_P2SH \<and> length st2 = 1)"

lemma VerifyScript_Done:
  fixes env sig spk
  defines "e \<equiv> env\<lparr>sigversion := BASE\<rparr>"
  shows "VerifyScript env sig spk = Done () \<longleftrightarrow> (flag (flags env) SCRIPT_VERIFY_SIGPUSHONLY \<longrightarrow> IsPushOnly sig) \<and>
    (\<exists>st1 st2. EvalScript e [] sig = Done st1 \<and> EvalScript e st1 spk = Done st2 \<and> verify_accepts e sig spk st1 st2)"
proof (cases "EvalScript e [] sig")
  case (Done st1)
  show ?thesis
  proof (cases "EvalScript e st1 spk")
    case (Done st2)
    show ?thesis
    proof (cases "st1 = [] \<or> \<not> (flag (flags env) SCRIPT_VERIFY_P2SH \<and> IsPayToScriptHash spk)")
      case True
      then show ?thesis using \<open>EvalScript e [] sig = Done st1\<close> Done
        by (auto simp: VerifyScript_def Let_def e_def verify_accepts_def p2sh_accepts_def truthy_def)
    next
      case False
      then obtain x s where st1: "st1 = x # s" by (cases st1) auto
      show ?thesis using \<open>EvalScript e [] sig = Done st1\<close> Done False
        by (cases "EvalScript e s x") (auto simp: VerifyScript_def Let_def e_def verify_accepts_def p2sh_accepts_def truthy_def st1)
    qed
  qed (use Done in \<open>simp_all add: VerifyScript_def Let_def e_def\<close>)
qed (simp_all add: VerifyScript_def Let_def e_def)

text \<open>
  C24. Setting more verification flags only restricts what is accepted, as long as the flag that enables the new opcodes stays as it is: a pair of scripts that passes
  with the larger set of flags passes with the smaller one, provided the smaller one has the clean-stack rule only together with
  pay-to-script-hash.
\<close>

theorem VerifyScript_softfork:
  assumes "f AND g = f" "flag f SCRIPT_ENABLE_DIP0020_OPCODES \<longleftrightarrow> flag g SCRIPT_ENABLE_DIP0020_OPCODES"
    and "flag f SCRIPT_VERIFY_CLEANSTACK \<longrightarrow> flag f SCRIPT_VERIFY_P2SH"
    and "VerifyScript (env\<lparr>flags := g\<rparr>) sig spk = Done ()"
  shows "VerifyScript (env\<lparr>flags := f\<rparr>) sig spk = Done ()"
proof -
  define e1 e2 where "e1 = env\<lparr>flags := f, sigversion := BASE\<rparr>" and "e2 = env\<lparr>flags := g, sigversion := BASE\<rparr>"
  have fl: "flags e1 = f" "flags e2 = g" by (simp_all add: e1_def e2_def)
  have le: "env_le e1 e2" using assms(1,2) by (simp add: env_le_def e1_def e2_def)
  have eval: "EvalScript e2 s script = Done r \<Longrightarrow> EvalScript e1 s script = Done r" for s script r
    using EvalScript_le [OF le, of s script] by (simp add: out_le_def)
  have flag: "flag f b \<Longrightarrow> flag g b" for b using env_le_fields(4) [OF le, of b] fl by simp
  have p2sh: "p2sh_accepts e2 st \<Longrightarrow> p2sh_accepts e1 st" for st
    using eval flag [of SCRIPT_VERIFY_CLEANSTACK] unfolding p2sh_accepts_def fl by blast
  have "verify_accepts e2 sig spk st1 st2 \<Longrightarrow> verify_accepts e1 sig spk st1 st2" for st1 st2
    using assms(3) p2sh [of st1] flag [of SCRIPT_VERIFY_P2SH] flag [of SCRIPT_VERIFY_CLEANSTACK]
    unfolding verify_accepts_def fl by (auto split: if_splits)
  then show ?thesis
    using assms(4) eval flag [of SCRIPT_VERIFY_SIGPUSHONLY]
    by (simp add: VerifyScript_Done e1_def [symmetric] e2_def [symmetric]) blast
qed

lemma num_serialize_one: "num_serialize 1 = [1]"
  using num_serialize_digit [of 1] by simp

lemma VerifyScript_one: "VerifyScript (demo_env\<lparr>flags := SCRIPT_VERIFY_P2SH OR SCRIPT_VERIFY_CLEANSTACK\<rparr>) [0x51] [0x61] = Done ()"
  by (simp add: VerifyScript_def Let_def flag_def EvalScript_def eval_loop.simps GetScriptOp_def eval_instr_def opcode_guards_def
      dip0020_ops_def disabled_ops_def cs_init_def cs_all_true_def cs_empty_def eval_opcode_def on_stack_def op_push_small_def
      num_serialize_one CastToBool_def demo_env_def IsPayToScriptHash_def)

theorem VerifyScript_softfork_witness:
  "VerifyScript (demo_env\<lparr>flags := SCRIPT_VERIFY_P2SH OR SCRIPT_VERIFY_CLEANSTACK\<rparr>) [0x51] [0x61] = Done () \<and>
   VerifyScript (demo_env\<lparr>flags := SCRIPT_VERIFY_P2SH\<rparr>) [0x51] [0x61] = Done ()"
  using VerifyScript_softfork [of SCRIPT_VERIFY_P2SH "SCRIPT_VERIFY_P2SH OR SCRIPT_VERIFY_CLEANSTACK" demo_env "[0x51]" "[0x61]"]
    VerifyScript_one by (simp add: flag_def)

text \<open>The flag of the new opcodes is not of this kind: with it a script is accepted that fails without it.\<close>

lemma DIP0020_enlarges:
  "VerifyScript (demo_env\<lparr>flags := SCRIPT_ENABLE_DIP0020_OPCODES\<rparr>) [0x51, 0x51] [0x84] = Done ()"
  "VerifyScript (demo_env\<lparr>flags := SCRIPT_VERIFY_NONE\<rparr>) [0x51, 0x51] [0x84] = Fail SCRIPT_ERR_DISABLED_OPCODE"
  by (simp_all add: VerifyScript_def Let_def flag_def EvalScript_def eval_loop.simps GetScriptOp_def eval_instr_def opcode_guards_def
      dip0020_ops_def disabled_ops_def cs_init_def cs_all_true_def cs_empty_def eval_opcode_def on_stack_def op_push_small_def
      num_serialize_one CastToBool_def demo_env_def IsPayToScriptHash_def upgradable_nops_def stack_multi_ops_def stack_single_ops_def
      op_bitwise_def)

section \<open>Pay to public key hash\<close>

lemma eval_instr_exec:
  assumes "cs_all_true (es_exec st)" "opcode > OP_16" "opcode \<notin> set dip0020_ops" "opcode \<notin> set disabled_ops" "opcode \<noteq> OP_CODESEPARATOR"
    and "es_ops st < MAX_OPS_PER_SCRIPT"
  shows "eval_instr env opcode [] pc st = out_bind (eval_opcode env True opcode pc (st\<lparr>es_ops := es_ops st + 1\<rparr>))
    (\<lambda>st. if length (es_stack st) + length (es_alt st) > MAX_STACK_SIZE then Fail SCRIPT_ERR_STACK_SIZE else Done st)"
  using assms by (simp add: eval_instr_def opcode_guards_def)

lemmas opcode_lists = dip0020_ops_def disabled_ops_def upgradable_nops_def stack_multi_ops_def stack_single_ops_def numeric1_ops_def
  numeric2_ops_def hash_ops_def

text \<open>The instructions of the script, each on the stack it meets.\<close>

lemma eval_P2PKH_instrs:
  assumes "cs_all_true ex" "n < MAX_OPS_PER_SCRIPT" "length s + length a < 900"
  shows "eval_instr env OP_DUP [] pc \<lparr>es_stack = x # s, es_alt = a, es_exec = ex, es_codehash = code, es_ops = n\<rparr> =
      Done \<lparr>es_stack = x # x # s, es_alt = a, es_exec = ex, es_codehash = code, es_ops = n + 1\<rparr>"
    and "eval_instr env OP_HASH160 [] pc \<lparr>es_stack = x # s, es_alt = a, es_exec = ex, es_codehash = code, es_ops = n\<rparr> =
      Done \<lparr>es_stack = CHash160 (crypto env) x # s, es_alt = a, es_exec = ex, es_codehash = code, es_ops = n + 1\<rparr>"
    and "eval_instr env OP_EQUALVERIFY [] pc \<lparr>es_stack = x # y # s, es_alt = a, es_exec = ex, es_codehash = code, es_ops = n\<rparr> =
      (if y = x then Done \<lparr>es_stack = s, es_alt = a, es_exec = ex, es_codehash = code, es_ops = n + 1\<rparr> else Fail SCRIPT_ERR_EQUALVERIFY)"
    and "eval_instr env OP_CHECKSIG [] pc \<lparr>es_stack = x # y # s, es_alt = a, es_exec = ex, es_codehash = code, es_ops = n\<rparr> =
      out_bind (EvalChecksig env y x code) (\<lambda>ok. Done \<lparr>es_stack = bool_vch ok # s, es_alt = a, es_exec = ex, es_codehash = code, es_ops = n + 1\<rparr>)"
  using assms
  by (simp_all add: eval_instr_exec opcode_lists eval_opcode_def on_stack_def op_stack_single_def op_hashes_def op_equal_def op_checksig_def)
    (cases "EvalChecksig env y x code"; simp)

lemma eval_instr_push:
  assumes "cs_all_true (es_exec st)" "2 \<le> length d" "length d \<le> 75" "length (es_stack st) + length (es_alt st) < 900"
  shows "eval_instr env (length d) d pc st = Done (st\<lparr>es_stack := d # es_stack st\<rparr>)"
  using assms by (simp add: eval_instr_def opcode_guards_def opcode_lists CheckMinimalPush_def or_abort_def)

definition p2pkh :: "byte list \<Rightarrow> CScript" where
  "p2pkh h = [0x76, 0xa9, 0x14] @ h @ [0x88, 0xac]"

lemma IsPayToPublicKeyHash_p2pkh:
  assumes "IsPayToPublicKeyHash spk"
  shows "spk = p2pkh (take 20 (drop 3 spk))" "length (take 20 (drop 3 spk)) = 20"
proof -
  have len: "length spk = 25" using assms by (simp add: IsPayToPublicKeyHash_def)
  have "spk ! 0 = 0x76" "spk ! 1 = 0xa9" "spk ! 2 = 0x14" "spk ! 23 = 0x88" "spk ! 24 = 0xac"
    using assms by (simp_all add: IsPayToPublicKeyHash_def word_unat_eq_iff)
  then have "take 3 spk = [0x76, 0xa9, 0x14]" "drop 23 spk = [0x88, 0xac]"
    using len by (auto intro!: nth_equalityI simp: less_Suc_eq numeral_eq_Suc [of "Num.Bit1 Num.One"] numeral_eq_Suc [of "Num.Bit0 Num.One"])
  moreover have "spk = take 3 spk @ take 20 (drop 3 spk) @ drop 23 spk"
    using append_take_drop_id [of 3 spk] append_take_drop_id [of 20 "drop 3 spk"] by simp
  ultimately show "spk = p2pkh (take 20 (drop 3 spk))" by (simp add: p2pkh_def)
  show "length (take 20 (drop 3 spk)) = 20" using len by simp
qed

lemma GetScriptOp_push: "length d \<le> 75 \<Longrightarrow> GetScriptOp (of_nat (length d) # d @ rest) = Some (length d, d, rest)"
  by (simp add: GetScriptOp_def unat_of_nat)

lemma GetScriptOp_single: "unat b > OP_PUSHDATA4 \<Longrightarrow> GetScriptOp (b # rest) = Some (unat b, [], rest)"
  by (simp add: GetScriptOp_def)

lemma push_data_small: "length d \<le> 75 \<Longrightarrow> push_data d = of_nat (length d) # d"
  by (simp add: push_data_def)

lemma p2pkh_chunks:
  assumes "length h = 20"
  shows "script_chunks (p2pkh h) = [[0x76], [0xa9], 0x14 # h, [0x88], [0xac]]" "script_tail (p2pkh h) = []"
proof -
  have push: "GetScriptOp (0x14 # h @ rest) = Some (20, h, rest)" for rest
    using GetScriptOp_push [of h rest] assms by simp
  show "script_chunks (p2pkh h) = [[0x76], [0xa9], 0x14 # h, [0x88], [0xac]]" "script_tail (p2pkh h) = []"
    using assms by (simp_all add: p2pkh_def script_chunks.simps script_tail.simps GetScriptOp_single push)
qed

lemma EvalChecksig_p2pkh:
  assumes "length h = 20" "20 < length sig" "length sig \<le> 75" "check_encodings env sig key = Done ()" "sigversion env = BASE"
  defines "ok \<equiv> CheckSig (checker env) sig key (p2pkh h) BASE"
  shows "EvalChecksig env sig key (p2pkh h) =
    (if \<not> ok \<and> flag (flags env) SCRIPT_VERIFY_NULLFAIL then Fail SCRIPT_ERR_SIG_NULLFAIL else Done ok)"
proof -
  have "GetScriptOp (push_data sig) = Some (length sig, sig, [])"
    using GetScriptOp_push [of sig "[]"] assms(3) by (simp add: push_data_small)
  then have "FindAndDelete (p2pkh h) (push_data sig) = (0, p2pkh h)"
    using assms(1-3) by (auto simp: FindAndDelete_chunks p2pkh_chunks push_data_small) (simp_all add: p2pkh_def)
  then show ?thesis using assms by (auto simp: EvalChecksig_def drop_sig_def)
qed

lemma EvalScript_p2pkh:
  assumes "length h = 20" "20 < length sig" "length sig \<le> 75" "check_encodings env sig key = Done ()" "sigversion env = BASE"
  defines "ok \<equiv> CheckSig (checker env) sig key (p2pkh h) BASE"
  shows "EvalScript env [key, sig] (p2pkh h) =
    (if CHash160 (crypto env) key \<noteq> h then Fail SCRIPT_ERR_EQUALVERIFY
     else if \<not> ok \<and> flag (flags env) SCRIPT_VERIFY_NULLFAIL then Fail SCRIPT_ERR_SIG_NULLFAIL else Done [bool_vch ok])"
proof -
  have ex: "cs_all_true cs_init" "cs_empty cs_init" by (simp_all add: cs_all_true_def cs_init_def cs_empty_def)
  have push: "GetScriptOp (0x14 # h @ rest) = Some (20, h, rest)" "cs_all_true (es_exec st) \<Longrightarrow> length (es_stack st) + length (es_alt st) < 900 \<Longrightarrow>
      eval_instr env 20 h rest st = Done (st\<lparr>es_stack := h # es_stack st\<rparr>)" for rest st
    using GetScriptOp_push [of h rest] eval_instr_push [of st h env rest] assms(1) by simp_all
  have loop: "eval_loop env (p2pkh h) \<lparr>es_stack = [key, sig], es_alt = [], es_exec = cs_init, es_codehash = code, es_ops = 0\<rparr> =
      (if CHash160 (crypto env) key \<noteq> h then Fail SCRIPT_ERR_EQUALVERIFY
       else out_bind (EvalChecksig env sig key code)
         (\<lambda>ok. Done \<lparr>es_stack = [bool_vch ok], es_alt = [], es_exec = cs_init, es_codehash = code, es_ops = 4\<rparr>))" for code
    using ex by (simp add: p2pkh_def eval_loop_step GetScriptOp_single push eval_P2PKH_instrs)
      (cases "EvalChecksig env sig key code"; simp)
  have "length (p2pkh h) = 25" using assms(1) by (simp add: p2pkh_def)
  then show ?thesis using ex by (simp add: EvalScript_def loop EvalChecksig_p2pkh [OF assms(1-5)] ok_def)
qed

lemma EvalScript_two_pushes:
  assumes "2 \<le> length a" "length a \<le> 75" "2 \<le> length b" "length b \<le> 75"
  shows "EvalScript env [] (push_data a @ push_data b) = Done [b, a]"
proof -
  have ex: "cs_all_true cs_init" "cs_empty cs_init" by (simp_all add: cs_all_true_def cs_init_def cs_empty_def)
  show ?thesis
    using assms ex GetScriptOp_push [of b "[]"] eval_instr_push [of _ b env "[]"]
    by (simp add: EvalScript_def push_data_small eval_loop_step GetScriptOp_push eval_instr_push)
qed

text \<open>
  C25. A pay-to-public-key-hash output with hash h is spent by pushing a signature and a key, with acceptable encodings, exactly when the key
  hashes to h and the signature checker accepts the signature for the script of the output.
\<close>

theorem VerifyScript_P2PKH:
  assumes "IsPayToPublicKeyHash spk" "20 < length sig" "length sig \<le> 75" "2 \<le> length key" "length key \<le> 75"
    and "check_encodings env sig key = Done ()" "flag (flags env) SCRIPT_VERIFY_CLEANSTACK \<longrightarrow> flag (flags env) SCRIPT_VERIFY_P2SH"
  shows "VerifyScript env (push_data sig @ push_data key) spk = Done () \<longleftrightarrow>
    CHash160 (crypto env) key = take 20 (drop 3 spk) \<and> CheckSig (checker env) sig key spk BASE"
proof -
  define h where "h = take 20 (drop 3 spk)"
  have spk: "spk = p2pkh h" "length h = 20" using IsPayToPublicKeyHash_p2pkh [OF assms(1)] unfolding h_def by blast+
  define e where "e = env\<lparr>sigversion := BASE\<rparr>"
  have enc: "check_encodings e sig key = Done ()" "sigversion e = BASE" using assms(6) by (simp_all add: e_def check_encodings_def)
  have push: "IsPushOnly (push_data sig @ push_data key)" using pushes_read [of "[sig, key]"] assms by simp
  have one: "EvalScript e [] (push_data sig @ push_data key) = Done [key, sig]" using assms by (intro EvalScript_two_pushes) auto
  have truth: "truthy [bool_vch ok] \<longleftrightarrow> ok" for ok by (simp add: truthy_def bool_vch_def vchTrue_def vchFalse_def CastToBool_def)
  have no_p2sh: "\<not> IsPayToScriptHash spk" using assms(1) by (simp add: IsPayToScriptHash_def IsPayToPublicKeyHash_def)
  have acc: "verify_accepts e ss spk st1 [bool_vch ok] \<longleftrightarrow> ok" for ss st1 ok
    using assms(7) no_p2sh truth by (simp add: verify_accepts_def e_def)
  have "CheckSig (checker e) = CheckSig (checker env)" "crypto e = crypto env" by (simp_all add: e_def)
  then have two: "EvalScript e [key, sig] spk = Done st \<longleftrightarrow> CHash160 (crypto env) key = h \<and>
      (CheckSig (checker env) sig key spk BASE \<or> \<not> flag (flags e) SCRIPT_VERIFY_NULLFAIL) \<and> st = [bool_vch (CheckSig (checker env) sig key spk BASE)]" for st
    using EvalScript_p2pkh [OF spk(2) assms(2,3) enc] unfolding spk(1) by (simp add: eq_commute [of st])
  show ?thesis
    unfolding VerifyScript_Done e_def [symmetric] one h_def [symmetric] using push acc two by auto
qed

text \<open>A key of 33 bytes and a checker that accepts the signatures that start with it.\<close>

definition p2pkh_key :: valtype where
  "p2pkh_key = 2 # replicate 32 5"

definition p2pkh_env :: EvalEnv where
  "p2pkh_env = \<lparr>flags = SCRIPT_VERIFY_P2SH OR SCRIPT_VERIFY_CLEANSTACK,
     checker = \<lparr>CheckSig = \<lambda>sig key _ _. take 33 sig = key, CheckLockTime = \<lambda>_. False, CheckSequence = \<lambda>_. False\<rparr>,
     sigversion = BASE, crypto = demo_crypto\<rparr>"

lemma p2pkh_demo:
  "check_encodings p2pkh_env sig key = Done ()" "flag (flags p2pkh_env) SCRIPT_VERIFY_P2SH"
  "IsPayToPublicKeyHash (p2pkh (2 # replicate 19 5))" "CHash160 (crypto p2pkh_env) p2pkh_key = 2 # replicate 19 5"
  by (simp_all add: check_encodings_def p2pkh_env_def CheckSignatureEncoding_def CheckPubKeyEncoding_def flag_def fail_if_def
      IsPayToPublicKeyHash_def p2pkh_def nth_append CHash160_def demo_crypto_def p2pkh_key_def)

theorem VerifyScript_P2PKH_witness:
  "IsPayToPublicKeyHash (p2pkh (2 # replicate 19 5)) \<and>
   VerifyScript p2pkh_env (push_data (p2pkh_key @ [1]) @ push_data p2pkh_key) (p2pkh (2 # replicate 19 5)) = Done ()"
proof -
  have "take 20 (drop 3 (p2pkh (2 # replicate 19 5))) = 2 # replicate 19 5" by (simp add: p2pkh_def)
  moreover have "length p2pkh_key = 33" "take 33 (p2pkh_key @ [1]) = p2pkh_key" by (simp_all add: p2pkh_key_def)
  moreover have "CheckSig (checker p2pkh_env) (p2pkh_key @ [1]) p2pkh_key spk BASE" for spk
    using calculation by (simp add: p2pkh_env_def)
  ultimately show ?thesis
    using VerifyScript_P2PKH [OF p2pkh_demo(3) _ _ _ _ p2pkh_demo(1), of "p2pkh_key @ [1]" p2pkh_key] p2pkh_demo by simp
qed

end
