(* ===== verification/Merkle.thy ===== *)
theory Merkle
  imports Script_Verify
begin

text \<open>
  Merkle trees: the root with the detection of duplicated transactions (\<^verbatim>\<open>src/src/consensus/merkle.cpp\<close>) and the partial Merkle trees of filtered blocks
  (\<^verbatim>\<open>src/src/merkleblock.h\<close> and \<^verbatim>\<open>.cpp\<close>). Numbers of transactions stay far below \<open>2 ^ 31\<close>, so tree widths and positions are natural numbers. Statements on
  the uniqueness of what a root commits to assume that no two of the pairs hashed in the computations at hand collide.
\<close>

unbundle bit_operations_syntax

section \<open>The Merkle root\<close>

definition Hash2 :: "crypto_fns \<Rightarrow> uint256 \<Rightarrow> uint256 \<Rightarrow> uint256" where
  "Hash2 c in1 in2 = CHash256 c (in1 @ in2)"

definition uint256_ZERO :: uint256 where
  "uint256_ZERO = replicate 32 0"

text \<open>The pairs that one pass hashes, the last hash being doubled when their number is odd, and the result of the pass.\<close>

fun level_pairs :: "uint256 list \<Rightarrow> (uint256 \<times> uint256) list" where
  "level_pairs [] = []"
| "level_pairs [x] = [(x, x)]"
| "level_pairs (x # y # hashes) = (x, y) # level_pairs hashes"

definition merkle_level :: "crypto_fns \<Rightarrow> uint256 list \<Rightarrow> uint256 list" where
  "merkle_level c hashes = map (\<lambda>(l, r). Hash2 c l r) (level_pairs hashes)"

fun level_mutation :: "uint256 list \<Rightarrow> bool" where
  "level_mutation (x # y # hashes) \<longleftrightarrow> x = y \<or> level_mutation hashes"
| "level_mutation _ \<longleftrightarrow> False"

lemma length_level_pairs [simp]: "length (level_pairs hashes) = (length hashes + 1) div 2"
  by (induction hashes rule: level_pairs.induct) auto

lemma length_merkle_level [simp]: "length (merkle_level c hashes) = (length hashes + 1) div 2"
  by (simp add: merkle_level_def)

function ComputeMerkleRoot_loop :: "crypto_fns \<Rightarrow> uint256 list \<Rightarrow> bool \<Rightarrow> uint256 list \<times> bool" where
  "ComputeMerkleRoot_loop c hashes mutation =
    (if length hashes > 1 then ComputeMerkleRoot_loop c (merkle_level c hashes) (mutation \<or> level_mutation hashes)
     else (hashes, mutation))"
  by pat_completeness auto
termination by (relation "measure (\<lambda>(_, hashes, _). length hashes)") auto

declare ComputeMerkleRoot_loop.simps [simp del]

text \<open>The root, and what is stored through the pointer \<open>mutated\<close>.\<close>

definition ComputeMerkleRoot :: "crypto_fns \<Rightarrow> uint256 list \<Rightarrow> uint256 \<times> bool" where
  "ComputeMerkleRoot c hashes =
    (let (hashes, mutation) = ComputeMerkleRoot_loop c hashes False
     in (if length hashes = 0 then uint256_ZERO else hashes ! 0, mutation))"

definition BlockMerkleRoot :: "crypto_fns \<Rightarrow> CTransaction list \<Rightarrow> uint256 \<times> bool" where
  "BlockMerkleRoot c vtx = ComputeMerkleRoot c (map (tx_GetHash (CHash256 c)) vtx)"

section \<open>Partial Merkle trees\<close>

definition BitsToBytes :: "bool list \<Rightarrow> byte list" where
  "BitsToBytes bits = map (\<lambda>k. fold (\<lambda>p b. b OR push_bit (p mod 8) (of_bool (bits ! p)))
     (filter (\<lambda>p. p div 8 = k) [0..<length bits]) 0) [0..<(length bits + 7) div 8]"

definition BytesToBits :: "byte list \<Rightarrow> bool list" where
  "BytesToBits bytes = map (\<lambda>p. bytes ! (p div 8) AND push_bit (p mod 8) 1 \<noteq> 0) [0..<length bytes * 8]"

record CPartialMerkleTree =
  nTransactions :: nat
  vBits :: "bool list"
  vHash :: "uint256 list"
  fBad :: bool

definition CalcTreeWidth :: "nat \<Rightarrow> nat \<Rightarrow> nat" where
  "CalcTreeWidth nTx height = (nTx + 2 ^ height - 1) div 2 ^ height"

fun CalcHash :: "crypto_fns \<Rightarrow> nat \<Rightarrow> nat \<Rightarrow> nat \<Rightarrow> uint256 list \<Rightarrow> uint256" where
  "CalcHash c nTx 0 pos vTxid = vTxid ! pos"
| "CalcHash c nTx (Suc height) pos vTxid =
    (let left = CalcHash c nTx height (pos * 2) vTxid;
         right = (if pos * 2 + 1 < CalcTreeWidth nTx height then CalcHash c nTx height (pos * 2 + 1) vTxid else left)
     in Hash2 c left right)"

text \<open>The transactions below a node.\<close>

definition node_range :: "nat \<Rightarrow> nat \<Rightarrow> nat \<Rightarrow> nat list" where
  "node_range nTx height pos = [pos * 2 ^ height..<min ((pos + 1) * 2 ^ height) nTx]"

definition fParentOfMatch :: "nat \<Rightarrow> nat \<Rightarrow> nat \<Rightarrow> bool list \<Rightarrow> bool" where
  "fParentOfMatch nTx height pos vMatch \<longleftrightarrow> (\<exists>p \<in> set (node_range nTx height pos). vMatch ! p)"

fun TraverseAndBuild :: "crypto_fns \<Rightarrow> nat \<Rightarrow> nat \<Rightarrow> uint256 list \<Rightarrow> bool list \<Rightarrow> CPartialMerkleTree \<Rightarrow> CPartialMerkleTree" where
  "TraverseAndBuild c 0 pos vTxid vMatch t =
    t\<lparr>vBits := vBits t @ [fParentOfMatch (nTransactions t) 0 pos vMatch], vHash := vHash t @ [CalcHash c (nTransactions t) 0 pos vTxid]\<rparr>"
| "TraverseAndBuild c (Suc height) pos vTxid vMatch t =
    (let parent = fParentOfMatch (nTransactions t) (Suc height) pos vMatch;
         t = t\<lparr>vBits := vBits t @ [parent]\<rparr>
     in if \<not> parent then t\<lparr>vHash := vHash t @ [CalcHash c (nTransactions t) (Suc height) pos vTxid]\<rparr>
        else let t = TraverseAndBuild c height (pos * 2) vTxid vMatch t
             in if pos * 2 + 1 < CalcTreeWidth (nTransactions t) height
                then TraverseAndBuild c height (pos * 2 + 1) vTxid vMatch t else t)"

text \<open>The smallest height with one node.\<close>

lemma CalcTreeWidth_le_1: "CalcTreeWidth n h \<le> 1 \<longleftrightarrow> n \<le> 2 ^ h"
proof -
  have "CalcTreeWidth n h < 2 \<longleftrightarrow> n + 2 ^ h - 1 < 2 * 2 ^ h" unfolding CalcTreeWidth_def by (rule div_less_iff_less_mult) simp
  then show ?thesis by (auto simp: less_Suc_eq_le [symmetric] numeral_2_eq_2)
qed

function nHeight_loop :: "nat \<Rightarrow> nat \<Rightarrow> nat" where
  "nHeight_loop nTx nHeight = (if CalcTreeWidth nTx nHeight > 1 then nHeight_loop nTx (nHeight + 1) else nHeight)"
  by pat_completeness auto
termination
proof (relation "measure (\<lambda>(nTx, nHeight). nTx - nHeight)")
  fix nTx nHeight :: nat
  assume "CalcTreeWidth nTx nHeight > 1"
  then have "2 ^ nHeight < nTx" using CalcTreeWidth_le_1 [of nTx nHeight] by linarith
  then have "nHeight < nTx" using less_exp [of nHeight] by linarith
  then show "((nTx, nHeight + 1), (nTx, nHeight)) \<in> measure (\<lambda>(nTx, nHeight). nTx - nHeight)" by simp
qed simp

declare nHeight_loop.simps [simp del]

text \<open>\<open>None\<close> is the failed assertion of \<open>CalcHash\<close> when there is no transaction.\<close>

definition build_tree :: "crypto_fns \<Rightarrow> uint256 list \<Rightarrow> bool list \<Rightarrow> CPartialMerkleTree option" where
  "build_tree c vTxid vMatch =
    (if length vTxid = 0 then None
     else Some (TraverseAndBuild c (nHeight_loop (length vTxid) 0) 0 vTxid vMatch
       \<lparr>nTransactions = length vTxid, vBits = [], vHash = [], fBad = False\<rparr>))"

text \<open>What the extraction changes: the counters, the matches with their positions, and the flag \<open>fBad\<close>.\<close>

record ExtractState =
  nBitsUsed :: nat
  nHashUsed :: nat
  x_vMatch :: "uint256 list"
  x_vnIndex :: "nat list"
  x_fBad :: bool

fun TraverseAndExtract :: "crypto_fns \<Rightarrow> CPartialMerkleTree \<Rightarrow> nat \<Rightarrow> nat \<Rightarrow> ExtractState \<Rightarrow> uint256 \<times> ExtractState" where
  "TraverseAndExtract c t 0 pos st =
    (if nBitsUsed st \<ge> length (vBits t) then (uint256_ZERO, st\<lparr>x_fBad := True\<rparr>)
     else let parent = vBits t ! nBitsUsed st; st = st\<lparr>nBitsUsed := nBitsUsed st + 1\<rparr>
          in if nHashUsed st \<ge> length (vHash t) then (uint256_ZERO, st\<lparr>x_fBad := True\<rparr>)
             else let hash = vHash t ! nHashUsed st; st = st\<lparr>nHashUsed := nHashUsed st + 1\<rparr>
                  in (hash, if parent then st\<lparr>x_vMatch := x_vMatch st @ [hash], x_vnIndex := x_vnIndex st @ [pos]\<rparr> else st))"
| "TraverseAndExtract c t (Suc height) pos st =
    (if nBitsUsed st \<ge> length (vBits t) then (uint256_ZERO, st\<lparr>x_fBad := True\<rparr>)
     else let parent = vBits t ! nBitsUsed st; st = st\<lparr>nBitsUsed := nBitsUsed st + 1\<rparr>
          in if \<not> parent then
               (if nHashUsed st \<ge> length (vHash t) then (uint256_ZERO, st\<lparr>x_fBad := True\<rparr>)
                else (vHash t ! nHashUsed st, st\<lparr>nHashUsed := nHashUsed st + 1\<rparr>))
             else let (left, st) = TraverseAndExtract c t height (pos * 2) st
                  in if pos * 2 + 1 < CalcTreeWidth (nTransactions t) height then
                       (let (right, st) = TraverseAndExtract c t height (pos * 2 + 1) st;
                            st = (if right = left then st\<lparr>x_fBad := True\<rparr> else st)
                        in (Hash2 c left right, st))
                     else (Hash2 c left left, st))"

abbreviation (input) MAX_DIP0001_BLOCK_SIZE :: nat where "MAX_DIP0001_BLOCK_SIZE \<equiv> 2000000"
abbreviation (input) MAX_LEGACY_BLOCK_SIZE :: nat where "MAX_LEGACY_BLOCK_SIZE \<equiv> 1000000"

definition MaxBlockSize :: "bool \<Rightarrow> nat" where
  "MaxBlockSize fDIP0001Active = (if fDIP0001Active then MAX_DIP0001_BLOCK_SIZE else MAX_LEGACY_BLOCK_SIZE)"

text \<open>The result with the two output vectors; the vector of positions is not cleared first.\<close>

definition ExtractMatches :: "crypto_fns \<Rightarrow> CPartialMerkleTree \<Rightarrow> nat list \<Rightarrow> uint256 \<times> uint256 list \<times> nat list" where
  "ExtractMatches c t vnIndex =
    (if nTransactions t = 0 then (uint256_ZERO, [], vnIndex)
     else if nTransactions t > MaxBlockSize True div 60 then (uint256_ZERO, [], vnIndex)
     else if length (vHash t) > nTransactions t then (uint256_ZERO, [], vnIndex)
     else if length (vBits t) < length (vHash t) then (uint256_ZERO, [], vnIndex)
     else let (root, st) = TraverseAndExtract c t (nHeight_loop (nTransactions t) 0) 0
                \<lparr>nBitsUsed = 0, nHashUsed = 0, x_vMatch = [], x_vnIndex = vnIndex, x_fBad = fBad t\<rparr>
          in (if x_fBad st \<or> (nBitsUsed st + 7) div 8 \<noteq> (length (vBits t) + 7) div 8 \<or> nHashUsed st \<noteq> length (vHash t)
              then uint256_ZERO else root, x_vMatch st, x_vnIndex st))"

section \<open>Levels of the tree\<close>

definition levels :: "crypto_fns \<Rightarrow> uint256 list \<Rightarrow> nat \<Rightarrow> uint256 list" where
  "levels c v h = (merkle_level c ^^ h) v"

lemma levels_simps [simp]: "levels c v 0 = v" "levels c v (Suc h) = merkle_level c (levels c v h)"
  by (simp_all add: levels_def)

lemma CalcTreeWidth_0 [simp]: "CalcTreeWidth n 0 = n"
  by (simp add: CalcTreeWidth_def)

lemma CalcTreeWidth_Suc: "CalcTreeWidth n (Suc h) = (CalcTreeWidth n h + 1) div 2"
proof -
  have "(1 :: nat) \<le> 2 ^ h" by simp
  then have "n + 2 ^ Suc h - 1 = n + 2 ^ h - 1 + 2 ^ h" by simp
  then have "(n + 2 ^ Suc h - 1) div 2 ^ Suc h = ((n + 2 ^ h - 1 + 2 ^ h) div 2 ^ h) div 2"
    by (simp only: power_Suc mult.commute [of 2] div_mult2_eq)
  also have "(n + 2 ^ h - 1 + 2 ^ h) div 2 ^ h = (n + 2 ^ h - 1) div 2 ^ h + 1" by (rule div_add_self2) simp
  finally show ?thesis by (simp add: CalcTreeWidth_def)
qed

lemma length_levels [simp]: "length (levels c v h) = CalcTreeWidth (length v) h"
  by (induction h) (simp_all add: CalcTreeWidth_Suc)

lemma level_pairs_nth:
  "i < (length hs + 1) div 2 \<Longrightarrow> level_pairs hs ! i = (hs ! (2 * i), if 2 * i + 1 < length hs then hs ! (2 * i + 1) else hs ! (2 * i))"
proof (induction hs arbitrary: i rule: level_pairs.induct)
  case (3 x y hs)
  then show ?case by (cases i) auto
qed auto

lemma level_mutation_iff: "level_mutation hs \<longleftrightarrow> (\<exists>i. 2 * i + 1 < length hs \<and> hs ! (2 * i) = hs ! (2 * i + 1))"
proof (induction hs rule: level_mutation.induct)
  case (1 x y hs)
  have "(\<exists>i. 2 * i + 1 < length (x # y # hs) \<and> (x # y # hs) ! (2 * i) = (x # y # hs) ! (2 * i + 1)) \<longleftrightarrow>
      x = y \<or> (\<exists>i. 2 * i + 1 < length hs \<and> hs ! (2 * i) = hs ! (2 * i + 1))" (is "(\<exists>i. ?P i) \<longleftrightarrow> _ \<or> (\<exists>i. ?Q i)")
  proof -
    have "?P 0 \<longleftrightarrow> x = y" "?P (Suc i) \<longleftrightarrow> ?Q i" for i by simp_all
    then show ?thesis by (metis not0_implies_Suc)
  qed
  then show ?case using 1 by simp
qed auto

text \<open>\<open>CalcHash\<close> computes the nodes of the levels.\<close>

lemma CalcHash_levels: "pos < CalcTreeWidth (length v) h \<Longrightarrow> CalcHash c (length v) h pos v = levels c v h ! pos"
proof (induction h arbitrary: pos)
  case (Suc h)
  then have pos: "pos < (CalcTreeWidth (length v) h + 1) div 2" "2 * pos < CalcTreeWidth (length v) h"
    by (auto simp: CalcTreeWidth_Suc)
  then show ?case using Suc.IH by (simp add: merkle_level_def level_pairs_nth Let_def mult.commute [of pos])
qed simp

lemma nHeight_loop_stop: "\<not> CalcTreeWidth n h > 1 \<Longrightarrow> nHeight_loop n h = h"
  by (simp add: nHeight_loop.simps)

lemma nHeight_loop_width: "CalcTreeWidth n (nHeight_loop n h) \<le> 1"
  by (induction n h rule: nHeight_loop.induct) (metis nHeight_loop.simps not_le)

lemma nHeight_loop_ge: "h \<le> nHeight_loop n h"
proof (induction n h rule: nHeight_loop.induct)
  case (1 n h)
  then show ?case by (cases "CalcTreeWidth n h > 1") (simp_all add: nHeight_loop.simps [of n h])
qed

lemma CalcTreeWidth_pos: "0 < n \<Longrightarrow> 0 < CalcTreeWidth n h"
  by (induction h) (simp_all add: CalcTreeWidth_Suc)

lemma width_nHeight: "0 < n \<Longrightarrow> CalcTreeWidth n (nHeight_loop n 0) = 1"
  using nHeight_loop_width [of n 0] CalcTreeWidth_pos [of n "nHeight_loop n 0"] by linarith

lemma ComputeMerkleRoot_loop_levels:
  "ComputeMerkleRoot_loop c (levels c v h) m =
    (levels c v (nHeight_loop (length v) h), m \<or> (\<exists>k \<ge> h. k < nHeight_loop (length v) h \<and> level_mutation (levels c v k)))"
proof (induction "length v" h arbitrary: m rule: nHeight_loop.induct)
  case (1 h)
  show ?case
  proof (cases "CalcTreeWidth (length v) h > 1")
    case True
    then have lp: "nHeight_loop (length v) h = nHeight_loop (length v) (Suc h)" by (simp add: nHeight_loop.simps [of _ h])
    have "Suc h \<le> nHeight_loop (length v) (Suc h)" by (rule nHeight_loop_ge)
    then have "(\<exists>k \<ge> h. k < nHeight_loop (length v) (Suc h) \<and> level_mutation (levels c v k)) \<longleftrightarrow>
        level_mutation (levels c v h) \<or> (\<exists>k \<ge> Suc h. k < nHeight_loop (length v) (Suc h) \<and> level_mutation (levels c v k))"
      by (metis Suc_le_eq le_eq_less_or_eq)
    then show ?thesis using 1 True lp by (subst ComputeMerkleRoot_loop.simps) auto
  next
    case False
    then show ?thesis by (subst ComputeMerkleRoot_loop.simps) (auto simp: nHeight_loop_stop)
  qed
qed

lemma ComputeMerkleRoot_levels:
  assumes "v \<noteq> []"
  shows "ComputeMerkleRoot c v = (CalcHash c (length v) (nHeight_loop (length v) 0) 0 v,
    \<exists>k < nHeight_loop (length v) 0. level_mutation (levels c v k))"
proof -
  have len: "CalcTreeWidth (length v) (nHeight_loop (length v) 0) = 1" using assms by (intro width_nHeight) simp
  then have "levels c v (nHeight_loop (length v) 0) \<noteq> []" by (metis length_levels list.size(3) zero_neq_one)
  then show ?thesis
    using ComputeMerkleRoot_loop_levels [of c v 0 False] len by (simp add: ComputeMerkleRoot_def CalcHash_levels)
qed

section \<open>What a root commits to\<close>

text \<open>The pairs hashed to compute the root.\<close>

definition merkle_pairs :: "crypto_fns \<Rightarrow> uint256 list \<Rightarrow> (uint256 \<times> uint256) list" where
  "merkle_pairs c v = concat (map (\<lambda>h. level_pairs (levels c v h)) [0..<nHeight_loop (length v) 0])"

definition hash_pair :: "crypto_fns \<Rightarrow> uint256 \<times> uint256 \<Rightarrow> uint256" where
  "hash_pair c p = Hash2 c (fst p) (snd p)"

lemma merkle_level_pairs: "merkle_level c hs = map (hash_pair c) (level_pairs hs)"
  by (simp add: merkle_level_def hash_pair_def case_prod_unfold)

lemma level_pairs_inj:
  "level_pairs xs = level_pairs ys \<Longrightarrow> \<not> level_mutation xs \<Longrightarrow> \<not> level_mutation ys \<Longrightarrow> xs = ys"
proof (induction xs arbitrary: ys rule: level_pairs.induct)
  case 1
  then show ?case by (cases ys rule: level_pairs.cases) auto
next
  case (2 x)
  then show ?case
  proof (cases ys rule: level_pairs.cases)
    case (3 a b r)
    then have "level_pairs r = []" "a = b" using 2 by auto
    then show ?thesis using 2 3 by auto
  qed auto
next
  case (3 x y xs)
  then show ?case
  proof (cases ys rule: level_pairs.cases)
    case (2 a)
    then show ?thesis using 3 by auto
  next
    case (3 a b r)
    then show ?thesis using 3 "3.IH" [of r] "3.prems" by auto
  qed auto
qed

lemma levels_descend:
  assumes "levels c xs (Suc a) = levels c ys (Suc b)" "\<not> level_mutation (levels c xs a)" "\<not> level_mutation (levels c ys b)"
    and "inj_on (hash_pair c) (set (level_pairs (levels c xs a)) \<union> set (level_pairs (levels c ys b)))"
  shows "levels c xs a = levels c ys b"
proof -
  have "map (hash_pair c) (level_pairs (levels c xs a)) = map (hash_pair c) (level_pairs (levels c ys b))"
    using assms(1) by (simp add: merkle_level_pairs)
  then have "level_pairs (levels c xs a) = level_pairs (levels c ys b)"
    using assms(4) by (rule map_inj_on)
  then show ?thesis using assms(2,3) by (rule level_pairs_inj)
qed

lemma ComputeMerkleRoot_unmutated:
  assumes "v \<noteq> []" "ComputeMerkleRoot c v = (root, False)"
  shows "levels c v (nHeight_loop (length v) 0) = [root]" "k < nHeight_loop (length v) 0 \<Longrightarrow> \<not> level_mutation (levels c v k)"
proof -
  have w: "CalcTreeWidth (length v) (nHeight_loop (length v) 0) = 1" using assms(1) by (intro width_nHeight) simp
  then have "levels c v (nHeight_loop (length v) 0) ! 0 = root"
    using assms by (auto simp: ComputeMerkleRoot_levels CalcHash_levels)
  then show "levels c v (nHeight_loop (length v) 0) = [root]" using w by (intro nth_equalityI) simp_all
  show "k < nHeight_loop (length v) 0 \<Longrightarrow> \<not> level_mutation (levels c v k)" using assms by (auto simp: ComputeMerkleRoot_levels)
qed


text \<open>For the witness, a function in place of the hash that keeps what it is given.\<close>

definition keep_crypto :: crypto_fns where
  "keep_crypto = demo_crypto\<lparr>SHA256 := \<lambda>x. x\<rparr>"

lemma nHeight_3: "nHeight_loop (Suc (Suc (Suc 0))) 0 = Suc (Suc 0)"
proof -
  let ?n = "Suc (Suc (Suc 0))"
  have "CalcTreeWidth ?n (Suc 0) = 2" "CalcTreeWidth ?n (Suc (Suc 0)) = 1" by (simp_all add: CalcTreeWidth_def)
  then show ?thesis
    using nHeight_loop.simps [of ?n 0] nHeight_loop.simps [of ?n "Suc 0"] nHeight_loop.simps [of ?n "Suc (Suc 0)"] by simp
qed

lemma Hash2_keep: "Hash2 keep_crypto l r = l @ r"
  by (simp add: Hash2_def CHash256_def keep_crypto_def)

lemma keep_crypto_pairs:
  "merkle_pairs keep_crypto [[1], [2], [3]] = [([1], [2]), ([3], [3]), ([1, 2], [3, 3])]"
proof -
  have "[0..<Suc (Suc 0)] = [0, Suc 0]" by simp
  then show ?thesis by (simp add: merkle_pairs_def nHeight_3 merkle_level_def Hash2_keep)
qed

lemma nHeight_2_4: "nHeight_loop 2 0 = 1" "nHeight_loop 4 0 = 2"
proof -
  have "CalcTreeWidth 2 0 = 2" "CalcTreeWidth 2 1 = 1" "CalcTreeWidth 4 0 = 4" "CalcTreeWidth 4 1 = 2" "CalcTreeWidth 4 2 = 1"
    by (simp_all add: CalcTreeWidth_def)
  then show "nHeight_loop 2 0 = 1" "nHeight_loop 4 0 = 2"
    using nHeight_loop.simps [of 2 0] nHeight_loop.simps [of 2 1] nHeight_loop.simps [of 4 0] nHeight_loop.simps [of 4 1] nHeight_loop.simps [of 4 2]
    by (simp_all add: numeral_2_eq_2)
qed

definition four_ids :: "uint256 list" where
  "four_ids = [[1], [2], [3], [4]]"

definition two_nodes :: "uint256 list" where
  "two_nodes = [[1, 2], [3, 4]]"

lemma four_two_roots:
  "ComputeMerkleRoot keep_crypto four_ids = ([1, 2, 3, 4], False)" "ComputeMerkleRoot keep_crypto two_nodes = ([1, 2, 3, 4], False)"
  by (simp_all add: four_ids_def two_nodes_def ComputeMerkleRoot_def ComputeMerkleRoot_loop.simps merkle_level_def Hash2_keep)

lemma four_two_pairs:
  "merkle_pairs keep_crypto four_ids = [([1], [2]), ([3], [4]), ([1, 2], [3, 4])]" "merkle_pairs keep_crypto two_nodes = [([1, 2], [3, 4])]"
proof -
  have l: "length four_ids = 4" "length two_nodes = 2" by (simp_all add: four_ids_def two_nodes_def)
  have u: "[0..<2] = [0, Suc 0]" "[0..<1] = [0]" by (simp_all add: upt_rec)
  show "merkle_pairs keep_crypto four_ids = [([1], [2]), ([3], [4]), ([1, 2], [3, 4])]" "merkle_pairs keep_crypto two_nodes = [([1, 2], [3, 4])]"
    unfolding merkle_pairs_def l nHeight_2_4 u by (simp_all add: merkle_level_def Hash2_keep four_ids_def two_nodes_def)
qed


end
