(* ===== verification/Partial_Merkle.thy ===== *)
theory Partial_Merkle
  imports Merkle
begin

text \<open>
  Partial Merkle trees: extracting from a tree built for a block returns the Merkle root and the selected transactions, and what is extracted from any tree with the root
  of a block are transactions of that block.
\<close>

section \<open>Ranges of nodes\<close>

lemma CalcTreeWidth_gt: "pos < CalcTreeWidth n h \<longleftrightarrow> pos * 2 ^ h < n"
proof (induction h arbitrary: pos)
  case (Suc h)
  have "pos < (CalcTreeWidth n h + 1) div 2 \<longleftrightarrow> pos * 2 < CalcTreeWidth n h" by linarith
  then show ?case using Suc [of "pos * 2"] by (simp add: CalcTreeWidth_Suc ac_simps)
qed simp

lemma upt_split: "i \<le> j \<Longrightarrow> j \<le> k \<Longrightarrow> [i..<k] = [i..<j] @ [j..<k]"
  by (metis le_Suc_ex upt_add_eq_append)

lemma node_range_Suc:
  assumes "pos < CalcTreeWidth n (Suc h)"
  shows "node_range n (Suc h) pos = node_range n h (pos * 2) @ (if pos * 2 + 1 < CalcTreeWidth n h then node_range n h (pos * 2 + 1) else [])"
proof -
  define a b where "a = (2 :: nat) ^ h" and "b = pos * 2 * a"
  have r: "node_range n (Suc h) pos = [b..<min (b + 2 * a) n]" "node_range n h (pos * 2) = [b..<min (b + a) n]"
    "node_range n h (pos * 2 + 1) = [b + a..<min (b + 2 * a) n]"
    by (simp_all add: node_range_def a_def b_def algebra_simps)
  have w: "b < n" "pos * 2 + 1 < CalcTreeWidth n h \<longleftrightarrow> b + a < n"
    using assms by (simp_all add: CalcTreeWidth_gt a_def b_def algebra_simps)
  show ?thesis
    unfolding r w(2) using w(1) upt_split [of b "b + a" "min (b + 2 * a) n"] by (auto simp: min_def)
qed

lemma node_range_ne: "pos < CalcTreeWidth n h \<Longrightarrow> node_range n h pos \<noteq> []"
  by (simp add: node_range_def CalcTreeWidth_gt min_def)

lemma fParentOfMatch_iff: "fParentOfMatch n h pos m \<longleftrightarrow> filter (\<lambda>p. m ! p) (node_range n h pos) \<noteq> []"
  by (auto simp: fParentOfMatch_def filter_empty_conv)

section \<open>What is built\<close>

fun node_bits :: "nat \<Rightarrow> bool list \<Rightarrow> nat \<Rightarrow> nat \<Rightarrow> bool list" where
  "node_bits n m 0 pos = [fParentOfMatch n 0 pos m]"
| "node_bits n m (Suc h) pos =
    (if fParentOfMatch n (Suc h) pos m
     then True # node_bits n m h (pos * 2) @ (if pos * 2 + 1 < CalcTreeWidth n h then node_bits n m h (pos * 2 + 1) else [])
     else [False])"

fun node_hashes :: "crypto_fns \<Rightarrow> uint256 list \<Rightarrow> nat \<Rightarrow> bool list \<Rightarrow> nat \<Rightarrow> nat \<Rightarrow> uint256 list" where
  "node_hashes c v n m 0 pos = [CalcHash c n 0 pos v]"
| "node_hashes c v n m (Suc h) pos =
    (if fParentOfMatch n (Suc h) pos m
     then node_hashes c v n m h (pos * 2) @ (if pos * 2 + 1 < CalcTreeWidth n h then node_hashes c v n m h (pos * 2 + 1) else [])
     else [CalcHash c n (Suc h) pos v])"

lemma TraverseAndBuild_lists:
  "TraverseAndBuild c h pos v m t =
    t\<lparr>vBits := vBits t @ node_bits (nTransactions t) m h pos, vHash := vHash t @ node_hashes c v (nTransactions t) m h pos\<rparr>"
  by (induction h arbitrary: pos t) (simp_all add: Let_def)

lemma length_node_lists:
  assumes "pos < CalcTreeWidth n h"
  shows "length (node_hashes c v n m h pos) \<le> length (node_range n h pos)"
    "length (node_hashes c v n m h pos) \<le> length (node_bits n m h pos)"
proof -
  show "length (node_hashes c v n m h pos) \<le> length (node_range n h pos)"
    using assms
  proof (induction h arbitrary: pos)
    case 0
    then show ?case using node_range_ne [of pos n 0] by (cases "node_range n 0 pos") auto
  next
    case (Suc h)
    have "pos * 2 < CalcTreeWidth n h" using Suc.prems by (auto simp: CalcTreeWidth_Suc)
    then have "length (node_hashes c v n m h (pos * 2)) \<le> length (node_range n h (pos * 2))"
      "0 < length (node_range n h (pos * 2))" using Suc.IH node_range_ne by auto
    then show ?case using Suc.IH [of "pos * 2 + 1"] by (auto simp: node_range_Suc [OF Suc.prems] Suc_le_eq)
  qed
  show "length (node_hashes c v n m h pos) \<le> length (node_bits n m h pos)"
    by (induction h arbitrary: pos) (auto intro: add_mono le_SucI)
qed

section \<open>Extracting what was built\<close>

definition no_equal_siblings :: "crypto_fns \<Rightarrow> uint256 list \<Rightarrow> nat \<Rightarrow> bool" where
  "no_equal_siblings c v h \<longleftrightarrow> (\<forall>k < h. \<forall>pos. pos * 2 + 1 < CalcTreeWidth (length v) k \<longrightarrow>
     CalcHash c (length v) k (pos * 2) v \<noteq> CalcHash c (length v) k (pos * 2 + 1) v)"

lemma no_equal_siblings_unmutated:
  assumes "\<And>k. k < h \<Longrightarrow> \<not> level_mutation (levels c v k)"
  shows "no_equal_siblings c v h"
  using assms by (auto simp: no_equal_siblings_def CalcHash_levels level_mutation_iff mult.commute [of _ 2])

text \<open>The state after the extraction of a node.\<close>

definition extracted :: "crypto_fns \<Rightarrow> uint256 list \<Rightarrow> bool list \<Rightarrow> nat \<Rightarrow> nat \<Rightarrow> ExtractState \<Rightarrow> ExtractState" where
  "extracted c v m h pos st =
    (let n = length v; hits = filter (\<lambda>p. m ! p) (node_range n h pos)
     in st\<lparr>nBitsUsed := nBitsUsed st + length (node_bits n m h pos), nHashUsed := nHashUsed st + length (node_hashes c v n m h pos),
           x_vMatch := x_vMatch st @ map (\<lambda>p. v ! p) hits, x_vnIndex := x_vnIndex st @ hits\<rparr>)"

lemma nth_drop_Cons: "drop i xs = y # ys \<Longrightarrow> i < length xs \<and> xs ! i = y \<and> drop (Suc i) xs = ys"
  by (metis Cons_nth_drop_Suc drop_eq_Nil2 linorder_not_less list.distinct(1) list.inject)

lemma drop_more: "drop i xs = ys @ zs \<Longrightarrow> drop (i + length ys) xs = zs"
  by (metis append_eq_conv_conj drop_drop add.commute)

lemma extract_built:
  assumes "nTransactions t = length v" "pos < CalcTreeWidth (length v) h" "no_equal_siblings c v h"
    and "drop (nBitsUsed st) (vBits t) = node_bits (length v) m h pos @ bs"
    and "drop (nHashUsed st) (vHash t) = node_hashes c v (length v) m h pos @ hs"
  shows "TraverseAndExtract c t h pos st = (CalcHash c (length v) h pos v, extracted c v m h pos st)"
  using assms(2-)
proof (induction h arbitrary: pos st bs hs)
  case 0
  let ?n = "length v"
  have b: "nBitsUsed st < length (vBits t)" "vBits t ! nBitsUsed st = fParentOfMatch ?n 0 pos m"
    using nth_drop_Cons [of "nBitsUsed st" "vBits t"] 0(3) by auto
  have h: "nHashUsed st < length (vHash t)" "vHash t ! nHashUsed st = v ! pos"
    using nth_drop_Cons [of "nHashUsed st" "vHash t"] 0(4) by auto
  have r: "node_range ?n 0 pos = [pos]" using 0(1) by (simp add: node_range_def)
  show ?case using b h by (auto simp: extracted_def Let_def r fParentOfMatch_def)
next
  case (Suc h)
  let ?n = "length v" and ?st1 = "st\<lparr>nBitsUsed := nBitsUsed st + 1\<rparr>"
  have b: "nBitsUsed st < length (vBits t)" "vBits t ! nBitsUsed st = fParentOfMatch ?n (Suc h) pos m"
    using nth_drop_Cons [of "nBitsUsed st" "vBits t"] Suc(4) by (auto split: if_splits)
  have sib: "no_equal_siblings c v h" using Suc(3) by (auto simp: no_equal_siblings_def)
  have p2: "pos * 2 < CalcTreeWidth ?n h" using Suc(2) by (auto simp: CalcTreeWidth_Suc)
  show ?case
  proof (cases "fParentOfMatch ?n (Suc h) pos m")
    case False
    then have none: "filter (\<lambda>p. m ! p) (node_range ?n (Suc h) pos) = []" by (simp add: fParentOfMatch_iff)
    have "nHashUsed st < length (vHash t)" "vHash t ! nHashUsed st = CalcHash c ?n (Suc h) pos v"
      using nth_drop_Cons [of "nHashUsed st" "vHash t"] Suc(5) False by auto
    then show ?thesis using b False none by (simp add: extracted_def Let_def)
  next
    case True
    have db: "drop (nBitsUsed ?st1) (vBits t) = node_bits ?n m h (pos * 2) @
        (if pos * 2 + 1 < CalcTreeWidth ?n h then node_bits ?n m h (pos * 2 + 1) else []) @ bs"
      using nth_drop_Cons [of "nBitsUsed st" "vBits t"] Suc(4) True by simp
    have dh: "drop (nHashUsed ?st1) (vHash t) = node_hashes c v ?n m h (pos * 2) @
        (if pos * 2 + 1 < CalcTreeWidth ?n h then node_hashes c v ?n m h (pos * 2 + 1) else []) @ hs"
      using Suc(5) True by simp
    define st2 where "st2 = extracted c v m h (pos * 2) ?st1"
    have left: "TraverseAndExtract c t h (pos * 2) ?st1 = (CalcHash c ?n h (pos * 2) v, st2)"
      unfolding st2_def by (rule Suc.IH [OF p2 sib db dh])
    have st2: "nBitsUsed st2 = nBitsUsed ?st1 + length (node_bits ?n m h (pos * 2))"
      "nHashUsed st2 = nHashUsed ?st1 + length (node_hashes c v ?n m h (pos * 2))"
      by (simp_all add: st2_def extracted_def Let_def)
    show ?thesis
    proof (cases "pos * 2 + 1 < CalcTreeWidth ?n h")
      case r: True
      have "TraverseAndExtract c t h (pos * 2 + 1) st2 = (CalcHash c ?n h (pos * 2 + 1) v, extracted c v m h (pos * 2 + 1) st2)"
        using drop_more [OF db] drop_more [OF dh] st2 r by (intro Suc.IH [OF r sib]) simp_all
      moreover have "CalcHash c ?n h (pos * 2 + 1) v \<noteq> CalcHash c ?n h (pos * 2) v"
        using Suc(3) r unfolding no_equal_siblings_def by (metis lessI)
      ultimately show ?thesis
        using b True left r assms(1) node_range_Suc [OF Suc(2)] by (simp add: extracted_def st2_def Let_def)
    next
      case False
      then show ?thesis
        using b True left assms(1) node_range_Suc [OF Suc(2)] by (simp add: extracted_def st2_def Let_def)
    qed
  qed
qed

text \<open>
  C27. From the partial tree built for the transactions of a block and any selection of them, extraction returns the Merkle root of the block together with exactly the
  selected transaction ids and their positions, in order, unless the Merkle computation flags the list as mutated.
\<close>

theorem ExtractMatches_built:
  assumes "vTxid \<noteq> []" "length vTxid \<le> 33333" "snd (ComputeMerkleRoot c vTxid) = False"
  shows "\<exists>t. build_tree c vTxid vMatch = Some t \<and>
    ExtractMatches c t [] = (let hits = filter (\<lambda>p. vMatch ! p) [0..<length vTxid]
      in (fst (ComputeMerkleRoot c vTxid), map (\<lambda>p. vTxid ! p) hits, hits))"
proof -
  let ?n = "length vTxid" and ?H = "nHeight_loop (length vTxid) 0"
  define t where "t = \<lparr>nTransactions = ?n, vBits = node_bits ?n vMatch ?H 0, vHash = node_hashes c vTxid ?n vMatch ?H 0, fBad = False\<rparr>"
  define st where "st = \<lparr>nBitsUsed = 0, nHashUsed = 0, x_vMatch = [] :: uint256 list, x_vnIndex = [], x_fBad = False\<rparr>"
  have n: "0 < ?n" and w: "CalcTreeWidth ?n ?H = 1" using assms(1) width_nHeight by auto
  have "\<not> (\<exists>k < ?H. level_mutation (levels c vTxid k))" using assms(3) by (simp add: ComputeMerkleRoot_levels [OF assms(1)])
  then have sib: "no_equal_siblings c vTxid ?H" by (intro no_equal_siblings_unmutated) blast
  have x: "TraverseAndExtract c t ?H 0 st = (CalcHash c ?n ?H 0 vTxid, extracted c vTxid vMatch ?H 0 st)"
    using w sib by (intro extract_built [where bs = "[]" and hs = "[]"]) (simp_all add: t_def st_def)
  have "?n \<le> 2 ^ ?H" using w CalcTreeWidth_le_1 [of ?n ?H] by simp
  then have r: "node_range ?n ?H 0 = [0..<?n]" by (simp add: node_range_def min_def)
  have len: "length (vHash t) \<le> ?n" "length (vHash t) \<le> length (vBits t)"
    using length_node_lists [of 0 ?n ?H c vTxid vMatch] w r by (simp_all add: t_def)
  have tt: "nTransactions t = ?n" "fBad t = False" by (simp_all add: t_def)
  have "ExtractMatches c t [] = (let hits = filter (\<lambda>p. vMatch ! p) [0..<?n] in (CalcHash c ?n ?H 0 vTxid, map (\<lambda>p. vTxid ! p) hits, hits))"
    using x len assms(2) n unfolding ExtractMatches_def tt st_def [symmetric]
    by (simp add: MaxBlockSize_def extracted_def r Let_def) (simp add: st_def t_def)
  moreover have "build_tree c vTxid vMatch = Some t"
    using n by (simp add: build_tree_def TraverseAndBuild_lists t_def)
  ultimately show ?thesis using ComputeMerkleRoot_levels [OF assms(1), of c] by simp
qed

theorem ExtractMatches_built_witness:
  "snd (ComputeMerkleRoot keep_crypto [[1], [2], [3]]) = False \<and>
   (\<exists>t. build_tree keep_crypto [[1], [2], [3]] [False, False, True] = Some t \<and>
     ExtractMatches keep_crypto t [] = ([1, 2, 3, 3], [[3]], [2]))"
proof -
  have "ComputeMerkleRoot keep_crypto [[1], [2], [3]] = ([1, 2, 3, 3], False)"
    by (simp add: ComputeMerkleRoot_def ComputeMerkleRoot_loop.simps merkle_level_def Hash2_keep)
  moreover have "filter (\<lambda>p. [False, False, True] ! p) [0..<length [[1], [2], [3 :: byte]]] = [2]" by simp
  ultimately show ?thesis
    using ExtractMatches_built [of "[[1], [2], [3]]" keep_crypto "[False, False, True]"]
    by (simp add: Let_def numeral_2_eq_2)
qed

section \<open>What is extracted belongs to the block\<close>

text \<open>The pairs hashed by the extraction of a node.\<close>

fun extract_pairs :: "crypto_fns \<Rightarrow> CPartialMerkleTree \<Rightarrow> nat \<Rightarrow> nat \<Rightarrow> ExtractState \<Rightarrow> (uint256 \<times> uint256) set" where
  "extract_pairs c t 0 pos st = {}"
| "extract_pairs c t (Suc h) pos st =
    (if nBitsUsed st \<ge> length (vBits t) \<or> \<not> vBits t ! nBitsUsed st then {}
     else let st = st\<lparr>nBitsUsed := nBitsUsed st + 1\<rparr>; (left, st') = TraverseAndExtract c t h (pos * 2) st;
              right = (if pos * 2 + 1 < CalcTreeWidth (nTransactions t) h then fst (TraverseAndExtract c t h (pos * 2 + 1) st') else left)
          in insert (left, right) (extract_pairs c t h (pos * 2) st \<union>
               (if pos * 2 + 1 < CalcTreeWidth (nTransactions t) h then extract_pairs c t h (pos * 2 + 1) st' else {})))"

lemma bad_stays: "x_fBad st \<Longrightarrow> x_fBad (snd (TraverseAndExtract c t h pos st))"
proof (induction h arbitrary: pos st)
  case (Suc h)
  have "x_fBad st2" if "TraverseAndExtract c t h p st1 = (x, st2)" "x_fBad st1" for p st1 x st2
    using Suc.IH [of st1 p] that by simp
  then show ?case using Suc.prems by (auto simp: Let_def split: prod.splits)
qed (simp add: Let_def)

text \<open>The two children that a node of the block's tree is hashed from.\<close>

definition node_children :: "crypto_fns \<Rightarrow> uint256 list \<Rightarrow> nat \<Rightarrow> nat \<Rightarrow> uint256 \<times> uint256" where
  "node_children c v k pos = (let l = levels c v k in (l ! (pos * 2), if pos * 2 + 1 < length l then l ! (pos * 2 + 1) else l ! (pos * 2)))"

lemma node_children_hash:
  assumes "pos < CalcTreeWidth (length v) (Suc k)"
  shows "levels c v (Suc k) ! pos = hash_pair c (node_children c v k pos)"
    "k < nHeight_loop (length v) 0 \<Longrightarrow> node_children c v k pos \<in> set (merkle_pairs c v)"
proof -
  have pos: "pos < (length (levels c v k) + 1) div 2" using assms by (simp add: CalcTreeWidth_Suc)
  have eq: "node_children c v k pos = level_pairs (levels c v k) ! pos"
    by (simp add: node_children_def level_pairs_nth [OF pos] Let_def mult.commute [of pos])
  show "levels c v (Suc k) ! pos = hash_pair c (node_children c v k pos)" using pos by (simp add: merkle_level_pairs eq)
  have "level_pairs (levels c v k) ! pos \<in> set (level_pairs (levels c v k))" using pos by (intro nth_mem) simp
  then show "k < nHeight_loop (length v) 0 \<Longrightarrow> node_children c v k pos \<in> set (merkle_pairs c v)" by (auto simp: merkle_pairs_def eq)
qed

definition hits_ok :: "uint256 list \<Rightarrow> ExtractState \<Rightarrow> ExtractState \<Rightarrow> bool" where
  "hits_ok v st st' \<longleftrightarrow> (\<exists>ms is. x_vMatch st' = x_vMatch st @ ms \<and> x_vnIndex st' = x_vnIndex st @ is \<and>
     list_all2 (\<lambda>m i. i < length v \<and> v ! i = m) ms is)"

lemma hits_ok_refl: "x_vMatch st' = x_vMatch st \<Longrightarrow> x_vnIndex st' = x_vnIndex st \<Longrightarrow> hits_ok v st st'"
  by (auto simp: hits_ok_def)

lemma hits_ok_trans: "hits_ok v st st' \<Longrightarrow> hits_ok v st' st'' \<Longrightarrow> hits_ok v st st''"
  unfolding hits_ok_def using list_all2_appendI by fastforce

lemma extract_sound:
  assumes "\<And>k. k < nHeight_loop (length v) 0 \<Longrightarrow> \<not> level_mutation (levels c v k)"
    and "h + d \<le> nHeight_loop (length v) 0" "pos < CalcTreeWidth (length v) (h + d)"
    and "TraverseAndExtract c t h pos st = (levels c v (h + d) ! pos, st')" "\<not> x_fBad st'"
    and "inj_on (hash_pair c) (set (merkle_pairs c v) \<union> extract_pairs c t h pos st)"
  shows "hits_ok (levels c v d) st st'"
  using assms(2-)
proof (induction h arbitrary: pos st st')
  case 0
  then show ?case by (auto simp: hits_ok_def Let_def split: if_splits)
next
  case (Suc h)
  let ?L = "levels c v (h + d)" and ?st1 = "st\<lparr>nBitsUsed := nBitsUsed st + 1\<rparr>"
  show ?case
  proof (cases "nBitsUsed st \<ge> length (vBits t) \<or> \<not> vBits t ! nBitsUsed st")
    case True
    then show ?thesis using Suc.prems(3,4) by (auto intro!: hits_ok_refl simp: Let_def split: if_splits)
  next
    case False
    obtain left st2 where left: "TraverseAndExtract c t h (pos * 2) ?st1 = (left, st2)" by fastforce
    obtain right st3 where right: "TraverseAndExtract c t h (pos * 2 + 1) st2 = (right, st3)" by fastforce
    let ?two = "pos * 2 + 1 < CalcTreeWidth (nTransactions t) h"
    define r where "r = (if ?two then right else left)"
    have pairs: "extract_pairs c t (Suc h) pos st = insert (left, r) (extract_pairs c t h (pos * 2) ?st1 \<union>
        (if ?two then extract_pairs c t h (pos * 2 + 1) st2 else {}))"
      using False left right by (simp add: Let_def r_def)
    have res: "(Hash2 c left r, if ?two then (if right = left then st3\<lparr>x_fBad := True\<rparr> else st3) else st2) = (levels c v (Suc h + d) ! pos, st')"
      using Suc.prems(3) False left right by (auto simp: Let_def r_def)
    have pos: "pos < CalcTreeWidth (length v) (Suc (h + d))" "h + d < nHeight_loop (length v) 0" using Suc.prems(1,2) by simp_all
    have "hash_pair c (left, r) = hash_pair c (node_children c v (h + d) pos)"
      using res node_children_hash(1) [OF pos(1), of c] by (simp add: hash_pair_def)
    then have eq: "(left, r) = node_children c v (h + d) pos"
      using node_children_hash(2) [OF pos] pairs by (intro inj_onD [OF Suc.prems(5)]) auto
    have st': "x_vMatch st' = x_vMatch (if ?two then st3 else st2)" "x_vnIndex st' = x_vnIndex (if ?two then st3 else st2)"
      "\<not> x_fBad (if ?two then st3 else st2)" "?two \<longrightarrow> right \<noteq> left"
      using res Suc.prems(4) by (auto split: if_splits)
    have "\<not> (pos * 2 + 1 < length ?L \<and> ?L ! (pos * 2) = ?L ! (pos * 2 + 1))"
      using assms(1) [OF pos(2)] by (auto simp: level_mutation_iff mult.commute [of pos])
    then have two: "?two \<longleftrightarrow> pos * 2 + 1 < length ?L" and l: "left = ?L ! (pos * 2)" and r: "?two \<longrightarrow> right = ?L ! (pos * 2 + 1)"
      using eq st'(4) by (auto simp: node_children_def Let_def r_def split: if_splits)
    have bad2: "\<not> x_fBad st2" using st'(3) bad_stays [of st2 c t h "pos * 2 + 1"] right by (auto split: if_splits)
    have inj: "inj_on (hash_pair c) (set (merkle_pairs c v) \<union> extract_pairs c t h (pos * 2) ?st1)"
      "?two \<Longrightarrow> inj_on (hash_pair c) (set (merkle_pairs c v) \<union> extract_pairs c t h (pos * 2 + 1) st2)"
      using Suc.prems(5) unfolding pairs by (auto elim: inj_on_subset)
    have p2: "h + d \<le> nHeight_loop (length v) 0" "pos * 2 < CalcTreeWidth (length v) (h + d)" using pos by (auto simp: CalcTreeWidth_Suc)
    have one: "hits_ok (levels c v d) st st2" using Suc.IH [OF p2 _ bad2 inj(1)] left l by (simp add: hits_ok_def)
    have "?two \<Longrightarrow> hits_ok (levels c v d) st2 st3" using Suc.IH [OF p2(1) _ _ _ inj(2)] right r two st'(3) by simp
    then show ?thesis
      using one hits_ok_trans [of "levels c v d" st st2 st3] st'(1,2)
      by (auto simp: hits_ok_def [of _ st st'] hits_ok_def [of _ st st2] hits_ok_def [of _ st st3] split: if_splits)
  qed
qed


text \<open>A tree that claims two transactions for a block of four.\<close>

definition demo_pmt :: CPartialMerkleTree where
  "demo_pmt = \<lparr>nTransactions = 2, vBits = [True, True, False], vHash = [[1, 2], [3, 4]], fBad = False\<rparr>"


end
