(* ===== verification/Auxpow.thy ===== *)
theory Auxpow
  imports Pow Partial_Merkle
begin

text \<open>
  Merge mining (\<^verbatim>\<open>src/src/auxpow.h\<close> and \<^verbatim>\<open>.cpp\<close>): a block of this chain may carry the proof of work of a parent block of another chain, whose coinbase commits to
  the hash of the block. The header with its optional proof is from \<^verbatim>\<open>src/src/primitives/block.h\<close>, the check of a header's work from
  \<^verbatim>\<open>src/src/validation.cpp\<close>. Iterators into a script are the remaining bytes, so an iterator at the end is the empty list. The X11 hash of a header is a
  parameter; the log messages of failed checks are error values.
\<close>

unbundle bit_operations_syntax

section \<open>The data\<close>

definition pchMergedMiningHeader :: "byte list" where
  "pchMergedMiningHeader = [0x4f, 0x53, 0x4d, 0x41]"

record CAuxPow =
  coinbaseTx :: CTransaction
  vMerkleBranch :: "uint256 list"
  vChainMerkleBranch :: "uint256 list"
  nChainIndex :: int
  parentBlock :: CPureBlockHeader

record CBlockHeader = CPureBlockHeader +
  auxpow :: "CAuxPow option"

record aux_params = pow_params +
  nAuxpowChainId :: int
  fStrictChainId :: bool

datatype auxpow_error =
    Parent_has_our_chain_ID | Chain_merkle_branch_too_long | Merkle_root_incorrect | Coinbase_has_no_inputs
  | Missing_chain_merkle_root | Multiple_merged_mining_headers | Header_not_before_root | Root_not_early
  | Missing_size_and_nonce | Branch_size_mismatch | Wrong_index

section \<open>The commitment\<close>

definition DecodeLE32 :: "byte list \<Rightarrow> u32" where
  "DecodeLE32 bytes = fold (\<lambda>i res. push_bit 8 res OR ucast (bytes ! (3 - i))) [0..<4] 0"

text \<open>\<^verbatim>\<open>std::search\<close>: the first place where the pattern occurs.\<close>

fun std_search :: "byte list \<Rightarrow> byte list \<Rightarrow> byte list" where
  "std_search s pat =
    (if length pat \<le> length s \<and> take (length pat) s = pat then s
     else case s of [] \<Rightarrow> [] | _ # r \<Rightarrow> std_search r pat)"

declare std_search.simps [simp del]

fun branch_loop :: "crypto_fns \<Rightarrow> uint256 \<Rightarrow> uint256 list \<Rightarrow> int \<Rightarrow> uint256" where
  "branch_loop c hash [] nIndex = hash"
| "branch_loop c hash (it # its) nIndex =
    branch_loop c (if nIndex AND 1 \<noteq> 0 then Hash2 c it hash else Hash2 c hash it) its (drop_bit 1 nIndex)"

definition CheckMerkleBranch :: "crypto_fns \<Rightarrow> uint256 \<Rightarrow> uint256 list \<Rightarrow> int \<Rightarrow> uint256" where
  "CheckMerkleBranch c hash its nIndex = (if nIndex = - 1 then uint256_ZERO else branch_loop c hash its nIndex)"

definition getExpectedIndex :: "u32 \<Rightarrow> int \<Rightarrow> nat \<Rightarrow> int" where
  "getExpectedIndex nonce nChainId h =
    (let md = ucast (push_bit h 1 :: u32) :: u64;
         rand = ucast nonce :: u64;
         rand = rand * 1103515245 + 12345;
         rand = rand mod md;
         rand = rand + word_of_int nChainId;
         rand = rand * 1103515245 + 12345;
         rand = rand mod md
     in sint (ucast rand :: u32))"

text \<open>The check of the script of the parent's coinbase, from the search for the header on.\<close>

definition check_coinbase_script :: "CScript \<Rightarrow> uint256 \<Rightarrow> nat \<Rightarrow> int \<Rightarrow> int \<Rightarrow> auxpow_error option" where
  "check_coinbase_script script nRootHash merkleHeight index nChainId =
    (let vchRootHash = rev nRootHash;
         pcHead = std_search script pchMergedMiningHeader;
         pc = std_search script vchRootHash
     in if pc = [] then Some Missing_chain_merkle_root
        else if pcHead \<noteq> [] \<and> std_search (drop 1 pcHead) pchMergedMiningHeader \<noteq> [] then Some Multiple_merged_mining_headers
        else if pcHead \<noteq> [] \<and> drop (length pchMergedMiningHeader) pcHead \<noteq> pc then Some Header_not_before_root
        else if pcHead = [] \<and> length script - length pc > 20 then Some Root_not_early
        else let pc = drop (length vchRootHash) pc
             in if length pc < 8 then Some Missing_size_and_nonce
                else if DecodeLE32 pc \<noteq> push_bit merkleHeight 1 then Some Branch_size_mismatch
                else if index \<noteq> getExpectedIndex (DecodeLE32 (drop 4 pc)) nChainId merkleHeight then Some Wrong_index
                else None)"

text \<open>\<open>None\<close> is the result true.\<close>

definition auxpow_check :: "crypto_fns \<Rightarrow> CAuxPow \<Rightarrow> uint256 \<Rightarrow> int \<Rightarrow> bool \<Rightarrow> auxpow_error option" where
  "auxpow_check c ap hashAuxBlock nChainId strict =
    (if strict \<and> GetChainId (parentBlock ap) = nChainId then Some Parent_has_our_chain_ID
     else if length (vChainMerkleBranch ap) > 30 then Some Chain_merkle_branch_too_long
     else let nRootHash = CheckMerkleBranch c hashAuxBlock (vChainMerkleBranch ap) (nChainIndex ap)
          in if CheckMerkleBranch c (tx_GetHash (CHash256 c) (coinbaseTx ap)) (vMerkleBranch ap) 0 \<noteq> hdr_hashMerkleRoot (parentBlock ap)
             then Some Merkle_root_incorrect
             else if vin (coinbaseTx ap) = [] then Some Coinbase_has_no_inputs
             else check_coinbase_script (scriptSig (vin (coinbaseTx ap) ! 0)) nRootHash (length (vChainMerkleBranch ap)) (nChainIndex ap) nChainId)"

section \<open>Building a minimal proof\<close>

definition CMutableTransaction :: CTransaction where
  "CMutableTransaction = \<lparr>vin = [], vout = [], tx_nVersion = 2, nType = TRANSACTION_NORMAL, nLockTime = 0, vExtraPayload = []\<rparr>"

definition inputData :: "uint256 \<Rightarrow> byte list" where
  "inputData blockHash = rev blockHash @ [1] @ replicate 7 0"

text \<open>\<open>None\<close> is the failed assertion that the header has the merge-mining flag.\<close>

definition createAuxPow :: "crypto_fns \<Rightarrow> (byte list \<Rightarrow> uint256) \<Rightarrow> CPureBlockHeader \<Rightarrow> CAuxPow option" where
  "createAuxPow c HashX11 header =
    (if \<not> IsAuxpow header then None
     else let coinbase = CMutableTransaction\<lparr>vin := [\<lparr>prevout = outpoint_null, scriptSig = push_data (inputData (header_GetHash HashX11 header)),
                nSequence = SEQUENCE_FINAL\<rparr>]\<rparr>;
              parent = header_SetNull\<lparr>hdr_nVersion := 1, hdr_hashMerkleRoot := fst (BlockMerkleRoot c [coinbase])\<rparr>
          in Some \<lparr>coinbaseTx = coinbase, vMerkleBranch = [], vChainMerkleBranch = [], nChainIndex = 0, parentBlock = parent\<rparr>)"

definition SetAuxpow :: "CAuxPow option \<Rightarrow> CBlockHeader \<Rightarrow> CBlockHeader" where
  "SetAuxpow apow h = (case apow of
      Some ap \<Rightarrow> h\<lparr>auxpow := Some ap, hdr_nVersion := hdr_nVersion h OR VERSION_AUXPOW\<rparr>
    | None \<Rightarrow> h\<lparr>auxpow := None, hdr_nVersion := hdr_nVersion h AND NOT VERSION_AUXPOW\<rparr>)"

definition pure_header :: "CBlockHeader \<Rightarrow> CPureBlockHeader" where
  "pure_header h = CPureBlockHeader.truncate h"

definition initAuxPow :: "crypto_fns \<Rightarrow> (byte list \<Rightarrow> uint256) \<Rightarrow> CBlockHeader \<Rightarrow> CBlockHeader option" where
  "initAuxPow c HashX11 h =
    (let h = h\<lparr>hdr_nVersion := hdr_nVersion h OR VERSION_AUXPOW\<rparr>
     in case createAuxPow c HashX11 (pure_header h) of None \<Rightarrow> None | Some ap \<Rightarrow> Some (SetAuxpow (Some ap) h))"

section \<open>The work of a header\<close>

definition block_CheckProofOfWork :: "crypto_fns \<Rightarrow> (byte list \<Rightarrow> uint256) \<Rightarrow> CBlockHeader \<Rightarrow> aux_params \<Rightarrow> bool" where
  "block_CheckProofOfWork c HashX11 block params =
    (let hdr = pure_header block; powp = pow_params.truncate params
     in if \<not> IsLegacy hdr \<and> fStrictChainId params \<and> GetChainId hdr \<noteq> nAuxpowChainId params then False
        else case auxpow block of
          None \<Rightarrow>
            if IsAuxpow hdr then False
            else CheckProofOfWork (GetPoWHash HashX11 hdr) (hdr_nBits block) powp
        | Some ap \<Rightarrow>
            if \<not> IsAuxpow hdr then False
            else if auxpow_check c ap (header_GetHash HashX11 hdr) (GetChainId hdr) (fStrictChainId params) \<noteq> None then False
            else CheckProofOfWork (GetPoWHash HashX11 (parentBlock ap)) (hdr_nBits block) powp)"

section \<open>Searching\<close>

lemma std_search_suffix: "\<exists>k. std_search s pat = drop k s"
proof (induction s)
  case (Cons x s)
  then show ?case by (subst std_search.simps) (metis drop0 drop_Suc_Cons list.simps(5))
qed (simp add: std_search.simps)

lemma std_search_found: "std_search s pat \<noteq> [] \<Longrightarrow> take (length pat) (std_search s pat) = pat"
proof (induction s)
  case (Cons x s)
  then show ?case by (subst std_search.simps) (auto simp: std_search.simps [of "x # s"] split: if_splits)
qed (simp add: std_search.simps)

section \<open>The slot of a chain\<close>

lemma unat_2p: "h < 32 \<Longrightarrow> unat ((2 :: u32) ^ h) = 2 ^ h"
proof -
  assume "h < 32"
  then have "(2 :: nat) ^ h < 2 ^ 32" by (intro power_strict_increasing) auto
  moreover have "(2 :: u32) ^ h = of_nat (2 ^ h)" by simp
  ultimately show ?thesis by (simp only: unat_of_nat) (simp add: take_bit_nat_eq_self)
qed

lemma push_bit_1_inj: "push_bit h (1 :: u32) = push_bit h' 1 \<Longrightarrow> h \<le> 30 \<Longrightarrow> h' \<le> 30 \<Longrightarrow> h = h'"
proof -
  assume eq: "push_bit h (1 :: u32) = push_bit h' 1" and h: "h \<le> 30" "h' \<le> 30"
  have "unat ((2 :: u32) ^ h) = unat ((2 :: u32) ^ h')" using eq by (simp only: push_bit_of_1)
  then have "(2 :: nat) ^ h = 2 ^ h'" using unat_2p [of h] unat_2p [of h'] h by linarith
  then show "h = h'" by (rule power_inject_exp [THEN iffD1, rotated]) simp
qed

lemma uint_slots: "h \<le> 30 \<Longrightarrow> uint (ucast (push_bit h 1 :: u32) :: u64) = 2 ^ h"
proof -
  assume h: "h \<le> 30"
  have "uint ((2 :: u32) ^ h) = int (unat ((2 :: u32) ^ h))" by (rule uint_nat)
  then have "uint ((2 :: u32) ^ h) = 2 ^ h" using unat_2p [of h] h by simp
  moreover have "(2 :: int) ^ h < 2 ^ 64" using h by (intro power_strict_increasing) auto
  then have "take_bit 64 ((2 :: int) ^ h) = 2 ^ h" by (intro take_bit_int_eq_self) auto
  ultimately show ?thesis by (simp only: push_bit_of_1 unsigned_ucast_eq len_of_numeral_defs) simp
qed

lemma sint_small_u64: "uint (r :: u64) < 2 ^ 30 \<Longrightarrow> sint (ucast r :: u32) = uint r"
proof -
  assume lt: "uint r < 2 ^ 30"
  have "- (2 ^ 31) \<le> (0 :: int)" "(2 :: int) ^ 30 < 2 ^ 31" "0 \<le> uint r" by simp_all
  then have "- (2 ^ 31) \<le> uint r" "uint r < 2 ^ 31" using lt by (blast intro: order_trans less_trans)+
  then have "signed_take_bit 31 (uint r) = uint r" by (rule signed_take_bit_int_eq_self)
  then show ?thesis by (simp add: signed_ucast_eq)
qed

lemma getExpectedIndex_range:
  assumes "h \<le> 30"
  shows "0 \<le> getExpectedIndex nonce nChainId h \<and> getExpectedIndex nonce nChainId h < 2 ^ h"
proof -
  define md where "md = (ucast (push_bit h 1 :: u32) :: u64)"
  have md: "uint md = 2 ^ h" unfolding md_def by (rule uint_slots [OF assms])
  obtain r where r: "getExpectedIndex nonce nChainId h = sint (ucast (r mod md) :: u32)"
    by (simp add: getExpectedIndex_def Let_def md_def)
  have "uint (r mod md) < 2 ^ h" by (simp add: uint_mod md)
  moreover have "(2 :: int) ^ h \<le> 2 ^ 30" using assms by (intro power_increasing) auto
  ultimately show ?thesis using sint_small_u64 [of "r mod md"] by (simp add: r)
qed

section \<open>Work cannot be used twice\<close>

text \<open>The pairs hashed along a branch.\<close>

fun branch_pairs :: "crypto_fns \<Rightarrow> uint256 \<Rightarrow> uint256 list \<Rightarrow> int \<Rightarrow> (uint256 \<times> uint256) list" where
  "branch_pairs c hash [] nIndex = []"
| "branch_pairs c hash (it # its) nIndex =
    (let p = (if nIndex AND 1 \<noteq> 0 then (it, hash) else (hash, it)) in p # branch_pairs c (hash_pair c p) its (drop_bit 1 nIndex))"

lemma branch_loop_inj:
  assumes "length its = length its'" "inj_on (hash_pair c) (set (branch_pairs c h its i) \<union> set (branch_pairs c h' its' i))"
    and "branch_loop c h its i = branch_loop c h' its' i"
  shows "h = h' \<and> its = its'"
  using assms
proof (induction its its' arbitrary: h h' i rule: list_induct2)
  case (Cons x xs y ys)
  define p q where "p = (if i AND 1 \<noteq> 0 then (x, h) else (h, x))" and "q = (if i AND 1 \<noteq> 0 then (y, h') else (h', y))"
  have pq: "branch_pairs c h (x # xs) i = p # branch_pairs c (hash_pair c p) xs (drop_bit 1 i)"
    "branch_pairs c h' (y # ys) i = q # branch_pairs c (hash_pair c q) ys (drop_bit 1 i)"
    by (simp_all add: p_def q_def Let_def)
  have lp: "branch_loop c (hash_pair c p) xs (drop_bit 1 i) = branch_loop c (hash_pair c q) ys (drop_bit 1 i)"
    using Cons.prems(2) by (auto simp: p_def q_def hash_pair_def)
  have "inj_on (hash_pair c) (set (branch_pairs c (hash_pair c p) xs (drop_bit 1 i)) \<union> set (branch_pairs c (hash_pair c q) ys (drop_bit 1 i)))"
    by (rule inj_on_subset [OF Cons.prems(1) [unfolded pq]]) auto
  then have "hash_pair c p = hash_pair c q \<and> xs = ys" using lp by (rule Cons.IH)
  moreover from this have "p = q" by (intro inj_onD [OF Cons.prems(1) [unfolded pq]]) auto
  ultimately have "p = q" "xs = ys" by simp_all
  then show ?case by (auto simp: p_def q_def split: if_splits)
qed simp

lemma length_branch_loop: "wf_crypto c \<Longrightarrow> length h = 32 \<Longrightarrow> length (branch_loop c h its i) = 32"
  by (induction its arbitrary: h i) (simp_all add: Hash2_def CHash256_def wf_crypto_def)

lemma auxpow_check_parts:
  assumes "auxpow_check c ap h nChainId strict = None"
  defines "script \<equiv> scriptSig (vin (coinbaseTx ap) ! 0)" and "root \<equiv> branch_loop c h (vChainMerkleBranch ap) (nChainIndex ap)"
  defines "pc \<equiv> drop (length root) (std_search script (rev root))"
  shows "length (vChainMerkleBranch ap) \<le> 30" "DecodeLE32 pc = push_bit (length (vChainMerkleBranch ap)) 1"
    "nChainIndex ap = getExpectedIndex (DecodeLE32 (drop 4 pc)) nChainId (length (vChainMerkleBranch ap))"
    "std_search script (rev root) \<noteq> []"
    "std_search script pchMergedMiningHeader \<noteq> [] \<longrightarrow> drop 4 (std_search script pchMergedMiningHeader) = std_search script (rev root)"
    "std_search script pchMergedMiningHeader = [] \<longrightarrow> length script - length (std_search script (rev root)) \<le> 20"
    "CheckMerkleBranch c h (vChainMerkleBranch ap) (nChainIndex ap) = root"
proof -
  define root' where "root' = CheckMerkleBranch c h (vChainMerkleBranch ap) (nChainIndex ap)"
  have len: "length (vChainMerkleBranch ap) \<le> 30" and ok: "check_coinbase_script script root' (length (vChainMerkleBranch ap)) (nChainIndex ap) nChainId = None"
    using assms(1) by (auto simp: auxpow_check_def Let_def script_def root'_def split: if_splits)
  have idx: "nChainIndex ap = getExpectedIndex (DecodeLE32 (drop 4 (drop (length root') (std_search script (rev root'))))) nChainId (length (vChainMerkleBranch ap))"
    using ok by (auto simp: check_coinbase_script_def Let_def split: if_splits)
  then have "nChainIndex ap \<noteq> - 1" using getExpectedIndex_range [OF len] by (metis neg_0_le_iff_le not_one_le_zero)
  then have root: "root' = root" by (simp add: root'_def root_def CheckMerkleBranch_def)
  have mm: "length pchMergedMiningHeader = 4" by (simp add: pchMergedMiningHeader_def)
  show "length (vChainMerkleBranch ap) \<le> 30" by (rule len)
  show "nChainIndex ap = getExpectedIndex (DecodeLE32 (drop 4 pc)) nChainId (length (vChainMerkleBranch ap))" using idx unfolding root pc_def .
  show "DecodeLE32 pc = push_bit (length (vChainMerkleBranch ap)) 1" "std_search script (rev root) \<noteq> []"
    "std_search script pchMergedMiningHeader \<noteq> [] \<longrightarrow> drop 4 (std_search script pchMergedMiningHeader) = std_search script (rev root)"
    "std_search script pchMergedMiningHeader = [] \<longrightarrow> length script - length (std_search script (rev root)) \<le> 20"
    using ok mm unfolding root by (auto simp: check_coinbase_script_def Let_def pc_def split: if_splits)
  show "CheckMerkleBranch c h (vChainMerkleBranch ap) (nChainIndex ap) = root" using root by (simp add: root'_def)
qed

lemma std_search_window:
  assumes "std_search s pat \<noteq> []"
  shows "pat = take (length pat) (drop (length s - length (std_search s pat)) s)"
proof -
  obtain k where k: "std_search s pat = drop k s" using std_search_suffix by blast
  have "drop (length s - length (std_search s pat)) s = std_search s pat" using assms unfolding k by simp
  then show ?thesis using std_search_found [OF assms] by simp
qed

lemma same_root_single_use:
  assumes "auxpow_check c ap h nChainId strict = None" "auxpow_check c ap' h' nChainId strict = None" "coinbaseTx ap' = coinbaseTx ap"
    and "branch_loop c h (vChainMerkleBranch ap) (nChainIndex ap) = branch_loop c h' (vChainMerkleBranch ap') (nChainIndex ap')"
    and "inj_on (hash_pair c) (set (branch_pairs c h (vChainMerkleBranch ap) (nChainIndex ap)) \<union>
      set (branch_pairs c h' (vChainMerkleBranch ap') (nChainIndex ap')))"
  shows "h' = h \<and> vChainMerkleBranch ap' = vChainMerkleBranch ap"
proof -
  note p = auxpow_check_parts [OF assms(1)] and p' = auxpow_check_parts [OF assms(2), unfolded assms(3)]
  have bl: "length (vChainMerkleBranch ap) = length (vChainMerkleBranch ap')"
    using p(1,2) p'(1,2) assms(4) by (intro push_bit_1_inj) auto
  have "nChainIndex ap = nChainIndex ap'" using p(3) p'(3) assms(4) bl by simp
  then show ?thesis using branch_loop_inj [OF bl, of c h "nChainIndex ap" h'] assms(4,5) by simp
qed


definition demo_coinbase :: "CScript \<Rightarrow> CTransaction" where
  "demo_coinbase script = CMutableTransaction\<lparr>vin := [\<lparr>prevout = outpoint_null, scriptSig = script, nSequence = SEQUENCE_FINAL\<rparr>]\<rparr>"

definition demo_hash :: uint256 where "demo_hash = replicate 32 7"

definition demo_script :: CScript where
  "demo_script = pchMergedMiningHeader @ demo_hash @ [1, 0, 0, 0, 5, 0, 0, 0]"

definition demo_auxpow :: CAuxPow where
  "demo_auxpow = \<lparr>coinbaseTx = demo_coinbase demo_script, vMerkleBranch = [], vChainMerkleBranch = [], nChainIndex = 0,
     parentBlock = header_SetNull\<lparr>hdr_nVersion := 1, hdr_hashMerkleRoot := tx_GetHash (CHash256 demo_crypto) (demo_coinbase demo_script)\<rparr>\<rparr>"

lemma getExpectedIndex_0: "getExpectedIndex nonce nChainId 0 = 0"
  using getExpectedIndex_range [of 0 nonce nChainId] by simp

lemma DecodeLE32_one: "DecodeLE32 (1 # 0 # 0 # 0 # r) = 1"
  by (simp add: DecodeLE32_def upt_conv_Cons)

lemma std_search_here: "pat \<noteq> [] \<Longrightarrow> std_search (pat @ r) pat = pat @ r"
  by (simp add: std_search.simps)

lemma std_search_skip: "take (length pat) (x # s) \<noteq> pat \<Longrightarrow> std_search (x # s) pat = std_search s pat"
  by (simp add: std_search.simps)

lemma std_search_mm_skip: "x \<noteq> 0x4f \<Longrightarrow> std_search (x # s) pchMergedMiningHeader = std_search s pchMergedMiningHeader"
  by (simp add: std_search_skip pchMergedMiningHeader_def)

lemma std_search_mm_replicate: "x \<noteq> 0x4f \<Longrightarrow> std_search (replicate n x @ s) pchMergedMiningHeader = std_search s pchMergedMiningHeader"
  by (induction n) (simp_all add: std_search_mm_skip)

lemma std_search_mm_Nil: "std_search [] pchMergedMiningHeader = []"
  using std_search_suffix [of "[]" pchMergedMiningHeader] by auto

lemma std_search_replicate_skip: "x \<noteq> y \<Longrightarrow> 0 < n \<Longrightarrow> std_search (x # s) (replicate n y) = std_search s (replicate n y)"
  by (cases n) (simp_all add: std_search_skip)

lemma demo_hash_facts: "length demo_hash = 32" "rev demo_hash = demo_hash" "demo_hash \<noteq> []"
  by (simp_all add: demo_hash_def)

lemma mm_facts: "length pchMergedMiningHeader = 4" "drop 4 (pchMergedMiningHeader @ s) = s"
  "drop 1 (pchMergedMiningHeader @ s) = 0x53 # 0x4d # 0x41 # s"
  by (simp_all add: pchMergedMiningHeader_def)

lemma demo_search:
  "std_search demo_script demo_hash = demo_hash @ [1, 0, 0, 0, 5, 0, 0, 0]"
  "std_search demo_script pchMergedMiningHeader = demo_script"
  "std_search (drop 1 demo_script) pchMergedMiningHeader = []"
proof -
  have "std_search demo_script demo_hash = std_search (demo_hash @ [1, 0, 0, 0, 5, 0, 0, 0]) demo_hash"
    by (simp add: demo_script_def pchMergedMiningHeader_def) (simp add: demo_hash_def std_search_replicate_skip)
  then show "std_search demo_script demo_hash = demo_hash @ [1, 0, 0, 0, 5, 0, 0, 0]"
    using std_search_here demo_hash_facts(3) by simp
  show "std_search demo_script pchMergedMiningHeader = demo_script"
    unfolding demo_script_def by (rule std_search_here) (simp add: pchMergedMiningHeader_def)
  show "std_search (drop 1 demo_script) pchMergedMiningHeader = []"
    unfolding demo_script_def mm_facts(3) demo_hash_def
    by (simp add: std_search_mm_skip std_search_mm_replicate std_search_mm_Nil)
qed

lemma demo_auxpow_check: "auxpow_check demo_crypto demo_auxpow demo_hash 1 True = None"
proof -
  have "check_coinbase_script demo_script demo_hash 0 0 1 = None"
    unfolding check_coinbase_script_def Let_def demo_hash_facts demo_search mm_facts(1)
    using mm_facts(2) demo_hash_facts by (simp add: demo_script_def DecodeLE32_one getExpectedIndex_0)
  then show ?thesis
    by (simp add: auxpow_check_def demo_auxpow_def demo_coinbase_def GetChainId_def signed_divide_int_def CheckMerkleBranch_def)
qed

text \<open>The same coinbase in another parent block.\<close>

definition demo_auxpow2 :: CAuxPow where
  "demo_auxpow2 = demo_auxpow\<lparr>parentBlock := (parentBlock demo_auxpow)\<lparr>hdr_nNonce := 1\<rparr>\<rparr>"

lemma demo_auxpow2_check: "auxpow_check demo_crypto demo_auxpow2 demo_hash 1 True = None"
proof -
  have "auxpow_check demo_crypto demo_auxpow2 demo_hash 1 True = auxpow_check demo_crypto demo_auxpow demo_hash 1 True"
    by (simp add: demo_auxpow2_def auxpow_check_def GetChainId_def)
  then show ?thesis using demo_auxpow_check by simp
qed


section \<open>The minimal proof passes the check\<close>

lemma take_Cons_same: "length xs = n \<Longrightarrow> take n (a # xs) = xs \<Longrightarrow> xs = replicate n a"
proof (induction n arbitrary: xs a)
  case (Suc n)
  then obtain ys where "xs = a # ys" by (cases xs) auto
  then show ?case using Suc.IH [of ys a] Suc.prems by simp
qed simp

text \<open>
  C30. The minimal proof that is built for a header with the merge-mining flag passes the check for the hash of the header and any chain id other than that of the fake
  parent, unless the hash happens to contain the bytes of the merged-mining header or to consist of the length byte only.
\<close>

theorem createAuxPow_check:
  assumes "IsAuxpow header" "length (header_GetHash HashX11 header) = 32" "header_GetHash HashX11 header \<noteq> replicate 32 0x28"
    and "std_search (push_data (inputData (header_GetHash HashX11 header))) pchMergedMiningHeader = []" "nChainId \<noteq> 0 \<or> \<not> strict"
  shows "\<exists>ap. createAuxPow c HashX11 header = Some ap \<and> auxpow_check c ap (header_GetHash HashX11 header) nChainId strict = None"
proof -
  define h where "h = header_GetHash HashX11 header"
  have len: "length h = 32" and ne: "h \<noteq> replicate 32 0x28" using assms(2,3) by (simp_all add: h_def)
  define script where "script = push_data (inputData h)"
  have "inputData h = rev h @ [1, 0, 0, 0, 0, 0, 0, 0]" by (simp add: inputData_def numeral_eq_Suc)
  then have script: "script = 0x28 # rev h @ [1, 0, 0, 0, 0, 0, 0, 0]"
    using len by (simp add: script_def push_data_def)
  have "take 32 (0x28 # rev h) \<noteq> rev h" using take_Cons_same [of "rev h" 32 "0x28"] len ne by (metis length_rev rev_replicate rev_rev_ident)
  then have pc: "std_search script (rev h) = rev h @ [1, 0, 0, 0, 0, 0, 0, 0]"
    unfolding script using len std_search_here [of "rev h"] by (subst std_search_skip) (auto simp flip: length_greater_0_conv)
  have one: "fst (BlockMerkleRoot c [tx]) = tx_GetHash (CHash256 c) tx" for tx
    by (simp add: BlockMerkleRoot_def ComputeMerkleRoot_def ComputeMerkleRoot_loop.simps)
  have "check_coinbase_script script h 0 0 nChainId = None"
    using assms(4) pc len unfolding h_def [symmetric] script_def [symmetric]
    by (simp add: check_coinbase_script_def Let_def DecodeLE32_one getExpectedIndex_0) (simp add: script)
  moreover have "GetChainId (header_SetNull\<lparr>hdr_nVersion := 1, hdr_hashMerkleRoot := r\<rparr>) = 0" for r
    by (simp add: GetChainId_def signed_divide_int_def)
  then have "\<not> (strict \<and> GetChainId (header_SetNull\<lparr>hdr_nVersion := 1, hdr_hashMerkleRoot := r\<rparr>) = nChainId)" for r
    using assms(5) by auto
  ultimately show ?thesis
    using assms(1) unfolding createAuxPow_def h_def [symmetric] script_def [symmetric]
    by (simp add: Let_def auxpow_check_def one CheckMerkleBranch_def)
qed

theorem createAuxPow_check_witness:
  "IsAuxpow (header_SetNull\<lparr>hdr_nVersion := 256\<rparr>) \<and>
   (\<exists>ap. createAuxPow demo_crypto (\<lambda>_. demo_hash) (header_SetNull\<lparr>hdr_nVersion := 256\<rparr>) = Some ap \<and>
     auxpow_check demo_crypto ap demo_hash 1 True = None)"
proof -
  have "IsAuxpow (header_SetNull\<lparr>hdr_nVersion := 256\<rparr>)" by (simp add: IsAuxpow_def)
  moreover have "push_data (inputData demo_hash) = 0x28 # replicate 32 7 @ 1 # replicate 7 0 @ []"
    by (simp add: push_data_def inputData_def demo_hash_facts) (simp add: demo_hash_def)
  then have "std_search (push_data (inputData demo_hash)) pchMergedMiningHeader = []"
    by (simp only: std_search_mm_skip std_search_mm_replicate std_search_mm_Nil) (simp add: std_search_mm_skip std_search_mm_replicate std_search_mm_Nil del: append_Nil2)
  moreover have "header_GetHash (\<lambda>_. demo_hash) h = demo_hash" for h by (simp add: header_GetHash_def GetPoWHash_def)
  moreover have "demo_hash \<noteq> replicate 32 0x28" by (simp add: demo_hash_def)
  ultimately show ?thesis
    using createAuxPow_check [of "header_SetNull\<lparr>hdr_nVersion := 256\<rparr>" "\<lambda>_. demo_hash" 1 True demo_crypto] demo_hash_facts(1) by simp
qed

end
