(* ===== verification/Header_Compress.thy ===== *)
theory Header_Compress
  imports Auxpow
begin

text \<open>
  Compressed headers: \<^verbatim>\<open>CompressedHeaderBitField\<close> and \<^verbatim>\<open>CompressibleBlockHeader\<close> of \<^verbatim>\<open>src/src/primitives/block.h\<close> and \<^verbatim>\<open>block.cpp\<close>, and how \<^verbatim>\<open>src/src/net_processing.cpp\<close> fills and
  reads a \<^verbatim>\<open>headers2\<close> message. The list of recent versions is a list with its front first. A header read from the wire starts from the default-constructed
  object, so a field that is not sent has its default value.
\<close>

unbundle bit_operations_syntax

section \<open>The bit field\<close>

datatype Flag = VERSION_BIT_0 | VERSION_BIT_1 | VERSION_BIT_2 | PREV_BLOCK_HASH | TIMESTAMP | NBITS

fun to_byte :: "Flag \<Rightarrow> byte" where
  "to_byte VERSION_BIT_0 = 1"
| "to_byte VERSION_BIT_1 = 2"
| "to_byte VERSION_BIT_2 = 4"
| "to_byte PREV_BLOCK_HASH = 8"
| "to_byte TIMESTAMP = 16"
| "to_byte NBITS = 32"

definition VERSION_BIT_MASK :: byte where
  "VERSION_BIT_MASK = to_byte VERSION_BIT_0 OR to_byte VERSION_BIT_1 OR to_byte VERSION_BIT_2"

definition IsCompressed :: "Flag \<Rightarrow> byte \<Rightarrow> bool" where
  "IsCompressed flg bf \<longleftrightarrow> bf AND to_byte flg = 0"

definition MarkAsUncompressed :: "Flag \<Rightarrow> byte \<Rightarrow> byte" where
  "MarkAsUncompressed flg bf = bf OR to_byte flg"

definition MarkAsCompressed :: "Flag \<Rightarrow> byte \<Rightarrow> byte" where
  "MarkAsCompressed flg bf = bf AND NOT (to_byte flg)"

definition SetVersionOffset :: "byte \<Rightarrow> byte \<Rightarrow> byte" where
  "SetVersionOffset version bf = (bf AND NOT VERSION_BIT_MASK) OR (version AND VERSION_BIT_MASK)"

definition GetVersionOffset :: "byte \<Rightarrow> byte" where
  "GetVersionOffset bf = bf AND VERSION_BIT_MASK"

definition IsVersionCompressed :: "byte \<Rightarrow> bool" where
  "IsVersionCompressed bf \<longleftrightarrow> GetVersionOffset bf \<noteq> 0"

section \<open>Compressible headers\<close>

record CompressibleBlockHeader = CBlockHeader +
  bit_field :: byte
  time_offset :: int

definition mk_compressible :: "CBlockHeader \<Rightarrow> CompressibleBlockHeader" where
  "mk_compressible h = CBlockHeader.extend h
    \<lparr>bit_field = MarkAsUncompressed NBITS (MarkAsUncompressed TIMESTAMP (MarkAsUncompressed PREV_BLOCK_HASH (SetVersionOffset 0 0))), time_offset = 0\<rparr>"

definition ser_compressible :: "CompressibleBlockHeader \<Rightarrow> byte list" where
  "ser_compressible h =
    (let bf = bit_field h
     in ser_writedata8 bf @
        (if \<not> IsVersionCompressed bf then ser_writedata32 (word_of_int (hdr_nVersion h)) else []) @
        (if \<not> IsCompressed PREV_BLOCK_HASH bf then hashPrevBlock h else []) @
        hdr_hashMerkleRoot h @
        (if \<not> IsCompressed TIMESTAMP bf then ser_writedata32 (hdr_nTime h) else ser_writedata16 (word_of_int (time_offset h))) @
        (if \<not> IsCompressed NBITS bf then ser_writedata32 (hdr_nBits h) else []) @
        ser_writedata32 (hdr_nNonce h))"

definition unser_compressible :: "CompressibleBlockHeader reader" where
  "unser_compressible =
    read_bind ser_readdata8 (\<lambda>bf.
    read_bind (if \<not> IsVersionCompressed bf then read_bind ser_readdata32 (\<lambda>v. read_return (sint v)) else read_return 0) (\<lambda>v.
    read_bind (if \<not> IsCompressed PREV_BLOCK_HASH bf then read_bytes 32 else read_return (replicate 32 0)) (\<lambda>prev.
    read_bind (read_bytes 32) (\<lambda>root.
    read_bind (if \<not> IsCompressed TIMESTAMP bf then read_bind ser_readdata32 (\<lambda>t. read_return (t, 0))
               else read_bind ser_readdata16 (\<lambda>off. read_return (0, sint off))) (\<lambda>(tm, off).
    read_bind (if \<not> IsCompressed NBITS bf then ser_readdata32 else read_return 0) (\<lambda>bits.
    read_bind ser_readdata32 (\<lambda>nonce.
    read_return \<lparr>hdr_nVersion = v, hashPrevBlock = prev, hdr_hashMerkleRoot = root, hdr_nTime = tm, hdr_nBits = bits, hdr_nNonce = nonce,
      auxpow = None, bit_field = bf, time_offset = off\<rparr>)))))))"

section \<open>Recent versions\<close>

definition MarkVersionAsMostRecent :: "int list \<Rightarrow> nat \<Rightarrow> int list" where
  "MarkVersionAsMostRecent vs i = (if i \<noteq> 0 then vs ! i # (take i vs @ drop (i + 1) vs) else vs)"

definition SaveVersionAsMostRecent :: "int list \<Rightarrow> int \<Rightarrow> int list" where
  "SaveVersionAsMostRecent vs version = (let vs = version # vs in if length vs > 7 then butlast vs else vs)"

text \<open>\<^verbatim>\<open>std::find\<close>: the first position, or the length.\<close>

fun std_find :: "int list \<Rightarrow> int \<Rightarrow> nat" where
  "std_find [] v = 0"
| "std_find (x # xs) v = (if x = v then 0 else 1 + std_find xs v)"

definition Compress :: "CompressibleBlockHeader list \<Rightarrow> int list \<Rightarrow> CompressibleBlockHeader \<Rightarrow> CompressibleBlockHeader \<times> int list" where
  "Compress previous_blocks vs h =
    (if previous_blocks = [] then (h, SaveVersionAsMostRecent vs (hdr_nVersion h))
     else let i = std_find vs (hdr_nVersion h);
              (h, vs) = (if i < length vs then (h\<lparr>bit_field := SetVersionOffset (of_nat (i + 1)) (bit_field h)\<rparr>, MarkVersionAsMostRecent vs i)
                         else (h, SaveVersionAsMostRecent vs (hdr_nVersion h)));
              last_block = last previous_blocks;
              h = h\<lparr>bit_field := MarkAsCompressed PREV_BLOCK_HASH (bit_field h)\<rparr>;
              time_diff = uint (hdr_nTime h - hdr_nTime last_block);
              h = (if time_diff \<le> 32767 \<and> time_diff \<ge> - 32768
                   then h\<lparr>time_offset := time_diff, bit_field := MarkAsCompressed TIMESTAMP (bit_field h)\<rparr> else h);
              h = (if hdr_nBits h = hdr_nBits last_block then h\<lparr>bit_field := MarkAsCompressed NBITS (bit_field h)\<rparr> else h)
          in (h, vs))"

definition Uncompress :: "(byte list \<Rightarrow> uint256) \<Rightarrow> CBlockHeader list \<Rightarrow> int list \<Rightarrow> CompressibleBlockHeader \<Rightarrow> CompressibleBlockHeader \<times> int list" where
  "Uncompress HashX11 previous_blocks vs h =
    (if previous_blocks = [] then (h, SaveVersionAsMostRecent vs (hdr_nVersion h))
     else let last_block = last previous_blocks;
              (h, vs) = (if IsVersionCompressed (bit_field h) then
                           (let version_offset = unat (GetVersionOffset (bit_field h))
                            in if version_offset \<le> length vs
                               then (h\<lparr>hdr_nVersion := vs ! (version_offset - 1)\<rparr>, MarkVersionAsMostRecent vs (version_offset - 1))
                               else (h, vs))
                         else (h, SaveVersionAsMostRecent vs (hdr_nVersion h)));
              h = (if IsCompressed PREV_BLOCK_HASH (bit_field h)
                   then h\<lparr>hashPrevBlock := header_GetHash HashX11 (pure_header last_block)\<rparr> else h);
              h = (if IsCompressed TIMESTAMP (bit_field h) then h\<lparr>hdr_nTime := hdr_nTime last_block + word_of_int (time_offset h)\<rparr> else h);
              h = (if IsCompressed NBITS (bit_field h) then h\<lparr>hdr_nBits := hdr_nBits last_block\<rparr> else h)
          in (h, vs))"

section \<open>The message\<close>

text \<open>
  The answer to \<^verbatim>\<open>getheaders2\<close> (\<open>skip_first\<close>) passes the first header through as it is; the announcement of new blocks compresses the first header too,
  which records its version.
\<close>

fun compress_headers :: "bool \<Rightarrow> CompressibleBlockHeader list \<Rightarrow> int list \<Rightarrow> CBlockHeader list \<Rightarrow> CompressibleBlockHeader list" where
  "compress_headers skip_first v_headers vs [] = v_headers"
| "compress_headers skip_first v_headers vs (b # bs) =
    (let (h, vs) = (if skip_first \<and> v_headers = [] then (mk_compressible b, vs) else Compress v_headers vs (mk_compressible b))
     in compress_headers skip_first (v_headers @ [h]) vs bs)"

definition headers2_message :: "bool \<Rightarrow> CBlockHeader list \<Rightarrow> byte list" where
  "headers2_message skip_first bs = ser_vector ser_compressible (compress_headers skip_first [] [] bs)"

primrec read_headers2 :: "(byte list \<Rightarrow> uint256) \<Rightarrow> nat \<Rightarrow> CBlockHeader list \<Rightarrow> int list \<Rightarrow> CBlockHeader list reader" where
  "read_headers2 HashX11 0 headers vs = read_return headers"
| "read_headers2 HashX11 (Suc n) headers vs =
    read_bind unser_compressible (\<lambda>h.
      let (h, vs) = Uncompress HashX11 headers vs h in read_headers2 HashX11 n (headers @ [CBlockHeader.truncate h]) vs)"

abbreviation (input) MAX_HEADERS_RESULTS :: nat where "MAX_HEADERS_RESULTS \<equiv> 2000"

text \<open>A message with too many headers is dropped, which is the inner \<open>None\<close>.\<close>

definition receive_headers2 :: "(byte list \<Rightarrow> uint256) \<Rightarrow> CBlockHeader list option reader" where
  "receive_headers2 HashX11 = read_bind (ReadCompactSize True) (\<lambda>nCount.
     if nCount > of_nat MAX_HEADERS_RESULTS then read_return None
     else read_bind (read_headers2 HashX11 (unat nCount) [] []) (\<lambda>hs. read_return (Some hs)))"

section \<open>Reading one header\<close>

text \<open>The bit field after compression, from the offset of the version and what else is left out.\<close>

definition compressed_field :: "nat \<Rightarrow> bool \<Rightarrow> bool \<Rightarrow> byte" where
  "compressed_field k tm bits =
    (let bf = MarkAsCompressed PREV_BLOCK_HASH (if k = 0 then 0x38 else SetVersionOffset (of_nat k) 0x38);
         bf = (if tm then MarkAsCompressed TIMESTAMP bf else bf)
     in if bits then MarkAsCompressed NBITS bf else bf)"

lemma compressed_field_read:
  assumes "k \<le> 7"
  shows "GetVersionOffset (compressed_field k tm bits) = of_nat k" "IsCompressed PREV_BLOCK_HASH (compressed_field k tm bits)"
    "IsCompressed TIMESTAMP (compressed_field k tm bits) \<longleftrightarrow> tm" "IsCompressed NBITS (compressed_field k tm bits) \<longleftrightarrow> bits"
proof -
  have "k \<in> {0, 1, 2, 3, 4, 5, 6, 7}" using assms by auto
  then show "GetVersionOffset (compressed_field k tm bits) = of_nat k" "IsCompressed PREV_BLOCK_HASH (compressed_field k tm bits)"
    "IsCompressed TIMESTAMP (compressed_field k tm bits) \<longleftrightarrow> tm" "IsCompressed NBITS (compressed_field k tm bits) \<longleftrightarrow> bits"
    by (cases tm; cases bits; auto simp: compressed_field_def MarkAsCompressed_def SetVersionOffset_def GetVersionOffset_def
        IsCompressed_def VERSION_BIT_MASK_def)+
qed

lemma mk_compressible_field:
  "bit_field (mk_compressible h) = 0x38" "\<not> IsVersionCompressed 0x38" "\<not> IsCompressed PREV_BLOCK_HASH 0x38" "\<not> IsCompressed TIMESTAMP 0x38"
  "\<not> IsCompressed NBITS 0x38"
  by (simp_all add: mk_compressible_def CBlockHeader.extend_def MarkAsUncompressed_def SetVersionOffset_def VERSION_BIT_MASK_def IsCompressed_def
      IsVersionCompressed_def GetVersionOffset_def)

definition hdr_ok :: "CBlockHeader \<Rightarrow> bool" where
  "hdr_ok h \<longleftrightarrow> - (2 ^ 31) \<le> hdr_nVersion h \<and> hdr_nVersion h < 2 ^ 31 \<and> length (hashPrevBlock h) = 32 \<and> length (hdr_hashMerkleRoot h) = 32"

text \<open>The header that arrives when a header is sent.\<close>

definition wire :: "CompressibleBlockHeader \<Rightarrow> CompressibleBlockHeader" where
  "wire h = (let bf = bit_field h in
     \<lparr>hdr_nVersion = (if IsVersionCompressed bf then 0 else hdr_nVersion h),
      hashPrevBlock = (if IsCompressed PREV_BLOCK_HASH bf then replicate 32 0 else hashPrevBlock h), hdr_hashMerkleRoot = hdr_hashMerkleRoot h,
      hdr_nTime = (if IsCompressed TIMESTAMP bf then 0 else hdr_nTime h), hdr_nBits = (if IsCompressed NBITS bf then 0 else hdr_nBits h),
      hdr_nNonce = hdr_nNonce h, auxpow = None, bit_field = bf, time_offset = (if IsCompressed TIMESTAMP bf then time_offset h else 0)\<rparr>)"

lemma sint_word_of_int:
  "- (2 ^ 31) \<le> v \<Longrightarrow> v < 2 ^ 31 \<Longrightarrow> sint (word_of_int v :: u32) = v"
  "- (2 ^ 15) \<le> v \<Longrightarrow> v < 2 ^ 15 \<Longrightarrow> sint (word_of_int v :: u16) = v"
  by (simp_all add: signed_of_int signed_take_bit_int_eq_self)

lemma ser_readdata_append [simp]:
  "ser_readdata8 (ser_writedata8 x @ s) = Inr (x, s)" "ser_readdata16 (ser_writedata16 y @ s) = Inr (y, s)"
  "ser_readdata32 (ser_writedata32 z @ s) = Inr (z, s)"
  by (simp_all add: ser_readdata_iff)

lemma unser_compressible_wire:
  assumes "- (2 ^ 31) \<le> hdr_nVersion h" "hdr_nVersion h < 2 ^ 31" "length (hashPrevBlock h) = 32" "length (hdr_hashMerkleRoot h) = 32"
    and "- (2 ^ 15) \<le> time_offset h" "time_offset h < 2 ^ 15"
  shows "unser_compressible (ser_compressible h @ rest) = Inr (wire h, rest)"
proof -
  have "sint (word_of_int (hdr_nVersion h) :: u32) = hdr_nVersion h" "sint (word_of_int (time_offset h) :: u16) = time_offset h"
    using assms by (intro sint_word_of_int; simp)+
  then show ?thesis
    using assms(3,4)
    by (cases "IsVersionCompressed (bit_field h)"; cases "IsCompressed PREV_BLOCK_HASH (bit_field h)"; cases "IsCompressed TIMESTAMP (bit_field h)";
        cases "IsCompressed NBITS (bit_field h)")
      (simp_all add: unser_compressible_def ser_compressible_def wire_def Let_def read_bind_def read_return_def)
qed

section \<open>The two lists of versions\<close>

lemma std_find_le: "std_find vs v \<le> length vs"
  by (induction vs) auto

lemma std_find_nth: "std_find vs v < length vs \<Longrightarrow> vs ! std_find vs v = v"
  by (induction vs) auto

lemma prefix_mark:
  assumes "prefix vs ws" "i < length vs"
  shows "prefix (MarkVersionAsMostRecent vs i) (MarkVersionAsMostRecent ws i)" "length (MarkVersionAsMostRecent vs i) = length vs"
    "length (MarkVersionAsMostRecent ws i) = length ws"
  using assms by (auto simp: MarkVersionAsMostRecent_def prefix_def nth_append)

lemma SaveVersion_take: "length vs \<le> 7 \<Longrightarrow> SaveVersionAsMostRecent vs v = take 7 (v # vs)"
proof (cases "length vs = 7")
  case True
  then show ?thesis by (simp add: SaveVersionAsMostRecent_def Let_def butlast_conv_take)
next
  case False
  moreover assume "length vs \<le> 7"
  ultimately show ?thesis by (simp add: SaveVersionAsMostRecent_def Let_def)
qed

lemma prefix_save:
  assumes "prefix vs ws" "length ws \<le> 7"
  shows "prefix (SaveVersionAsMostRecent vs v) (SaveVersionAsMostRecent ws v)" "length (SaveVersionAsMostRecent ws v) \<le> 7"
proof -
  have l: "length vs \<le> 7" using assms prefix_length_le by fastforce
  obtain zs where "ws = vs @ zs" using assms(1) by (auto simp: prefix_def)
  then show "prefix (SaveVersionAsMostRecent vs v) (SaveVersionAsMostRecent ws v)"
    using l assms(2) by (simp add: SaveVersion_take take_is_prefix prefix_def)
  show "length (SaveVersionAsMostRecent ws v) \<le> 7" using assms(2) by (simp add: SaveVersion_take)
qed

section \<open>Sending and receiving\<close>

definition drop_auxpow :: "CBlockHeader \<Rightarrow> CBlockHeader" where
  "drop_auxpow h = h\<lparr>auxpow := None\<rparr>"

definition sent_versions :: "int list \<Rightarrow> int \<Rightarrow> int list" where
  "sent_versions vs v = (if std_find vs v < length vs then MarkVersionAsMostRecent vs (std_find vs v) else SaveVersionAsMostRecent vs v)"

text \<open>A header as it is compressed against its predecessor \<open>p\<close>.\<close>

definition compressed :: "int list \<Rightarrow> CBlockHeader \<Rightarrow> CBlockHeader \<Rightarrow> CompressibleBlockHeader" where
  "compressed vs p b =
    (let i = std_find vs (hdr_nVersion b); diff = uint (hdr_nTime b - hdr_nTime p)
     in (mk_compressible b)\<lparr>time_offset := if diff \<le> 32767 then diff else 0,
          bit_field := compressed_field (if i < length vs then i + 1 else 0) (diff \<le> 32767) (hdr_nBits b = hdr_nBits p)\<rparr>)"

lemma mk_compressible_fields [simp]:
  "hdr_nVersion (mk_compressible b) = hdr_nVersion b" "hashPrevBlock (mk_compressible b) = hashPrevBlock b"
  "hdr_hashMerkleRoot (mk_compressible b) = hdr_hashMerkleRoot b" "hdr_nTime (mk_compressible b) = hdr_nTime b"
  "hdr_nBits (mk_compressible b) = hdr_nBits b" "hdr_nNonce (mk_compressible b) = hdr_nNonce b" "time_offset (mk_compressible b) = 0"
  by (simp_all add: mk_compressible_def CBlockHeader.extend_def)

lemma Compress_compressed:
  assumes "cs \<noteq> []" "hdr_nTime (last cs) = hdr_nTime p" "hdr_nBits (last cs) = hdr_nBits p"
  shows "Compress cs vs (mk_compressible b) = (compressed vs p b, sent_versions vs (hdr_nVersion b))"
proof -
  have "0 \<le> uint (hdr_nTime b - hdr_nTime p)" by simp
  then have "- 32768 \<le> uint (hdr_nTime b - hdr_nTime p)" by linarith
  then show ?thesis
    using assms by (simp add: Compress_def compressed_def sent_versions_def compressed_field_def Let_def mk_compressible_field)
qed

lemma small_byte:
  assumes "k \<le> 7"
  shows "unat (of_nat k :: byte) = k" "(of_nat k :: byte) = 0 \<longleftrightarrow> k = 0"
proof -
  show u: "unat (of_nat k :: byte) = k" using assms by (simp add: unat_of_nat)
  show "(of_nat k :: byte) = 0 \<longleftrightarrow> k = 0" unfolding unat_eq_zero [symmetric] u ..
qed

lemma Uncompress_compressed:
  assumes "hs \<noteq> []" "last hs = drop_auxpow p" "hashPrevBlock b = header_GetHash HashX11 (pure_header p)"
    and "prefix vs ws" "length ws \<le> 7"
  shows "\<exists>u ws'. Uncompress HashX11 hs ws (wire (compressed vs p b)) = (u, ws') \<and> CBlockHeader.truncate u = drop_auxpow b \<and>
    prefix (sent_versions vs (hdr_nVersion b)) ws' \<and> length ws' \<le> 7"
proof -
  define i k where "i = std_find vs (hdr_nVersion b)" and "k = (if i < length vs then i + 1 else 0)"
  define diff where "diff = uint (hdr_nTime b - hdr_nTime p)"
  have lv: "length vs \<le> length ws" using assms(4) by (rule prefix_length_le)
  have k: "k \<le> 7" "k \<le> length ws" using lv assms(5) by (auto simp: k_def)
  note bf = compressed_field_read [OF k(1), of "diff \<le> 32767" "hdr_nBits b = hdr_nBits p"]
  note uk = small_byte [OF k(1)]
  have ver: "IsVersionCompressed (compressed_field k (diff \<le> 32767) (hdr_nBits b = hdr_nBits p)) \<longleftrightarrow> k \<noteq> 0"
    unfolding IsVersionCompressed_def bf uk ..
  have tm: "hdr_nTime p + word_of_int diff = hdr_nTime b" by (simp add: diff_def)
  have hash: "header_GetHash HashX11 (pure_header (drop_auxpow p)) = header_GetHash HashX11 (pure_header p)"
    by (simp add: pure_header_def drop_auxpow_def CPureBlockHeader.truncate_def)
  have nth: "i < length vs \<Longrightarrow> ws ! i = hdr_nVersion b"
    using assms(4) std_find_nth [of vs "hdr_nVersion b"] by (auto simp: prefix_def i_def nth_append)
  define ws' where "ws' = (if i < length vs then MarkVersionAsMostRecent ws i else SaveVersionAsMostRecent ws (hdr_nVersion b))"
  have "prefix (sent_versions vs (hdr_nVersion b)) ws'" "length ws' \<le> 7"
    using prefix_mark [OF assms(4)] prefix_save [OF assms(4,5)] assms(5) by (auto simp: sent_versions_def ws'_def i_def)
  moreover have "\<exists>u. Uncompress HashX11 hs ws (wire (compressed vs p b)) = (u, ws') \<and> CBlockHeader.truncate u = drop_auxpow b"
  proof -
    define w F where "w = wire (compressed vs p b)" and "F = compressed_field k (diff \<le> 32767) (hdr_nBits b = hdr_nBits p)"
    have c: "bit_field (compressed vs p b) = F" "time_offset (compressed vs p b) = (if diff \<le> 32767 then diff else 0)"
      by (simp_all add: compressed_def Let_def F_def k_def i_def diff_def)
    have w: "w = \<lparr>hdr_nVersion = (if k \<noteq> 0 then 0 else hdr_nVersion b), hashPrevBlock = replicate 32 0, hdr_hashMerkleRoot = hdr_hashMerkleRoot b,
        hdr_nTime = (if diff \<le> 32767 then 0 else hdr_nTime b), hdr_nBits = (if hdr_nBits b = hdr_nBits p then 0 else hdr_nBits b),
        hdr_nNonce = hdr_nNonce b, auxpow = None, bit_field = F, time_offset = (if diff \<le> 32767 then diff else 0)\<rparr>"
      using bf ver by (simp add: w_def wire_def c F_def [symmetric]) (simp add: compressed_def Let_def)
    have ws: "ws' = (if k \<noteq> 0 then MarkVersionAsMostRecent ws (k - 1) else SaveVersionAsMostRecent ws (hdr_nVersion b))"
      "k \<noteq> 0 \<Longrightarrow> ws ! (k - 1) = hdr_nVersion b" using nth by (auto simp: ws'_def k_def split: if_splits)
    show ?thesis
      using assms(1,2) bf ver uk k(2) tm hash assms(3) ws(2) unfolding w_def [symmetric] w ws(1) F_def [symmetric]
      by (cases "k = 0"; cases "diff \<le> 32767"; cases "hdr_nBits b = hdr_nBits p")
        (simp_all add: Uncompress_def Let_def CBlockHeader.truncate_def drop_auxpow_def)
  qed
  ultimately show ?thesis by blast
qed

fun linked :: "(byte list \<Rightarrow> uint256) \<Rightarrow> CBlockHeader list \<Rightarrow> bool" where
  "linked HashX11 (p # b # bs) \<longleftrightarrow> hashPrevBlock b = header_GetHash HashX11 (pure_header p) \<and> linked HashX11 (b # bs)"
| "linked HashX11 _ \<longleftrightarrow> True"

lemma compressed_fields [simp]:
  "hdr_nVersion (compressed vs p b) = hdr_nVersion b" "hashPrevBlock (compressed vs p b) = hashPrevBlock b"
  "hdr_hashMerkleRoot (compressed vs p b) = hdr_hashMerkleRoot b" "hdr_nTime (compressed vs p b) = hdr_nTime b"
  "hdr_nBits (compressed vs p b) = hdr_nBits b"
  by (simp_all add: compressed_def Let_def)

lemma compressed_offset: "0 \<le> time_offset (compressed vs p b)" "time_offset (compressed vs p b) < 2 ^ 15"
  by (simp_all add: compressed_def Let_def)

text \<open>The rest of a message, after the header \<open>p\<close>: the two lists of versions agree as far as the sender's goes.\<close>

lemma headers2_loop:
  assumes "linked HashX11 (p # bs)" "\<forall>b \<in> set bs. hdr_ok b"
    and "cs \<noteq> []" "hdr_nTime (last cs) = hdr_nTime p" "hdr_nBits (last cs) = hdr_nBits p"
    and "hs \<noteq> []" "last hs = drop_auxpow p" "prefix vs ws" "length ws \<le> 7"
  shows "\<exists>cs'. compress_headers skip_first cs vs bs = cs @ cs' \<and> length cs' = length bs \<and>
    read_headers2 HashX11 (length bs) hs ws (concat (map ser_compressible cs') @ rest) = Inr (hs @ map drop_auxpow bs, rest)"
  using assms
proof (induction bs arbitrary: p cs hs vs ws)
  case Nil
  then show ?case by (simp add: read_return_def)
next
  case (Cons b bs)
  define c where "c = compressed vs p b"
  have prev: "hashPrevBlock b = header_GetHash HashX11 (pure_header p)" using Cons.prems(1) by simp
  obtain u ws' where u: "Uncompress HashX11 hs ws (wire c) = (u, ws')" "CBlockHeader.truncate u = drop_auxpow b"
    "prefix (sent_versions vs (hdr_nVersion b)) ws'" "length ws' \<le> 7"
    using Uncompress_compressed [OF Cons.prems(6,7) prev Cons.prems(8,9)] unfolding c_def by blast
  have ok: "hdr_ok b" using Cons.prems(2) by simp
  have read: "unser_compressible (ser_compressible c @ s) = Inr (wire c, s)" for s
    by (rule unser_compressible_wire) (use ok compressed_offset [of vs p b] in \<open>simp_all add: c_def hdr_ok_def\<close>)
  have comp: "compress_headers skip_first cs vs (b # bs) = compress_headers skip_first (cs @ [c]) (sent_versions vs (hdr_nVersion b)) bs"
    using Compress_compressed [OF Cons.prems(3-5), of vs b] Cons.prems(3) by (simp add: c_def)
  obtain cs' where "compress_headers skip_first (cs @ [c]) (sent_versions vs (hdr_nVersion b)) bs = (cs @ [c]) @ cs'" "length cs' = length bs"
    "read_headers2 HashX11 (length bs) (hs @ [drop_auxpow b]) ws' (concat (map ser_compressible cs') @ rest) =
      Inr ((hs @ [drop_auxpow b]) @ map drop_auxpow bs, rest)"
    using Cons.IH [of b "cs @ [c]" "hs @ [drop_auxpow b]", OF _ _ _ _ _ _ _ u(3,4)] Cons.prems(1,2) by (auto simp: c_def)
  then show ?case unfolding comp using u(1,2) read by (intro exI [of _ "c # cs'"]) (simp add: read_bind_def)
qed

lemma mk_compressible_wire:
  "CBlockHeader.truncate (wire (mk_compressible b)) = drop_auxpow b" "hdr_nVersion (wire (mk_compressible b)) = hdr_nVersion b"
  by (simp_all add: wire_def mk_compressible_field Let_def CBlockHeader.truncate_def drop_auxpow_def)

lemma headers2_read:
  assumes "linked HashX11 bs" "\<forall>b \<in> set bs. hdr_ok b"
  shows "length (compress_headers skip_first [] [] bs) = length bs \<and>
    read_headers2 HashX11 (length bs) [] [] (concat (map ser_compressible (compress_headers skip_first [] [] bs)) @ rest) = Inr (map drop_auxpow bs, rest)"
proof (cases bs)
  case Nil
  then show ?thesis by (simp add: read_return_def)
next
  case (Cons b bs')
  define vs where "vs = (if skip_first then [] else [hdr_nVersion b])"
  have ok: "hdr_ok b" using assms(2) Cons by simp
  have read: "unser_compressible (ser_compressible (mk_compressible b) @ s) = Inr (wire (mk_compressible b), s)" for s
    by (rule unser_compressible_wire) (use ok in \<open>simp_all add: hdr_ok_def\<close>)
  have comp: "compress_headers skip_first [] [] bs = compress_headers skip_first [mk_compressible b] vs bs'"
    using Cons by (simp add: Compress_def vs_def SaveVersionAsMostRecent_def)
  have "\<exists>cs'. compress_headers skip_first [mk_compressible b] vs bs' = [mk_compressible b] @ cs' \<and> length cs' = length bs' \<and>
    read_headers2 HashX11 (length bs') [drop_auxpow b] [hdr_nVersion b] (concat (map ser_compressible cs') @ rest) = Inr ([drop_auxpow b] @ map drop_auxpow bs', rest)"
    by (rule headers2_loop [where p = b]) (use assms Cons in \<open>auto simp: vs_def\<close>)
  then obtain cs' where "compress_headers skip_first [mk_compressible b] vs bs' = mk_compressible b # cs'" "length cs' = length bs'"
    "read_headers2 HashX11 (length bs') [drop_auxpow b] [hdr_nVersion b] (concat (map ser_compressible cs') @ rest) = Inr (drop_auxpow b # map drop_auxpow bs', rest)"
    by auto
  then show ?thesis
    using read unfolding comp
    by (simp add: Cons read_bind_def Uncompress_def mk_compressible_wire SaveVersionAsMostRecent_def)
qed

lemma receive_headers2_message:
  assumes "linked HashX11 bs" "\<forall>b \<in> set bs. hdr_ok b" "length bs \<le> 2000"
  shows "receive_headers2 HashX11 (headers2_message skip_first bs @ rest) = Inr (Some (map drop_auxpow bs), rest)"
proof -
  define cs where "cs = compress_headers skip_first [] [] bs"
  have cs: "length cs = length bs"
    "read_headers2 HashX11 (length bs) [] [] (concat (map ser_compressible cs) @ rest) = Inr (map drop_auxpow bs, rest)"
    using headers2_read [OF assms(1,2)] by (simp_all add: cs_def)
  have u: "unat (of_nat (length bs) :: u64) = length bs" using assms(3) by (simp add: unat_of_nat)
  then have le: "(of_nat (length bs) :: u64) \<le> 2000" using assms(3) by (simp add: word_le_nat_alt)
  then have "(of_nat (length bs) :: u64) \<le> MAX_SIZE" by (rule order_trans) simp
  then have "ReadCompactSize True (headers2_message skip_first bs @ rest) = Inr (of_nat (length bs), concat (map ser_compressible cs) @ rest)"
    by (simp add: ReadCompactSize_iff headers2_message_def ser_vector_def cs_def [symmetric] cs(1))
  then show ?thesis using le u cs(2) by (simp add: receive_headers2_def read_bind_def read_return_def not_less)
qed

text \<open>
  C31. Headers that follow one another survive a \<^verbatim>\<open>headers2\<close> message: whether the sender passes the first header through or
  compresses it too, and whatever versions, times and targets the headers have, the receiver restores every field of every header except the
  merge-mining proof, and leaves what follows the message. The receiver's list of recent versions stays ahead of the sender's, so every offset
  that is sent names the version that was meant.
\<close>

theorem headers2_roundtrip:
  assumes "linked HashX11 bs" "\<forall>b \<in> set bs. hdr_ok b" "length bs \<le> 2000"
  shows "receive_headers2 HashX11 (headers2_message skip_first bs @ rest) = Inr (Some (map (\<lambda>b. b\<lparr>auxpow := None\<rparr>) bs), rest)"
  using receive_headers2_message [OF assms] by (simp add: drop_auxpow_def [abs_def])

definition demo_header :: CBlockHeader where
  "demo_header = \<lparr>hdr_nVersion = 1, hashPrevBlock = demo_hash, hdr_hashMerkleRoot = demo_hash, hdr_nTime = 1000, hdr_nBits = 5, hdr_nNonce = 0,
     auxpow = None\<rparr>"

definition demo_headers :: "CBlockHeader list" where
  "demo_headers = [demo_header, demo_header\<lparr>hdr_nTime := 1060, hdr_nVersion := 257, auxpow := Some demo_auxpow\<rparr>, demo_header\<lparr>hdr_nTime := 1050\<rparr>]"

lemma demo_headers_ok:
  "linked (\<lambda>_. demo_hash) demo_headers" "\<forall>b \<in> set demo_headers. hdr_ok b" "length demo_headers \<le> 2000"
  by (simp_all add: demo_headers_def demo_header_def header_GetHash_def GetPoWHash_def hdr_ok_def demo_hash_def)

theorem headers2_roundtrip_witness:
  "receive_headers2 (\<lambda>_. demo_hash) (headers2_message True demo_headers @ [7]) = Inr (Some (map (\<lambda>b. b\<lparr>auxpow := None\<rparr>) demo_headers), [7])"
  using headers2_roundtrip [of "\<lambda>_. demo_hash" demo_headers True "[7]"] demo_headers_ok by simp

text \<open>
  C32. A merge-mined header does not survive: the proof is not part of the compressed form, so the header that arrives has the version of a
  merge-mined block and no proof, and the proof of work check refuses it. Headers without a proof arrive as they were.
\<close>

theorem headers2_drops_auxpow:
  assumes "linked HashX11 bs" "\<forall>b \<in> set bs. hdr_ok b" "length bs \<le> 2000"
    and "i < length bs" "receive_headers2 HashX11 (headers2_message skip_first bs) = Inr (Some rs, rest)"
  shows "(IsAuxpow (pure_header (bs ! i)) \<longrightarrow> \<not> block_CheckProofOfWork c HashX11 (rs ! i) params) \<and> (auxpow (bs ! i) = None \<longrightarrow> rs ! i = bs ! i)"
proof -
  have rs: "rs ! i = drop_auxpow (bs ! i)" using receive_headers2_message [OF assms(1-3), of skip_first "[]"] assms(4,5) by simp
  have "pure_header (drop_auxpow (bs ! i)) = pure_header (bs ! i)" by (simp add: pure_header_def drop_auxpow_def CPureBlockHeader.truncate_def)
  then show ?thesis unfolding rs by (simp add: block_CheckProofOfWork_def Let_def drop_auxpow_def)
qed

theorem headers2_drops_auxpow_witness:
  "receive_headers2 (\<lambda>_. demo_hash) (headers2_message True demo_headers) = Inr (Some (map drop_auxpow demo_headers), []) \<and>
   IsAuxpow (pure_header (demo_headers ! 1)) \<and>
   (\<forall>params. \<not> block_CheckProofOfWork demo_crypto (\<lambda>_. demo_hash) (map drop_auxpow demo_headers ! 1) params)"
proof -
  have r: "receive_headers2 (\<lambda>_. demo_hash) (headers2_message True demo_headers) = Inr (Some (map drop_auxpow demo_headers), [])"
    using receive_headers2_message [OF demo_headers_ok, of True "[]"] by simp
  have "IsAuxpow (pure_header (demo_headers ! 1))"
    by (simp add: IsAuxpow_def pure_header_def demo_headers_def demo_header_def CPureBlockHeader.truncate_def)
  moreover have "1 < length demo_headers" by (simp add: demo_headers_def)
  ultimately show ?thesis using headers2_drops_auxpow [OF demo_headers_ok _ r] r by blast
qed

end
