(* ===== verification/Coins.thy ===== *)
theory Coins
  imports Transaction "HOL-Library.AList"
begin

text \<open>
  The set of unspent outputs and its caches: \<^verbatim>\<open>src/src/coins.h\<close> and \<^verbatim>\<open>coins.cpp\<close>, and the database view of \<^verbatim>\<open>src/src/txdb.cpp\<close>.
  The virtual methods of \<^verbatim>\<open>CCoinsView\<close> are a record of functions on the state of the view; a cache holds the state of the view it is backed by.
  An unordered map is a list of pairs with distinct keys, iterated in the order of the list; the results proved below do not depend on that order.
  The memory accounting of the cache is left out. The database stores coins by outpoint and applies a batch as a whole.
\<close>

unbundle bit_operations_syntax

section \<open>Coins and entries\<close>

record Coin =
  coin_out :: CTxOut
  fCoinBase :: bool
  coin_nHeight :: nat

definition coin_IsSpent :: "Coin \<Rightarrow> bool" where
  "coin_IsSpent cn \<longleftrightarrow> txout_IsNull (coin_out cn)"

definition coin_Clear :: "Coin \<Rightarrow> Coin" where
  "coin_Clear cn = cn\<lparr>coin_out := txout_null, fCoinBase := False, coin_nHeight := 0\<rparr>"

text \<open>The static \<^verbatim>\<open>coinEmpty\<close>, a default-constructed coin.\<close>

definition coinEmpty :: Coin where
  "coinEmpty = \<lparr>coin_out = txout_null, fCoinBase = False, coin_nHeight = 0\<rparr>"

text \<open>The height is a bit field of 31 bits.\<close>

definition mk_Coin :: "CTxOut \<Rightarrow> int \<Rightarrow> bool \<Rightarrow> Coin" where
  "mk_Coin outIn nHeightIn fCoinBaseIn = \<lparr>coin_out = outIn, fCoinBase = fCoinBaseIn, coin_nHeight = nat (nHeightIn mod 2 ^ 31)\<rparr>"

abbreviation (input) DIRTY :: byte where "DIRTY \<equiv> 1"
abbreviation (input) FRESH :: byte where "FRESH \<equiv> 2"

record CCoinsCacheEntry =
  coin :: Coin
  flags :: byte

definition is_dirty :: "CCoinsCacheEntry \<Rightarrow> bool" where "is_dirty e \<longleftrightarrow> flags e AND DIRTY \<noteq> 0"
definition is_fresh :: "CCoinsCacheEntry \<Rightarrow> bool" where "is_fresh e \<longleftrightarrow> flags e AND FRESH \<noteq> 0"

type_synonym CCoinsMap = "(COutPoint \<times> CCoinsCacheEntry) list"

datatype coins_error = Coins_assert | Overwrite_unspent | Fresh_misapplied

section \<open>Views\<close>

text \<open>The virtual methods of a view with state \<open>'b\<close>. \<^verbatim>\<open>GetCoin\<close> returns a coin exactly when the source returns true.\<close>

record 'b CCoinsView =
  v_GetCoin :: "COutPoint \<Rightarrow> 'b \<Rightarrow> Coin option \<times> 'b"
  v_HaveCoin :: "COutPoint \<Rightarrow> 'b \<Rightarrow> bool \<times> 'b"
  v_GetBestBlock :: "'b \<Rightarrow> uint256 \<times> 'b"
  v_BatchWrite :: "CCoinsMap \<Rightarrow> uint256 \<Rightarrow> 'b \<Rightarrow> coins_error + 'b"

record 'b CCoinsViewCache =
  hashBlock :: uint256
  cacheCoins :: CCoinsMap
  base :: 'b

definition hash_IsNull :: "uint256 \<Rightarrow> bool" where
  "hash_IsNull h \<longleftrightarrow> (\<forall>b \<in> set h. b = 0)"

definition FetchCoin :: "'b CCoinsView \<Rightarrow> COutPoint \<Rightarrow> 'b CCoinsViewCache \<Rightarrow> CCoinsCacheEntry option \<times> 'b CCoinsViewCache" where
  "FetchCoin V outpoint c =
    (case map_of (cacheCoins c) outpoint of
       Some e \<Rightarrow> (Some e, c)
     | None \<Rightarrow>
         (case v_GetCoin V outpoint (base c) of
            (None, b) \<Rightarrow> (None, c\<lparr>base := b\<rparr>)
          | (Some tmp, b) \<Rightarrow>
              let ret = \<lparr>coin = tmp, flags = 0\<rparr>;
                  ret = (if coin_IsSpent (coin ret) then ret\<lparr>flags := FRESH\<rparr> else ret)
              in (Some ret, c\<lparr>base := b, cacheCoins := AList.update outpoint ret (cacheCoins c)\<rparr>)))"

definition cache_GetCoin :: "'b CCoinsView \<Rightarrow> COutPoint \<Rightarrow> 'b CCoinsViewCache \<Rightarrow> Coin option \<times> 'b CCoinsViewCache" where
  "cache_GetCoin V outpoint c =
    (case FetchCoin V outpoint c of
       (Some it, c) \<Rightarrow> (if coin_IsSpent (coin it) then None else Some (coin it), c)
     | (None, c) \<Rightarrow> (None, c))"

definition AddCoin :: "COutPoint \<Rightarrow> Coin \<Rightarrow> bool \<Rightarrow> 'b CCoinsViewCache \<Rightarrow> coins_error + 'b CCoinsViewCache" where
  "AddCoin outpoint cn possible_overwrite c =
    (if coin_IsSpent cn then Inl Coins_assert
     else if IsUnspendable (scriptPubKey (coin_out cn)) then Inr c
     else let it = (case map_of (cacheCoins c) outpoint of Some e \<Rightarrow> e | None \<Rightarrow> \<lparr>coin = coinEmpty, flags = 0\<rparr>)
          in if \<not> possible_overwrite \<and> \<not> coin_IsSpent (coin it) then Inl Overwrite_unspent
             else let fresh = (if \<not> possible_overwrite then flags it AND DIRTY = 0 else False)
                  in Inr (c\<lparr>cacheCoins := AList.update outpoint \<lparr>coin = cn, flags = flags it OR (DIRTY OR (if fresh then FRESH else 0))\<rparr> (cacheCoins c)\<rparr>))"

definition EmplaceCoinInternalDANGER :: "COutPoint \<Rightarrow> Coin \<Rightarrow> 'b CCoinsViewCache \<Rightarrow> 'b CCoinsViewCache" where
  "EmplaceCoinInternalDANGER outpoint cn c =
    (if map_of (cacheCoins c) outpoint = None
     then c\<lparr>cacheCoins := AList.update outpoint \<lparr>coin = cn, flags = DIRTY\<rparr> (cacheCoins c)\<rparr> else c)"

definition SpendCoin :: "'b CCoinsView \<Rightarrow> COutPoint \<Rightarrow> 'b CCoinsViewCache \<Rightarrow> Coin option \<times> 'b CCoinsViewCache" where
  "SpendCoin V outpoint c =
    (case FetchCoin V outpoint c of
       (None, c) \<Rightarrow> (None, c)
     | (Some it, c) \<Rightarrow>
         (Some (coin it),
          if flags it AND FRESH \<noteq> 0 then c\<lparr>cacheCoins := AList.delete outpoint (cacheCoins c)\<rparr>
          else c\<lparr>cacheCoins := AList.update outpoint (it\<lparr>flags := flags it OR DIRTY, coin := coin_Clear (coin it)\<rparr>) (cacheCoins c)\<rparr>))"

definition AccessCoin :: "'b CCoinsView \<Rightarrow> COutPoint \<Rightarrow> 'b CCoinsViewCache \<Rightarrow> Coin \<times> 'b CCoinsViewCache" where
  "AccessCoin V outpoint c =
    (case FetchCoin V outpoint c of (None, c) \<Rightarrow> (coinEmpty, c) | (Some it, c) \<Rightarrow> (coin it, c))"

definition cache_HaveCoin :: "'b CCoinsView \<Rightarrow> COutPoint \<Rightarrow> 'b CCoinsViewCache \<Rightarrow> bool \<times> 'b CCoinsViewCache" where
  "cache_HaveCoin V outpoint c =
    (case FetchCoin V outpoint c of (None, c) \<Rightarrow> (False, c) | (Some it, c) \<Rightarrow> (\<not> coin_IsSpent (coin it), c))"

definition HaveCoinInCache :: "COutPoint \<Rightarrow> 'b CCoinsViewCache \<Rightarrow> bool" where
  "HaveCoinInCache outpoint c = (case map_of (cacheCoins c) outpoint of None \<Rightarrow> False | Some it \<Rightarrow> \<not> coin_IsSpent (coin it))"

definition cache_GetBestBlock :: "'b CCoinsView \<Rightarrow> 'b CCoinsViewCache \<Rightarrow> uint256 \<times> 'b CCoinsViewCache" where
  "cache_GetBestBlock V c =
    (let c = (if hash_IsNull (hashBlock c) then (let (h, b) = v_GetBestBlock V (base c) in c\<lparr>hashBlock := h, base := b\<rparr>) else c)
     in (hashBlock c, c))"

definition SetBestBlock :: "uint256 \<Rightarrow> 'b CCoinsViewCache \<Rightarrow> 'b CCoinsViewCache" where
  "SetBestBlock hashBlockIn c = c\<lparr>hashBlock := hashBlockIn\<rparr>"

text \<open>One round of the loop of \<^verbatim>\<open>BatchWrite\<close>.\<close>

definition BatchWrite_entry :: "COutPoint \<Rightarrow> CCoinsCacheEntry \<Rightarrow> CCoinsMap \<Rightarrow> coins_error + CCoinsMap" where
  "BatchWrite_entry key it cache =
    (if flags it AND DIRTY = 0 then Inr cache
     else case map_of cache key of
       None \<Rightarrow>
         if \<not> (flags it AND FRESH \<noteq> 0 \<and> coin_IsSpent (coin it))
         then Inr (AList.update key \<lparr>coin = coin it, flags = (if flags it AND FRESH \<noteq> 0 then DIRTY OR FRESH else DIRTY)\<rparr> cache)
         else Inr cache
     | Some itUs \<Rightarrow>
         if flags it AND FRESH \<noteq> 0 \<and> \<not> coin_IsSpent (coin itUs) then Inl Fresh_misapplied
         else if flags itUs AND FRESH \<noteq> 0 \<and> coin_IsSpent (coin it) then Inr (AList.delete key cache)
         else Inr (AList.update key (itUs\<lparr>coin := coin it, flags := flags itUs OR DIRTY\<rparr>) cache))"

fun BatchWrite_loop :: "CCoinsMap \<Rightarrow> CCoinsMap \<Rightarrow> coins_error + CCoinsMap" where
  "BatchWrite_loop [] cache = Inr cache"
| "BatchWrite_loop ((key, it) # mapCoins) cache =
    (case BatchWrite_entry key it cache of Inl err \<Rightarrow> Inl err | Inr cache \<Rightarrow> BatchWrite_loop mapCoins cache)"

definition cache_BatchWrite :: "CCoinsMap \<Rightarrow> uint256 \<Rightarrow> 'b CCoinsViewCache \<Rightarrow> coins_error + 'b CCoinsViewCache" where
  "cache_BatchWrite mapCoins hashBlockIn c =
    (case BatchWrite_loop mapCoins (cacheCoins c) of
       Inl err \<Rightarrow> Inl err
     | Inr cache \<Rightarrow> Inr (c\<lparr>cacheCoins := cache, hashBlock := hashBlockIn\<rparr>))"

definition Flush :: "'b CCoinsView \<Rightarrow> 'b CCoinsViewCache \<Rightarrow> coins_error + 'b CCoinsViewCache" where
  "Flush V c =
    (case v_BatchWrite V (cacheCoins c) (hashBlock c) (base c) of
       Inl err \<Rightarrow> Inl err
     | Inr b \<Rightarrow> Inr (c\<lparr>base := b, cacheCoins := []\<rparr>))"

definition Uncache :: "COutPoint \<Rightarrow> 'b CCoinsViewCache \<Rightarrow> 'b CCoinsViewCache" where
  "Uncache outpoint c =
    (case map_of (cacheCoins c) outpoint of
       Some it \<Rightarrow> if flags it = 0 then c\<lparr>cacheCoins := AList.delete outpoint (cacheCoins c)\<rparr> else c
     | None \<Rightarrow> c)"

definition cache_view :: "'b CCoinsView \<Rightarrow> 'b CCoinsViewCache CCoinsView" where
  "cache_view V = \<lparr>v_GetCoin = cache_GetCoin V, v_HaveCoin = cache_HaveCoin V, v_GetBestBlock = cache_GetBestBlock V, v_BatchWrite = cache_BatchWrite\<rparr>"

fun HaveInputs_loop :: "'b CCoinsView \<Rightarrow> CTxIn list \<Rightarrow> 'b CCoinsViewCache \<Rightarrow> bool \<times> 'b CCoinsViewCache" where
  "HaveInputs_loop V [] c = (True, c)"
| "HaveInputs_loop V (txin # ins) c =
    (case cache_HaveCoin V (prevout txin) c of (False, c) \<Rightarrow> (False, c) | (True, c) \<Rightarrow> HaveInputs_loop V ins c)"

definition HaveInputs :: "'b CCoinsView \<Rightarrow> CTransaction \<Rightarrow> 'b CCoinsViewCache \<Rightarrow> bool \<times> 'b CCoinsViewCache" where
  "HaveInputs V tx c = (if \<not> IsCoinBase tx then HaveInputs_loop V (vin tx) c else (True, c))"

fun AddCoins_loop :: "'b CCoinsView \<Rightarrow> uint256 \<Rightarrow> int \<Rightarrow> bool \<Rightarrow> bool \<Rightarrow> nat \<Rightarrow> CTxOut list \<Rightarrow> 'b CCoinsViewCache \<Rightarrow> coins_error + 'b CCoinsViewCache" where
  "AddCoins_loop V txid nHeight fCoinbase check_for_overwrite i [] c = Inr c"
| "AddCoins_loop V txid nHeight fCoinbase check_for_overwrite i (out # outs) c =
    (let outpoint = \<lparr>op_hash = txid, op_n = of_nat i\<rparr>;
         (overwrite, c) = (if check_for_overwrite then cache_HaveCoin V outpoint c else (fCoinbase, c))
     in case AddCoin outpoint (mk_Coin out nHeight fCoinbase) overwrite c of
          Inl err \<Rightarrow> Inl err
        | Inr c \<Rightarrow> AddCoins_loop V txid nHeight fCoinbase check_for_overwrite (i + 1) outs c)"

definition AddCoins :: "'b CCoinsView \<Rightarrow> (byte list \<Rightarrow> uint256) \<Rightarrow> CTransaction \<Rightarrow> int \<Rightarrow> bool \<Rightarrow> 'b CCoinsViewCache \<Rightarrow> coins_error + 'b CCoinsViewCache" where
  "AddCoins V SerializeHash tx nHeight check_for_overwrite c =
    AddCoins_loop V (tx_GetHash SerializeHash tx) nHeight (IsCoinBase tx) check_for_overwrite 0 (vout tx) c"

section \<open>The database view\<close>

record coins_db =
  db_coins :: "COutPoint \<rightharpoonup> Coin"
  db_best_block :: "uint256 option"
  db_head_blocks :: "uint256 list option"

datatype db_op =
    Erase_best | Write_best uint256 | Erase_heads | Write_heads "uint256 list" | Erase_coin COutPoint | Write_coin COutPoint Coin

fun db_apply :: "db_op \<Rightarrow> coins_db \<Rightarrow> coins_db" where
  "db_apply Erase_best db = db\<lparr>db_best_block := None\<rparr>"
| "db_apply (Write_best h) db = db\<lparr>db_best_block := Some h\<rparr>"
| "db_apply Erase_heads db = db\<lparr>db_head_blocks := None\<rparr>"
| "db_apply (Write_heads hs) db = db\<lparr>db_head_blocks := Some hs\<rparr>"
| "db_apply (Erase_coin k) db = db\<lparr>db_coins := (db_coins db)(k := None)\<rparr>"
| "db_apply (Write_coin k cn) db = db\<lparr>db_coins := (db_coins db)(k \<mapsto> cn)\<rparr>"

definition WriteBatch :: "db_op list \<Rightarrow> coins_db \<Rightarrow> coins_db" where
  "WriteBatch batch db = fold db_apply batch db"

definition db_GetCoin :: "COutPoint \<Rightarrow> coins_db \<Rightarrow> Coin option \<times> coins_db" where
  "db_GetCoin outpoint db = (db_coins db outpoint, db)"

definition db_HaveCoin :: "COutPoint \<Rightarrow> coins_db \<Rightarrow> bool \<times> coins_db" where
  "db_HaveCoin outpoint db = (db_coins db outpoint \<noteq> None, db)"

definition db_GetBestBlock :: "coins_db \<Rightarrow> uint256 \<times> coins_db" where
  "db_GetBestBlock db = (case db_best_block db of None \<Rightarrow> replicate 32 0 | Some h \<Rightarrow> h, db)"

definition db_GetHeadBlocks :: "coins_db \<Rightarrow> uint256 list" where
  "db_GetHeadBlocks db = (case db_head_blocks db of None \<Rightarrow> [] | Some hs \<Rightarrow> hs)"

text \<open>The old tip, with the assertion that a replay ends at the same block.\<close>

definition db_old_tip :: "uint256 \<Rightarrow> coins_db \<Rightarrow> coins_error + uint256" where
  "db_old_tip hash db =
    (let old_tip = fst (db_GetBestBlock db); old_heads = db_GetHeadBlocks db
     in if hash_IsNull old_tip \<and> length old_heads = 2
        then if old_heads ! 0 \<noteq> hash then Inl Coins_assert else Inr (old_heads ! 1)
        else Inr old_tip)"

text \<open>The loop that fills batches; \<open>full\<close> is the comparison of the estimated size with the batch size. The result is the full batches and the rest.\<close>

fun batch_loop :: "(db_op list \<Rightarrow> bool) \<Rightarrow> db_op list \<Rightarrow> CCoinsMap \<Rightarrow> db_op list list \<times> db_op list" where
  "batch_loop full batch [] = ([], batch)"
| "batch_loop full batch ((key, it) # mapCoins) =
    (let batch = (if flags it AND DIRTY \<noteq> 0
                  then batch @ [if coin_IsSpent (coin it) then Erase_coin key else Write_coin key (coin it)] else batch)
     in if full batch then (let (bs, rest) = batch_loop full [] mapCoins in (batch # bs, rest))
        else batch_loop full batch mapCoins)"

definition db_batches :: "(db_op list \<Rightarrow> bool) \<Rightarrow> CCoinsMap \<Rightarrow> uint256 \<Rightarrow> uint256 \<Rightarrow> db_op list list" where
  "db_batches full mapCoins hash old_tip =
    (let (bs, rest) = batch_loop full [Erase_best, Write_heads [hash, old_tip]] mapCoins
     in bs @ [rest @ [Erase_heads, Write_best hash]])"

definition db_BatchWrite :: "(db_op list \<Rightarrow> bool) \<Rightarrow> CCoinsMap \<Rightarrow> uint256 \<Rightarrow> coins_db \<Rightarrow> coins_error + coins_db" where
  "db_BatchWrite full mapCoins hash db =
    (if hash_IsNull hash then Inl Coins_assert
     else case db_old_tip hash db of
       Inl err \<Rightarrow> Inl err
     | Inr old_tip \<Rightarrow> Inr (fold WriteBatch (db_batches full mapCoins hash old_tip) db))"

definition db_view :: "(db_op list \<Rightarrow> bool) \<Rightarrow> coins_db CCoinsView" where
  "db_view full = \<lparr>v_GetCoin = db_GetCoin, v_HaveCoin = db_HaveCoin, v_GetBestBlock = db_GetBestBlock, v_BatchWrite = db_BatchWrite full\<rparr>"

section \<open>Flags and maps\<close>

lemma is_dirty_bit: "is_dirty e \<longleftrightarrow> bit (flags e) 0" "is_fresh e \<longleftrightarrow> bit (flags e) 1"
  using and_exp_eq_0_iff_not_bit [of "flags e" 0] and_exp_eq_0_iff_not_bit [of "flags e" 1] by (simp_all add: is_dirty_def is_fresh_def)

lemma bit_small_byte: "bit (1 :: byte) n \<longleftrightarrow> n = 0" "bit (2 :: byte) n \<longleftrightarrow> n = 1" "bit (3 :: byte) n \<longleftrightarrow> n = 0 \<or> n = 1"
  using bit_exp_iff [where 'a = "8 word", of 1 n] bit_or_iff [of "1 :: byte" 2 n] by (auto simp: bit_1_iff)

lemma flags_0: "flags e = 0 \<Longrightarrow> \<not> is_dirty e" "flags e = 0 \<Longrightarrow> \<not> is_fresh e"
  by (simp_all add: is_dirty_def is_fresh_def)

lemma is_flag_sym: "flags e AND 1 = 0 \<longleftrightarrow> \<not> is_dirty e" "flags e AND 2 = 0 \<longleftrightarrow> \<not> is_fresh e"
  by (simp_all add: is_dirty_def is_fresh_def)

lemma coin_Clear_spent [simp]: "coin_IsSpent (coin_Clear cn)" "coin_IsSpent coinEmpty"
  by (simp_all add: coin_IsSpent_def coin_Clear_def coinEmpty_def txout_IsNull_def txout_null_def)

lemma map_of_update [simp]: "map_of (AList.update k e m) = (map_of m)(k \<mapsto> e)"
  by (rule update_conv')

lemma map_of_delete [simp]: "map_of (AList.delete k m) = (map_of m)(k := None)"
  by (rule delete_conv')

section \<open>What a view promises\<close>

definition live :: "CCoinsCacheEntry \<Rightarrow> Coin option" where
  "live e = (if coin_IsSpent (coin e) then None else Some (coin e))"

text \<open>The effect of writing a map of entries to a view that stands for the coins \<open>m\<close>.\<close>

definition written :: "CCoinsMap \<Rightarrow> (COutPoint \<rightharpoonup> Coin) \<Rightarrow> COutPoint \<rightharpoonup> Coin" where
  "written ms m k = (case map_of ms k of Some e \<Rightarrow> if is_dirty e then live e else m k | None \<Rightarrow> m k)"

lemma written_Cons:
  assumes "map_of ms k = None"
  shows "written ((k, e) # ms) m = written ms (m(k := if is_dirty e then live e else m k))"
  using assms by (auto simp: written_def fun_eq_iff split: option.split)

text \<open>
  A view stands for a set of unspent coins \<open>utxo\<close> at a block \<open>best\<close>. Reading may change the state of the view and nothing else. A batch can be
  written when every entry that is marked fresh stands for a coin the view does not have.
\<close>

locale coins_view =
  fixes V :: "'b CCoinsView" and ok :: "'b \<Rightarrow> bool" and utxo :: "'b \<Rightarrow> COutPoint \<rightharpoonup> Coin" and best :: "'b \<Rightarrow> uint256"
  assumes GetCoin: "ok b \<Longrightarrow> v_GetCoin V k b = (r, b') \<Longrightarrow> r = utxo b k \<and> ok b' \<and> utxo b' = utxo b \<and> best b' = best b"
    and HaveCoin: "ok b \<Longrightarrow> v_HaveCoin V k b = (h, b') \<Longrightarrow> h = (utxo b k \<noteq> None) \<and> ok b' \<and> utxo b' = utxo b \<and> best b' = best b"
    and GetBestBlock: "ok b \<Longrightarrow> v_GetBestBlock V b = (hash, b') \<Longrightarrow> hash = best b \<and> ok b' \<and> utxo b' = utxo b \<and> best b' = best b"
    and unspent: "ok b \<Longrightarrow> utxo b k = Some cn \<Longrightarrow> \<not> coin_IsSpent cn"
    and BatchWrite: "ok b \<Longrightarrow> distinct (map fst ms) \<Longrightarrow> \<not> hash_IsNull hash \<Longrightarrow>
      (\<And>k e. map_of ms k = Some e \<Longrightarrow> is_dirty e \<Longrightarrow> is_fresh e \<Longrightarrow> utxo b k = None) \<Longrightarrow>
      \<exists>b'. v_BatchWrite V ms hash b = Inr b' \<and> ok b' \<and> utxo b' = written ms (utxo b) \<and> best b' = hash"

section \<open>Invariant of a cache\<close>

text \<open>
  The states of an entry over a view that has \<open>u\<close> for its outpoint: an entry that is not dirty agrees with the view, a fresh one stands for a coin
  the view does not have, and the combinations of flags are the five that \<^verbatim>\<open>coins.h\<close> lists.
\<close>

definition entry_ok :: "Coin option \<Rightarrow> CCoinsCacheEntry \<Rightarrow> bool" where
  "entry_ok u e \<longleftrightarrow> (is_fresh e \<longrightarrow> u = None) \<and> (\<not> is_dirty e \<longrightarrow> u = live e) \<and> (coin_IsSpent (coin e) \<longrightarrow> is_fresh e \<noteq> is_dirty e)"

definition cache_inv :: "('b \<Rightarrow> bool) \<Rightarrow> ('b \<Rightarrow> COutPoint \<rightharpoonup> Coin) \<Rightarrow> 'b CCoinsViewCache \<Rightarrow> bool" where
  "cache_inv ok utxo c \<longleftrightarrow> ok (base c) \<and> distinct (map fst (cacheCoins c)) \<and>
     (\<forall>k e. map_of (cacheCoins c) k = Some e \<longrightarrow> entry_ok (utxo (base c) k) e)"

definition over :: "CCoinsMap \<Rightarrow> (COutPoint \<rightharpoonup> Coin) \<Rightarrow> COutPoint \<rightharpoonup> Coin" where
  "over cache m k = (case map_of cache k of Some e \<Rightarrow> live e | None \<Rightarrow> m k)"

definition cache_utxo :: "('b \<Rightarrow> COutPoint \<rightharpoonup> Coin) \<Rightarrow> 'b CCoinsViewCache \<Rightarrow> COutPoint \<rightharpoonup> Coin" where
  "cache_utxo utxo c = over (cacheCoins c) (utxo (base c))"

definition cache_best :: "('b \<Rightarrow> uint256) \<Rightarrow> 'b CCoinsViewCache \<Rightarrow> uint256" where
  "cache_best best c = (if hash_IsNull (hashBlock c) then best (base c) else hashBlock c)"

lemma over_update: "over (AList.update k e cache) m = (over cache m)(k := live e)"
  by (auto simp: over_def fun_eq_iff)

lemma over_delete: "over (AList.delete k cache) m = (over cache m)(k := m k)"
  by (auto simp: over_def fun_eq_iff)

lemma over_Nil: "over [] m = m"
  by (simp add: over_def fun_eq_iff)

lemma live_None: "live e = None \<longleftrightarrow> coin_IsSpent (coin e)"
  by (simp add: live_def)

text \<open>Writing one entry into a cache.\<close>

definition entries_ok :: "(COutPoint \<rightharpoonup> Coin) \<Rightarrow> CCoinsMap \<Rightarrow> bool" where
  "entries_ok m cache \<longleftrightarrow> distinct (map fst cache) \<and> (\<forall>k e. map_of cache k = Some e \<longrightarrow> entry_ok (m k) e)"

lemma entries_ok_update: "entries_ok m cache \<Longrightarrow> entry_ok (m k) e \<Longrightarrow> entries_ok m (AList.update k e cache)"
  by (auto simp: entries_ok_def distinct_update)

lemma entries_ok_delete: "entries_ok m cache \<Longrightarrow> entries_ok m (AList.delete k cache)"
  by (auto simp: entries_ok_def distinct_delete)

lemma BatchWrite_entry_ok:
  assumes "entries_ok m cache" and fresh: "is_dirty e \<Longrightarrow> is_fresh e \<Longrightarrow> over cache m k = None"
  shows "\<exists>cache'. BatchWrite_entry k e cache = Inr cache' \<and> entries_ok m cache' \<and>
    over cache' m = (over cache m)(k := if is_dirty e then live e else over cache m k)"
proof (cases "is_dirty e")
  case False
  then show ?thesis using assms(1) by (simp add: BatchWrite_entry_def is_flag_sym)
next
  case True
  show ?thesis
  proof (cases "map_of cache k")
    case None
    define e' where "e' = \<lparr>coin = coin e, flags = (if is_fresh e then DIRTY OR FRESH else DIRTY)\<rparr>"
    have e': "is_dirty e'" "is_fresh e' \<longleftrightarrow> is_fresh e" "live e' = live e" "coin e' = coin e"
      by (simp_all add: e'_def is_dirty_bit bit_or_iff bit_small_byte live_def)
    have m: "is_fresh e \<Longrightarrow> m k = None" using fresh True None by (simp add: over_def)
    show ?thesis
    proof (cases "is_fresh e \<and> coin_IsSpent (coin e)")
      case True
      then have "over cache m = (over cache m)(k := live e)" using m None by (auto simp: over_def live_def fun_eq_iff)
      with True \<open>is_dirty e\<close> show ?thesis using None assms(1) by (simp add: BatchWrite_entry_def is_flag_sym)
    next
      case False
      then have "entry_ok (m k) e'" using m by (auto simp: entry_ok_def e')
      moreover have "BatchWrite_entry k e cache = Inr (AList.update k e' cache)"
        using True False None by (simp add: BatchWrite_entry_def is_flag_sym e'_def)
      ultimately show ?thesis using True entries_ok_update [OF assms(1)] by (simp add: over_update e')
    qed
  next
    case (Some us)
    have us: "entry_ok (m k) us" using assms(1) Some by (simp add: entries_ok_def)
    have nt: "\<not> (is_fresh e \<and> \<not> coin_IsSpent (coin us))" using fresh True Some by (auto simp: over_def live_None)
    define e' where "e' = us\<lparr>coin := coin e, flags := flags us OR DIRTY\<rparr>"
    have e': "is_dirty e'" "is_fresh e' \<longleftrightarrow> is_fresh us" "live e' = live e" "coin e' = coin e"
      by (simp_all add: e'_def is_dirty_bit bit_or_iff bit_small_byte live_def)
    show ?thesis
    proof (cases "is_fresh us \<and> coin_IsSpent (coin e)")
      case True
      then have "m k = live e" using us by (simp add: entry_ok_def live_def)
      moreover have "BatchWrite_entry k e cache = Inr (AList.delete k cache)"
        using \<open>is_dirty e\<close> True nt Some by (auto simp: BatchWrite_entry_def is_flag_sym)
      ultimately show ?thesis using \<open>is_dirty e\<close> entries_ok_delete [OF assms(1)] by (simp add: over_delete)
    next
      case False
      then have "entry_ok (m k) e'" using us by (auto simp: entry_ok_def e')
      moreover have "BatchWrite_entry k e cache = Inr (AList.update k e' cache)"
        using \<open>is_dirty e\<close> False nt Some by (auto simp: BatchWrite_entry_def is_flag_sym e'_def)
      ultimately show ?thesis using \<open>is_dirty e\<close> entries_ok_update [OF assms(1)] by (simp add: over_update e')
    qed
  qed
qed

lemma BatchWrite_loop_ok:
  assumes "entries_ok m cache" "distinct (map fst ms)"
    and "\<And>k e. map_of ms k = Some e \<Longrightarrow> is_dirty e \<Longrightarrow> is_fresh e \<Longrightarrow> over cache m k = None"
  shows "\<exists>cache'. BatchWrite_loop ms cache = Inr cache' \<and> entries_ok m cache' \<and> over cache' m = written ms (over cache m)"
  using assms
proof (induction ms arbitrary: cache)
  case Nil
  then show ?case by (simp add: written_def [abs_def])
next
  case (Cons ke ms)
  obtain k e where ke: "ke = (k, e)" by (cases ke)
  have "is_dirty e \<Longrightarrow> is_fresh e \<Longrightarrow> over cache m k = None" using Cons.prems(3) [of k e] by (simp add: ke)
  from BatchWrite_entry_ok [OF Cons.prems(1) this] obtain cache' where c: "BatchWrite_entry k e cache = Inr cache'" "entries_ok m cache'"
    "over cache' m = (over cache m)(k := if is_dirty e then live e else over cache m k)" by blast
  have k: "map_of ms k = None" using Cons.prems(2) by (simp add: ke map_of_eq_None_iff)
  have d: "distinct (map fst ms)" using Cons.prems(2) by simp
  have f: "over cache' m k' = None" if "map_of ms k' = Some e'" "is_dirty e'" "is_fresh e'" for k' e'
    using Cons.prems(3) [of k' e'] that k c(3) by (auto simp: ke)
  have "\<exists>cache2. BatchWrite_loop ms cache' = Inr cache2 \<and> entries_ok m cache2 \<and> over cache2 m = written ms (over cache' m)"
    by (rule Cons.IH [OF c(2) d]) (rule f)
  then obtain cache2 where "BatchWrite_loop ms cache' = Inr cache2" "entries_ok m cache2" "over cache2 m = written ms (over cache' m)" by blast
  moreover have "written ms (over cache' m) = written ((k, e) # ms) (over cache m)"
    by (simp add: written_Cons [OF k] c(3))
  ultimately show ?case using c(1) by (simp add: ke)
qed

section \<open>A cache over a view\<close>

lemma cache_inv_entries: "cache_inv ok utxo c \<longleftrightarrow> ok (base c) \<and> entries_ok (utxo (base c)) (cacheCoins c)"
  by (simp add: cache_inv_def entries_ok_def)

lemma entry_ok_dirty:
  "is_dirty e \<Longrightarrow> entry_ok u e \<longleftrightarrow> (is_fresh e \<longrightarrow> u = None \<and> \<not> coin_IsSpent (coin e))"
  by (auto simp: entry_ok_def)

context coins_view
begin

abbreviation cok :: "'b CCoinsViewCache \<Rightarrow> bool" where "cok \<equiv> cache_inv ok utxo"
abbreviation cutxo :: "'b CCoinsViewCache \<Rightarrow> COutPoint \<rightharpoonup> Coin" where "cutxo \<equiv> cache_utxo utxo"
abbreviation cbest :: "'b CCoinsViewCache \<Rightarrow> uint256" where "cbest \<equiv> cache_best best"

lemma FetchCoin_ok:
  assumes "cok c" "FetchCoin V k c = (r, c')"
  shows "cok c' \<and> cutxo c' = cutxo c \<and> cbest c' = cbest c \<and> hashBlock c' = hashBlock c \<and> map_of (cacheCoins c') k = r \<and>
    (case r of None \<Rightarrow> cutxo c k = None | Some e \<Rightarrow> cutxo c k = live e)"
proof (cases "map_of (cacheCoins c) k")
  case (Some e)
  then have "r = Some e" "c' = c" using assms(2) by (simp_all add: FetchCoin_def)
  then show ?thesis using assms(1) Some by (simp add: cache_utxo_def over_def)
next
  case None
  obtain u b where ub: "v_GetCoin V k (base c) = (u, b)" by (cases "v_GetCoin V k (base c)")
  have c: "ok (base c)" "entries_ok (utxo (base c)) (cacheCoins c)" using assms(1) by (simp_all add: cache_inv_entries)
  have b: "u = utxo (base c) k" "ok b" "utxo b = utxo (base c)" "best b = best (base c)" using GetCoin [OF c(1) ub] by auto
  have cu: "cutxo c k = utxo (base c) k" using None by (simp add: cache_utxo_def over_def)
  show ?thesis
  proof (cases u)
    case None
    then have "r = None" "c' = c\<lparr>base := b\<rparr>" using assms(2) ub \<open>map_of (cacheCoins c) k = None\<close> by (simp_all add: FetchCoin_def)
    then show ?thesis using b c cu None \<open>map_of (cacheCoins c) k = None\<close> by (simp add: cache_inv_entries cache_utxo_def cache_best_def)
  next
    case (Some cn)
    define e where "e = \<lparr>coin = cn, flags = 0\<rparr>"
    have "\<not> coin_IsSpent cn" using unspent [OF c(1)] b(1) Some by metis
    then have r: "r = Some e" "c' = c\<lparr>base := b, cacheCoins := AList.update k e (cacheCoins c)\<rparr>" and l: "live e = Some cn"
      using assms(2) ub None Some by (simp_all add: FetchCoin_def Let_def e_def live_def)
    have "entry_ok (utxo (base c) k) e" using flags_0 [of e] l b(1) Some \<open>\<not> coin_IsSpent cn\<close> by (simp add: entry_ok_def e_def)
    then show ?thesis
      using entries_ok_update [OF c(2)] b c l cu Some
      by (simp add: r cache_inv_entries cache_utxo_def cache_best_def over_update fun_upd_idem_iff)
  qed
qed

lemma FetchCoin_obtain:
  assumes "cok c"
  obtains (None) c' where "FetchCoin V k c = (None, c')" "cok c'" "cutxo c' = cutxo c" "cbest c' = cbest c" "hashBlock c' = hashBlock c" "cutxo c k = None"
  | (Some) c' e where "FetchCoin V k c = (Some e, c')" "cok c'" "cutxo c' = cutxo c" "cbest c' = cbest c" "hashBlock c' = hashBlock c"
      "cutxo c k = live e" "map_of (cacheCoins c') k = Some e"
proof -
  obtain r c' where f: "FetchCoin V k c = (r, c')" by (cases "FetchCoin V k c")
  note FetchCoin_ok [OF assms f]
  then show ?thesis using None Some f by (cases r) simp_all
qed

lemma cache_GetCoin_ok:
  assumes "cok c" "cache_GetCoin V k c = (r, c')"
  shows "r = cutxo c k \<and> cok c' \<and> cutxo c' = cutxo c \<and> cbest c' = cbest c"
  using assms(1) by (cases rule: FetchCoin_obtain [where k = k]) (use assms(2) in \<open>auto simp: cache_GetCoin_def live_def\<close>)

lemma cache_HaveCoin_ok:
  assumes "cok c" "cache_HaveCoin V k c = (h, c')"
  shows "h = (cutxo c k \<noteq> None) \<and> cok c' \<and> cutxo c' = cutxo c \<and> cbest c' = cbest c"
  using assms(1) by (cases rule: FetchCoin_obtain [where k = k]) (use assms(2) in \<open>auto simp: cache_HaveCoin_def live_def\<close>)

lemma AccessCoin_ok:
  assumes "cok c" "AccessCoin V k c = (cn, c')"
  shows "(if coin_IsSpent cn then None else Some cn) = cutxo c k \<and> cok c' \<and> cutxo c' = cutxo c \<and> cbest c' = cbest c"
  using assms(1) by (cases rule: FetchCoin_obtain [where k = k]) (use assms(2) in \<open>auto simp: AccessCoin_def live_def\<close>)

lemma cache_GetBestBlock_ok:
  assumes "cok c" "cache_GetBestBlock V c = (hash, c')"
  shows "hash = cbest c \<and> cok c' \<and> cutxo c' = cutxo c \<and> cbest c' = cbest c"
proof (cases "hash_IsNull (hashBlock c)")
  case True
  obtain h b where hb: "v_GetBestBlock V (base c) = (h, b)" by (cases "v_GetBestBlock V (base c)")
  then have "h = best (base c)" "ok b" "utxo b = utxo (base c)" "best b = best (base c)"
    using GetBestBlock [of "base c"] assms(1) by (auto simp: cache_inv_entries)
  then show ?thesis using assms hb True by (auto simp: cache_GetBestBlock_def cache_inv_entries cache_utxo_def cache_best_def)
next
  case False
  then show ?thesis using assms by (auto simp: cache_GetBestBlock_def cache_best_def)
qed

lemma cache_BatchWrite_ok:
  assumes "cok c" "distinct (map fst ms)" "\<not> hash_IsNull hash"
    and "\<And>k e. map_of ms k = Some e \<Longrightarrow> is_dirty e \<Longrightarrow> is_fresh e \<Longrightarrow> cutxo c k = None"
  shows "\<exists>c'. cache_BatchWrite ms hash c = Inr c' \<and> cok c' \<and> cutxo c' = written ms (cutxo c) \<and> cbest c' = hash"
proof -
  have "\<exists>cache'. BatchWrite_loop ms (cacheCoins c) = Inr cache' \<and> entries_ok (utxo (base c)) cache' \<and>
      over cache' (utxo (base c)) = written ms (over (cacheCoins c) (utxo (base c)))"
    by (rule BatchWrite_loop_ok) (use assms in \<open>auto simp: cache_inv_entries cache_utxo_def\<close>)
  then show ?thesis using assms(1,3) by (auto simp: cache_BatchWrite_def cache_inv_entries cache_utxo_def cache_best_def)
qed

lemma cache_unspent: "cok c \<Longrightarrow> cutxo c k = Some cn \<Longrightarrow> \<not> coin_IsSpent cn"
  using unspent [of "base c"] by (auto simp: cache_inv_entries cache_utxo_def over_def live_def split: option.splits if_splits)

text \<open>So a cache is a view again, and caches can be stacked.\<close>

lemma cache_is_view: "coins_view (cache_view V) cok cutxo cbest"
proof (unfold_locales, simp_all only: cache_view_def CCoinsView.select_convs, goal_cases)
  case 1
  then show ?case by (rule cache_GetCoin_ok)
next
  case 2
  then show ?case by (rule cache_HaveCoin_ok)
next
  case 3
  then show ?case by (rule cache_GetBestBlock_ok)
next
  case 4
  then show ?case by (rule cache_unspent)
next
  case 5
  then show ?case by (rule cache_BatchWrite_ok)
qed

lemma AddCoin_ok:
  assumes "cok c" "\<not> coin_IsSpent cn" "overwrite \<or> cutxo c k = None"
  shows "\<exists>c'. AddCoin k cn overwrite c = Inr c' \<and> cok c' \<and> cbest c' = cbest c \<and> hashBlock c' = hashBlock c \<and>
    cutxo c' = (if IsUnspendable (scriptPubKey (coin_out cn)) then cutxo c else (cutxo c)(k \<mapsto> cn))"
proof (cases "IsUnspendable (scriptPubKey (coin_out cn))")
  case True
  then show ?thesis using assms by (simp add: AddCoin_def)
next
  case False
  define it where "it = (case map_of (cacheCoins c) k of Some e \<Rightarrow> e | None \<Rightarrow> \<lparr>coin = coinEmpty, flags = 0\<rparr>)"
  define e where "e = \<lparr>coin = cn, flags = flags it OR (DIRTY OR (if \<not> overwrite \<and> \<not> is_dirty it then FRESH else 0))\<rparr>"
  have c: "ok (base c)" "entries_ok (utxo (base c)) (cacheCoins c)" using assms(1) by (simp_all add: cache_inv_entries)
  have e: "is_dirty e" "is_fresh e \<longleftrightarrow> is_fresh it \<or> \<not> overwrite \<and> \<not> is_dirty it" "live e = Some cn" "coin e = cn"
    using assms(2) by (simp_all add: e_def is_dirty_bit bit_or_iff bit_small_byte live_def)
  have it: "(\<not> overwrite \<longrightarrow> coin_IsSpent (coin it)) \<and> (is_fresh it \<longrightarrow> utxo (base c) k = None) \<and>
      (\<not> overwrite \<and> \<not> is_dirty it \<longrightarrow> utxo (base c) k = None)"
  proof (cases "map_of (cacheCoins c) k")
    case None
    then show ?thesis using assms(3) flags_0 [of it] by (auto simp: it_def cache_utxo_def over_def)
  next
    case (Some e0)
    then have "entry_ok (utxo (base c) k) e0" "it = e0" "cutxo c k = live e0" using c(2) by (simp_all add: entries_ok_def it_def cache_utxo_def over_def)
    then show ?thesis using assms(3) by (auto simp: entry_ok_def live_None)
  qed
  have "AddCoin k cn overwrite c = Inr (c\<lparr>cacheCoins := AList.update k e (cacheCoins c)\<rparr>)"
    using assms(2) False it unfolding AddCoin_def it_def [symmetric] Let_def e_def by (auto simp: is_flag_sym)
  moreover have "entry_ok (utxo (base c) k) e" using it e assms(2) by (auto simp: entry_ok_dirty)
  ultimately show ?thesis
    using entries_ok_update [OF c(2)] c False by (simp add: cache_inv_entries cache_utxo_def cache_best_def over_update e)
qed

lemma SpendCoin_ok:
  assumes "cok c" "SpendCoin V k c = (r, c')"
  shows "cok c' \<and> cbest c' = cbest c \<and> hashBlock c' = hashBlock c \<and> cutxo c' = (cutxo c)(k := None) \<and>
    (case cutxo c k of Some cn \<Rightarrow> r = Some cn | None \<Rightarrow> \<forall>cn. r = Some cn \<longrightarrow> coin_IsSpent cn)"
proof -
  show ?thesis using assms(1)
  proof (cases rule: FetchCoin_obtain [where k = k])
    case (None c1)
    then show ?thesis using assms(2) by (auto simp: SpendCoin_def)
  next
    case (Some c1 e)
    have ok: "ok (base c1)" "entries_ok (utxo (base c1)) (cacheCoins c1)" using Some(2) by (simp_all add: cache_inv_entries)
    have e: "entry_ok (utxo (base c1) k) e" using ok(2) Some(7) by (simp add: entries_ok_def)
    have r: "r = Some (coin e)" using assms(2) Some(1) by (simp add: SpendCoin_def)
    define e' where "e' = e\<lparr>flags := flags e OR DIRTY, coin := coin_Clear (coin e)\<rparr>"
    have e': "is_dirty e'" "is_fresh e' \<longleftrightarrow> is_fresh e" "live e' = None"
      by (simp_all add: e'_def is_dirty_bit bit_or_iff bit_small_byte live_def)
    have "cok c' \<and> cbest c' = cbest c1 \<and> hashBlock c' = hashBlock c1 \<and> cutxo c' = (cutxo c1)(k := None)"
    proof (cases "is_fresh e")
      case True
      then have "c' = c1\<lparr>cacheCoins := AList.delete k (cacheCoins c1)\<rparr>" "utxo (base c1) k = None"
        using assms(2) Some(1) e by (simp_all add: SpendCoin_def is_flag_sym entry_ok_def)
      then show ?thesis using ok entries_ok_delete by (simp add: cache_inv_entries cache_utxo_def cache_best_def over_delete)
    next
      case False
      then have "c' = c1\<lparr>cacheCoins := AList.update k e' (cacheCoins c1)\<rparr>" "entry_ok (utxo (base c1) k) e'"
        using assms(2) Some(1) e e' by (simp_all add: SpendCoin_def is_flag_sym entry_ok_dirty e'_def)
      then show ?thesis using ok entries_ok_update e' by (simp add: cache_inv_entries cache_utxo_def cache_best_def over_update)
    qed
    then show ?thesis using Some(3-6) r by (simp add: live_def)
  qed
qed

lemma Uncache_ok:
  assumes "cok c"
  shows "cok (Uncache k c) \<and> cutxo (Uncache k c) = cutxo c \<and> cbest (Uncache k c) = cbest c \<and> hashBlock (Uncache k c) = hashBlock c"
proof (cases "\<exists>e. map_of (cacheCoins c) k = Some e \<and> flags e = 0")
  case True
  then obtain e where e: "map_of (cacheCoins c) k = Some e" "flags e = 0" by blast
  have c: "ok (base c)" "entries_ok (utxo (base c)) (cacheCoins c)" using assms by (simp_all add: cache_inv_entries)
  have "utxo (base c) k = live e" using c(2) e flags_0 [of e] by (auto simp: entries_ok_def entry_ok_def)
  then have "over (AList.delete k (cacheCoins c)) (utxo (base c)) = over (cacheCoins c) (utxo (base c))"
    using e by (auto simp: over_delete over_def fun_eq_iff)
  then show ?thesis using e c entries_ok_delete by (simp add: Uncache_def cache_inv_entries cache_utxo_def cache_best_def)
next
  case False
  then show ?thesis using assms by (auto simp: Uncache_def split: option.splits)
qed

lemma Flush_ok:
  assumes "cok c" "\<not> hash_IsNull (hashBlock c)"
  shows "\<exists>c'. Flush V c = Inr c' \<and> cok c' \<and> cutxo c' = cutxo c \<and> hashBlock c' = hashBlock c \<and> cacheCoins c' = [] \<and>
    utxo (base c') = cutxo c \<and> best (base c') = hashBlock c"
proof -
  have c: "ok (base c)" "entries_ok (utxo (base c)) (cacheCoins c)" using assms(1) by (simp_all add: cache_inv_entries)
  have "\<exists>b'. v_BatchWrite V (cacheCoins c) (hashBlock c) (base c) = Inr b' \<and> ok b' \<and> utxo b' = written (cacheCoins c) (utxo (base c)) \<and> best b' = hashBlock c"
    by (rule BatchWrite) (use c assms(2) in \<open>auto simp: entries_ok_def entry_ok_def\<close>)
  moreover have "written (cacheCoins c) (utxo (base c)) = over (cacheCoins c) (utxo (base c))"
    using c(2) by (auto simp: written_def over_def entries_ok_def entry_ok_def fun_eq_iff split: option.splits)
  ultimately show ?thesis by (auto simp: Flush_def cache_inv_entries entries_ok_def cache_utxo_def over_Nil)
qed

end

section \<open>Sequences of operations\<close>

text \<open>The operations of a cache as a client sees them, and their effect on the pair of the coins and the block of the cache.\<close>

datatype coins_op = Get COutPoint | Have COutPoint | Add COutPoint Coin bool | Spend COutPoint | Forget COutPoint | Set_best uint256 | Sync

datatype coins_answer = Coin_answer "Coin option" | Bool_answer bool | No_answer

text \<open>A coin that was spent before counts as no coin, as the callers treat it.\<close>

definition run_op :: "'b CCoinsView \<Rightarrow> coins_op \<Rightarrow> 'b CCoinsViewCache \<Rightarrow> coins_error + (coins_answer \<times> 'b CCoinsViewCache)" where
  "run_op V op c =
    (case op of
       Get k \<Rightarrow> let (r, c) = cache_GetCoin V k c in Inr (Coin_answer r, c)
     | Have k \<Rightarrow> let (h, c) = cache_HaveCoin V k c in Inr (Bool_answer h, c)
     | Add k cn overwrite \<Rightarrow> (case AddCoin k cn overwrite c of Inl err \<Rightarrow> Inl err | Inr c \<Rightarrow> Inr (No_answer, c))
     | Spend k \<Rightarrow> let (r, c) = SpendCoin V k c in Inr (Coin_answer (Option.bind r (\<lambda>cn. if coin_IsSpent cn then None else Some cn)), c)
     | Forget k \<Rightarrow> Inr (No_answer, Uncache k c)
     | Set_best h \<Rightarrow> Inr (No_answer, SetBestBlock h c)
     | Sync \<Rightarrow> (case Flush V c of Inl err \<Rightarrow> Inl err | Inr c \<Rightarrow> Inr (No_answer, c)))"

fun run_ops :: "'b CCoinsView \<Rightarrow> coins_op list \<Rightarrow> 'b CCoinsViewCache \<Rightarrow> coins_error + (coins_answer list \<times> 'b CCoinsViewCache)" where
  "run_ops V [] c = Inr ([], c)"
| "run_ops V (op # ops) c =
    (case run_op V op c of
       Inl err \<Rightarrow> Inl err
     | Inr (a, c) \<Rightarrow> (case run_ops V ops c of Inl err \<Rightarrow> Inl err | Inr (as, c) \<Rightarrow> Inr (a # as, c)))"

type_synonym coins_state = "(COutPoint \<rightharpoonup> Coin) \<times> uint256"

text \<open>
  The specification: \<open>None\<close> for a use the documentation of the cache forbids, which is adding a spent coin, adding over an unspent coin without saying so,
  or flushing before a block is set.
\<close>

fun spec_op :: "coins_op \<Rightarrow> coins_state \<Rightarrow> (coins_answer \<times> coins_state) option" where
  "spec_op (Get k) (m, h) = Some (Coin_answer (m k), (m, h))"
| "spec_op (Have k) (m, h) = Some (Bool_answer (m k \<noteq> None), (m, h))"
| "spec_op (Add k cn overwrite) (m, h) =
    (if coin_IsSpent cn \<or> (\<not> overwrite \<and> m k \<noteq> None) then None
     else Some (No_answer, (if IsUnspendable (scriptPubKey (coin_out cn)) then m else m(k \<mapsto> cn), h)))"
| "spec_op (Spend k) (m, h) = Some (Coin_answer (m k), (m(k := None), h))"
| "spec_op (Forget k) (m, h) = Some (No_answer, (m, h))"
| "spec_op (Set_best h') (m, h) = Some (No_answer, (m, h'))"
| "spec_op Sync (m, h) = (if hash_IsNull h then None else Some (No_answer, (m, h)))"

fun spec_ops :: "coins_op list \<Rightarrow> coins_state \<Rightarrow> (coins_answer list \<times> coins_state) option" where
  "spec_ops [] s = Some ([], s)"
| "spec_ops (op # ops) s =
    (case spec_op op s of
       None \<Rightarrow> None
     | Some (a, s) \<Rightarrow> (case spec_ops ops s of None \<Rightarrow> None | Some (as, s) \<Rightarrow> Some (a # as, s)))"

context coins_view
begin

lemma run_op_spec:
  assumes "cok c" "spec_op op (cutxo c, hashBlock c) = Some (a, s)"
  shows "\<exists>c'. run_op V op c = Inr (a, c') \<and> cok c' \<and> (cutxo c', hashBlock c') = s"
proof (cases op)
  case (Get k)
  obtain r c' where g: "cache_GetCoin V k c = (r, c')" by (cases "cache_GetCoin V k c")
  have "hashBlock c' = hashBlock c" using assms(1) by (cases rule: FetchCoin_obtain [where k = k]) (use g in \<open>auto simp: cache_GetCoin_def\<close>)
  then show ?thesis using assms(2) cache_GetCoin_ok [OF assms(1) g] g by (auto simp: Get run_op_def)
next
  case (Have k)
  obtain r c' where g: "cache_HaveCoin V k c = (r, c')" by (cases "cache_HaveCoin V k c")
  have "hashBlock c' = hashBlock c" using assms(1) by (cases rule: FetchCoin_obtain [where k = k]) (use g in \<open>auto simp: cache_HaveCoin_def\<close>)
  then show ?thesis using assms(2) cache_HaveCoin_ok [OF assms(1) g] g by (auto simp: Have run_op_def)
next
  case (Add k cn overwrite)
  then have "\<not> coin_IsSpent cn" "overwrite \<or> cutxo c k = None" using assms(2) by (auto split: if_splits)
  from AddCoin_ok [OF assms(1) this] show ?thesis using assms(2) by (auto simp: Add run_op_def split: if_splits)
next
  case (Spend k)
  obtain r c' where g: "SpendCoin V k c = (r, c')" by (cases "SpendCoin V k c")
  note SpendCoin_ok [OF assms(1) g]
  moreover have "Option.bind r (\<lambda>cn. if coin_IsSpent cn then None else Some cn) = cutxo c k"
    using SpendCoin_ok [OF assms(1) g] cache_unspent [OF assms(1), of k] by (cases r; cases "cutxo c k") auto
  ultimately show ?thesis using assms(2) g by (auto simp: Spend run_op_def)
next
  case (Forget k)
  then show ?thesis using assms(2) Uncache_ok [OF assms(1)] by (auto simp: run_op_def)
next
  case (Set_best h)
  then show ?thesis using assms by (auto simp: run_op_def SetBestBlock_def cache_inv_def cache_utxo_def)
next
  case Sync
  then have "\<not> hash_IsNull (hashBlock c)" using assms(2) by (auto split: if_splits)
  from Flush_ok [OF assms(1) this] show ?thesis using assms(2) by (auto simp: Sync run_op_def split: if_splits)
qed

lemma run_ops_spec:
  assumes "cok c" "spec_ops ops (cutxo c, hashBlock c) = Some (as, s)"
  shows "\<exists>c'. run_ops V ops c = Inr (as, c') \<and> cok c' \<and> (cutxo c', hashBlock c') = s"
  using assms
proof (induction ops arbitrary: c as)
  case Nil
  then show ?case by simp
next
  case (Cons op ops)
  obtain a s1 as1 where s: "spec_op op (cutxo c, hashBlock c) = Some (a, s1)" "spec_ops ops s1 = Some (as1, s)" "as = a # as1"
    using Cons.prems(2) by (auto split: option.splits prod.splits)
  obtain c1 where c1: "run_op V op c = Inr (a, c1)" "cok c1" "(cutxo c1, hashBlock c1) = s1" using run_op_spec [OF Cons.prems(1) s(1)] by blast
  obtain c' where "run_ops V ops c1 = Inr (as1, c')" "cok c'" "(cutxo c', hashBlock c') = s" using Cons.IH [OF c1(2)] s(2) c1(3) by blast
  then show ?case using c1(1) s(3) by simp
qed

end

section \<open>The database as a view\<close>

definition coin_ops :: "CCoinsMap \<Rightarrow> db_op list" where
  "coin_ops ms = concat (map (\<lambda>(k, e). if is_dirty e then [if coin_IsSpent (coin e) then Erase_coin k else Write_coin k (coin e)] else []) ms)"

lemma coin_ops_simps:
  "coin_ops [] = []"
  "coin_ops ((k, e) # ms) = (if is_dirty e then [if coin_IsSpent (coin e) then Erase_coin k else Write_coin k (coin e)] else []) @ coin_ops ms"
  by (simp_all add: coin_ops_def)

lemma batch_loop_concat: "batch_loop full batch ms = (bs, rest) \<Longrightarrow> concat bs @ rest = batch @ coin_ops ms"
  by (induction full batch ms arbitrary: bs rest rule: batch_loop.induct)
    (auto simp: coin_ops_simps is_flag_sym Let_def split: if_splits prod.splits)

lemma batch_loop_prefix:
  assumes "batch_loop full batch ms = (bs, rest)" "0 < n" "n \<le> length bs"
  shows "\<exists>j. concat (take n bs) = batch @ coin_ops (take j ms)"
  using assms
proof (induction full batch ms arbitrary: bs rest n rule: batch_loop.induct)
  case (1 full batch)
  then show ?case by simp
next
  case (2 full batch k e ms)
  define b where "b = (if is_dirty e then batch @ [if coin_IsSpent (coin e) then Erase_coin k else Write_coin k (coin e)] else batch)"
  have b: "b @ coin_ops (take j ms) = batch @ coin_ops (take (Suc j) ((k, e) # ms))" for j by (simp add: b_def coin_ops_simps)
  show ?case
  proof (cases "full b")
    case False
    then have "\<exists>j. concat (take n bs) = b @ coin_ops (take j ms)" using "2.IH"(2) [of b bs rest n] "2.prems" by (simp add: b_def is_flag_sym Let_def)
    then show ?thesis using b by metis
  next
    case True
    obtain bs' rest' where l: "batch_loop full [] ms = (bs', rest')" by (cases "batch_loop full [] ms")
    then have bs: "bs = b # bs'" using "2.prems"(1) True by (simp add: b_def is_flag_sym Let_def)
    show ?thesis
    proof (cases "n = 1")
      case True
      then show ?thesis using b [of 0] bs by (auto simp: coin_ops_simps intro: exI [of _ "Suc 0"])
    next
      case False
      then have "\<exists>j. concat (take (n - 1) bs') = [] @ coin_ops (take j ms)"
        using "2.IH"(1) [of b bs' rest' "n - 1"] "2.prems"(2,3) True l bs by (simp add: b_def is_flag_sym Let_def)
      then obtain j where "concat (take (n - 1) bs') = coin_ops (take j ms)" by auto
      moreover have "concat (take n bs) = b @ concat (take (n - 1) bs')" using "2.prems"(2) by (cases n) (simp_all add: bs)
      ultimately show ?thesis using b by metis
    qed
  qed
qed

lemma WriteBatch_concat: "fold WriteBatch bs db = fold db_apply (concat bs) db"
  by (induction bs arbitrary: db) (simp_all add: WriteBatch_def)

lemma fold_coin_ops:
  assumes "distinct (map fst ms)"
  shows "fold db_apply (coin_ops ms) db = db\<lparr>db_coins := written ms (db_coins db)\<rparr>"
  using assms
proof (induction ms arbitrary: db)
  case Nil
  then show ?case by (simp add: coin_ops_simps written_def [abs_def])
next
  case (Cons ke ms)
  obtain k e where ke: "ke = (k, e)" by (cases ke)
  define m where "m = (db_coins db)(k := if is_dirty e then live e else db_coins db k)"
  have "written ms m = written ((k, e) # ms) (db_coins db)"
    using Cons.prems written_Cons [of ms k e "db_coins db"] by (simp add: m_def ke map_of_eq_None_iff)
  moreover have "fold db_apply (coin_ops [(k, e)]) db = db\<lparr>db_coins := m\<rparr>" by (simp add: coin_ops_simps m_def live_def)
  then have "fold db_apply (coin_ops (ke # ms)) db = fold db_apply (coin_ops ms) (db\<lparr>db_coins := m\<rparr>)" by (simp add: ke coin_ops_simps)
  ultimately show ?case using Cons by (simp add: ke)
qed

text \<open>The complete write, and what is there after only some of the batches.\<close>

lemma db_batches_all:
  assumes "distinct (map fst ms)"
  shows "fold WriteBatch (db_batches full ms hash old_tip) db =
    \<lparr>db_coins = written ms (db_coins db), db_best_block = Some hash, db_head_blocks = None, \<dots> = coins_db.more db\<rparr>"
proof -
  obtain bs rest where l: "batch_loop full [Erase_best, Write_heads [hash, old_tip]] ms = (bs, rest)"
    by (cases "batch_loop full [Erase_best, Write_heads [hash, old_tip]] ms")
  have "concat (db_batches full ms hash old_tip) = (concat bs @ rest) @ [Erase_heads, Write_best hash]" by (simp add: db_batches_def l)
  then show ?thesis by (simp add: WriteBatch_concat batch_loop_concat [OF l] fold_coin_ops [OF assms])
qed

lemma db_batches_some:
  assumes "distinct (map fst ms)" "0 < n" "n < length (db_batches full ms hash old_tip)"
  shows "\<exists>j. fold WriteBatch (take n (db_batches full ms hash old_tip)) db =
    \<lparr>db_coins = written (take j ms) (db_coins db), db_best_block = None, db_head_blocks = Some [hash, old_tip], \<dots> = coins_db.more db\<rparr>"
proof -
  obtain bs rest where l: "batch_loop full [Erase_best, Write_heads [hash, old_tip]] ms = (bs, rest)"
    by (cases "batch_loop full [Erase_best, Write_heads [hash, old_tip]] ms")
  have "n \<le> length bs" using assms(3) by (simp add: db_batches_def l)
  then have "take n (db_batches full ms hash old_tip) = take n bs" by (simp add: db_batches_def l)
  moreover obtain j where "concat (take n bs) = [Erase_best, Write_heads [hash, old_tip]] @ coin_ops (take j ms)"
    using batch_loop_prefix [OF l assms(2) \<open>n \<le> length bs\<close>] by blast
  moreover have "distinct (map fst (take j ms))" for j using assms(1) by (simp add: take_map [symmetric])
  ultimately show ?thesis by (intro exI [of _ j]) (simp add: WriteBatch_concat fold_coin_ops)
qed

definition db_ok :: "coins_db \<Rightarrow> bool" where
  "db_ok db \<longleftrightarrow> db_head_blocks db = None \<and> (\<forall>k cn. db_coins db k = Some cn \<longrightarrow> \<not> coin_IsSpent cn)"

definition db_best :: "coins_db \<Rightarrow> uint256" where
  "db_best db = (case db_best_block db of None \<Rightarrow> replicate 32 0 | Some h \<Rightarrow> h)"

lemma written_unspent:
  assumes "\<forall>k cn. m k = Some cn \<longrightarrow> \<not> coin_IsSpent cn"
  shows "\<forall>k cn. written ms m k = Some cn \<longrightarrow> \<not> coin_IsSpent cn"
  using assms by (auto simp: written_def live_def split: option.splits if_splits)

interpretation db_v: coins_view "db_view full" db_ok db_coins db_best for full
proof (unfold_locales, simp_all only: db_view_def CCoinsView.select_convs, goal_cases)
  case 5
  then show ?case
    using written_unspent
    by (auto simp: db_BatchWrite_def db_old_tip_def db_GetHeadBlocks_def db_GetBestBlock_def db_batches_all db_ok_def db_best_def)
qed (auto simp: db_GetCoin_def db_HaveCoin_def db_GetBestBlock_def db_ok_def db_best_def)

text \<open>The tip of the chain state is a cache over the database, and a block is connected in a cache over the tip.\<close>

interpretation tip_v: coins_view "cache_view (db_view full)" "cache_inv db_ok db_coins" "cache_utxo db_coins" "cache_best db_best" for full
  by (rule db_v.cache_is_view)

abbreviation (input) block_ok :: "coins_db CCoinsViewCache CCoinsViewCache \<Rightarrow> bool" where
  "block_ok \<equiv> cache_inv (cache_inv db_ok db_coins) (cache_utxo db_coins)"

abbreviation (input) block_utxo :: "coins_db CCoinsViewCache CCoinsViewCache \<Rightarrow> COutPoint \<rightharpoonup> Coin" where
  "block_utxo \<equiv> cache_utxo (cache_utxo db_coins)"

interpretation block_v: coins_view "cache_view (cache_view (db_view full))" block_ok block_utxo "cache_best (cache_best db_best)" for full
  by (rule tip_v.cache_is_view)

section \<open>Properties of the coins\<close>

lemma cache_fields:
  fixes c :: "'b CCoinsViewCache"
  shows "base (c\<lparr>hashBlock := h\<rparr>) = base c" "hashBlock (c\<lparr>hashBlock := h\<rparr>) = h" "cacheCoins (c\<lparr>hashBlock := h\<rparr>) = cacheCoins c"
    "base (c\<lparr>base := b, cacheCoins := cs\<rparr>) = b"
  by simp_all

lemma cache_BatchWrite_hash: "cache_BatchWrite ms h c = Inr c' \<Longrightarrow> hashBlock c' = h"
  by (auto simp: cache_BatchWrite_def split: sum.splits)

lemma Flush_base: "Flush V c = Inr c' \<Longrightarrow> v_BatchWrite V (cacheCoins c) (hashBlock c) (base c) = Inr (base c')"
  by (auto simp: Flush_def split: sum.splits)

text \<open>
  C33. The cache in which a block is connected, over the cache of the tip, over the database, behaves like one map of unspent coins. Any sequence
  of reading, adding, spending, forgetting and flushing that the documentation allows returns without an exception, gives the answers of the map,
  and ends in a state that stands for the final map, whatever the flags and the spread of the entries over the levels.
\<close>

theorem coins_cache_refines:
  assumes "block_ok v" "spec_ops ops (block_utxo v, hashBlock v) = Some (answers, coins, hash)"
  shows "\<exists>v'. run_ops (cache_view (db_view full)) ops v = Inr (answers, v') \<and> block_ok v' \<and> block_utxo v' = coins \<and> hashBlock v' = hash"
  using tip_v.run_ops_spec [OF assms] by auto

definition demo_key :: COutPoint where "demo_key = \<lparr>op_hash = replicate 32 9, op_n = 0\<rparr>"

definition demo_coin :: Coin where "demo_coin = \<lparr>coin_out = \<lparr>nValue = 50, scriptPubKey = []\<rparr>, fCoinBase = False, coin_nHeight = 7\<rparr>"

definition demo_db :: coins_db where "demo_db = \<lparr>db_coins = Map.empty, db_best_block = None, db_head_blocks = None\<rparr>"

definition empty_cache :: "'b \<Rightarrow> 'b CCoinsViewCache" where "empty_cache b = \<lparr>hashBlock = replicate 32 0, cacheCoins = [], base = b\<rparr>"

lemma demo_coin_ok: "\<not> coin_IsSpent demo_coin" "\<not> IsUnspendable (scriptPubKey (coin_out demo_coin))"
  by (simp_all add: demo_coin_def coin_IsSpent_def txout_IsNull_def IsUnspendable_def)

lemma demo_db_ok: "db_ok demo_db" "cache_inv db_ok db_coins (empty_cache demo_db)" "block_ok (empty_cache (empty_cache demo_db))"
  by (simp_all add: db_ok_def demo_db_def cache_inv_def empty_cache_def)

definition demo_ops :: "coins_op list" where
  "demo_ops = [Add demo_key demo_coin False, Have demo_key, Set_best [1], Sync, Spend demo_key, Get demo_key]"

lemma demo_ops_spec:
  "spec_ops demo_ops (Map.empty, h) =
    Some ([No_answer, Bool_answer True, No_answer, No_answer, Coin_answer (Some demo_coin), Coin_answer None], Map.empty, [1])"
  using demo_coin_ok by (simp add: demo_ops_def hash_IsNull_def)

theorem coins_cache_refines_witness:
  "\<exists>v. run_ops (cache_view (db_view (\<lambda>b. length b > 1))) demo_ops (empty_cache (empty_cache demo_db)) =
     Inr ([No_answer, Bool_answer True, No_answer, No_answer, Coin_answer (Some demo_coin), Coin_answer None], v) \<and> block_utxo v = Map.empty"
proof -
  have "block_utxo (empty_cache (empty_cache demo_db)) = Map.empty"
    by (simp add: cache_utxo_def over_Nil empty_cache_def demo_db_def)
  then show ?thesis using coins_cache_refines [OF demo_db_ok(3), of demo_ops] demo_ops_spec by fastforce
qed

text \<open>
  C34. Every entry of the cache of the tip is in one of the five states that \<^verbatim>\<open>coins.h\<close> calls valid: after any sequence of allowed
  operations on an empty cache over the database, an unspent entry is dirty or not fresh, and a spent one is either fresh or dirty but not both.
\<close>

theorem coins_entry_states:
  assumes "db_ok db" "spec_ops ops (db_coins db, hashBlock c) = Some r" "cacheCoins c = []" "base c = db"
    and "run_ops (db_view full) ops c = Inr (answers, c')" "(k, e) \<in> set (cacheCoins c')"
  shows "if coin_IsSpent (coin e) then (flags e AND FRESH = 0) \<noteq> (flags e AND DIRTY = 0)
    else flags e AND DIRTY \<noteq> 0 \<or> flags e AND FRESH = 0"
proof -
  have "cache_inv db_ok db_coins c" "cache_utxo db_coins c = db_coins db" using assms(1,3,4) by (simp_all add: cache_inv_def cache_utxo_def over_Nil)
  moreover obtain as s where "r = (as, s)" by (cases r)
  ultimately obtain c1 where "run_ops (db_view full) ops c = Inr (as, c1)" "cache_inv db_ok db_coins c1"
    using db_v.run_ops_spec [of c ops as s full] assms(2) by auto
  then have "cache_inv db_ok db_coins c'" using assms(5) by simp
  then have "entry_ok (db_coins (base c') k) e" using assms(6) by (auto simp: cache_inv_def)
  then show ?thesis by (auto simp: is_flag_sym entry_ok_def live_def)
qed

theorem coins_entry_states_witness:
  "\<exists>c'. run_ops (db_view (\<lambda>b. True)) [Add demo_key demo_coin False] (empty_cache demo_db) = Inr ([No_answer], c') \<and>
     (demo_key, \<lparr>coin = demo_coin, flags = 3\<rparr>) \<in> set (cacheCoins c') \<and> \<not> coin_IsSpent demo_coin \<and>
     (flags \<lparr>coin = demo_coin, flags = 3\<rparr> AND DIRTY \<noteq> 0 \<or> flags \<lparr>coin = demo_coin, flags = 3\<rparr> AND FRESH = 0)"
proof -
  define c' where "c' = (empty_cache demo_db)\<lparr>cacheCoins := [(demo_key, \<lparr>coin = demo_coin, flags = 3\<rparr>)]\<rparr>"
  have run: "run_ops (db_view (\<lambda>b. True)) [Add demo_key demo_coin False] (empty_cache demo_db) = Inr ([No_answer], c')"
    using demo_coin_ok by (simp add: run_op_def AddCoin_def c'_def empty_cache_def)
  have e: "(demo_key, \<lparr>coin = demo_coin, flags = 3\<rparr>) \<in> set (cacheCoins c')" by (simp add: c'_def)
  have spec: "spec_ops [Add demo_key demo_coin False] (db_coins demo_db, hashBlock (empty_cache demo_db)) =
      Some ([No_answer], (db_coins demo_db)(demo_key \<mapsto> demo_coin), hashBlock (empty_cache demo_db))"
    using demo_coin_ok by (simp add: demo_db_def)
  show ?thesis using coins_entry_states [OF demo_db_ok(1) spec _ _ run e] run e demo_coin_ok(1) by (auto simp: empty_cache_def)
qed

text \<open>
  C35. What is in the cache reaches the database: flushing the cache of a block and then the cache of the tip succeeds and leaves in the database
  exactly the coins the cache of the block stood for, at the block it had been set to, marked as consistent.
\<close>

theorem Flush_to_database:
  assumes "block_ok v" "\<not> hash_IsNull (hashBlock v)"
  shows "\<exists>v' tip. Flush (cache_view (db_view full)) v = Inr v' \<and> Flush (db_view full) (base v') = Inr tip \<and>
    db_coins (base tip) = block_utxo v \<and> db_best (base tip) = hashBlock v \<and> db_head_blocks (base tip) = None"
proof -
  obtain v' where v': "Flush (cache_view (db_view full)) v = Inr v'" "block_ok v'" "cache_utxo db_coins (base v') = block_utxo v"
    using tip_v.Flush_ok [OF assms] by blast
  have "hashBlock (base v') = hashBlock v" 
    using Flush_base [OF v'(1)] cache_BatchWrite_hash by (simp add: cache_view_def)
  moreover have "cache_inv db_ok db_coins (base v')" using v'(2) by (simp add: cache_inv_def)
  ultimately obtain tip where "Flush (db_view full) (base v') = Inr tip" "cache_inv db_ok db_coins tip"
    "db_coins (base tip) = block_utxo v" "db_best (base tip) = hashBlock v"
    using db_v.Flush_ok [of "base v'"] assms(2) v'(3) by metis
  then show ?thesis using v'(1) by (auto simp: cache_inv_def db_ok_def)
qed

theorem Flush_to_database_witness:
  "\<exists>v' tip. Flush (cache_view (db_view (\<lambda>b. True))) (SetBestBlock [1] (empty_cache (empty_cache demo_db))) = Inr v' \<and>
    Flush (db_view (\<lambda>b. True)) (base v') = Inr tip \<and> db_best (base tip) = [1]"
proof -
  have "block_ok (SetBestBlock [1] (empty_cache (empty_cache demo_db)))" 
    using demo_db_ok(3) by (simp add: SetBestBlock_def cache_inv_def cache_fields)
  moreover have "hashBlock (SetBestBlock [1] (empty_cache (empty_cache demo_db))) = [1]" "\<not> hash_IsNull [1]"
    by (simp_all add: SetBestBlock_def hash_IsNull_def cache_fields)
  ultimately show ?thesis using Flush_to_database [of "SetBestBlock [1] (empty_cache (empty_cache demo_db))" "\<lambda>b. True"] by auto
qed

text \<open>
  C36. A crash between the batches of a write is visible and can be repaired: after any number of the batches but the last, the database has no best
  block and names the blocks it is between, every coin has its old or its new value, and writing the same changes again passes the assertions and
  leaves exactly what the uninterrupted write would have left.
\<close>

theorem db_crash_recovery:
  assumes "db_ok db" "\<not> hash_IsNull hash" "distinct (map fst ms)"
    and "0 < n" "n < length (db_batches full ms hash (db_best db))"
    and "db' = fold WriteBatch (take n (db_batches full ms hash (db_best db))) db"
  shows "db_best_block db' = None \<and> db_GetHeadBlocks db' = [hash, db_best db] \<and>
    (\<forall>k. db_coins db' k = db_coins db k \<or> (\<exists>db''. db_BatchWrite full ms hash db = Inr db'' \<and> db_coins db' k = db_coins db'' k)) \<and>
    db_BatchWrite full' ms hash db' = db_BatchWrite full ms hash db"
proof -
  obtain j where db': "db' = \<lparr>db_coins = written (take j ms) (db_coins db), db_best_block = None, db_head_blocks = Some [hash, db_best db]\<rparr>"
    using db_batches_some [OF assms(3-5), of db] unfolding assms(6) by auto
  have d: "distinct (map fst (take j ms))" using assms(3) by (simp add: take_map [symmetric])
  have sub: "map_of (take j ms) k = Some e \<Longrightarrow> map_of ms k = Some e" for k e
    using assms(3) d by (auto dest!: in_set_takeD simp: map_of_eq_Some_iff)
  have w: "written (take j ms) m k = m k \<or> written (take j ms) m k = written ms m k" for m k
    using sub [of k] by (cases "map_of (take j ms) k") (auto simp: written_def)
  have ww: "written ms (written (take j ms) m) = written ms m" for m
  proof
    show "written ms (written (take j ms) m) k = written ms m k" for k
      using sub [of k] by (cases "map_of (take j ms) k"; cases "map_of ms k") (auto simp: written_def)
  qed
  have "db_BatchWrite full ms hash db = Inr \<lparr>db_coins = written ms (db_coins db), db_best_block = Some hash, db_head_blocks = None\<rparr>"
    using assms(1-3) by (simp add: db_BatchWrite_def db_old_tip_def db_GetHeadBlocks_def db_GetBestBlock_def db_batches_all db_ok_def db_best_def)
  moreover have "db_BatchWrite full' ms hash db' = Inr \<lparr>db_coins = written ms (db_coins db), db_best_block = Some hash, db_head_blocks = None\<rparr>"
    using assms(2,3) by (simp add: db' db_BatchWrite_def db_old_tip_def db_GetHeadBlocks_def db_GetBestBlock_def db_batches_all ww hash_IsNull_def)
  ultimately show ?thesis using w [of "db_coins db"] by (simp add: db' db_GetHeadBlocks_def)
qed

theorem db_crash_recovery_witness:
  "db_best_block (WriteBatch [Erase_best, Write_heads [[1], replicate 32 0], Write_coin demo_key demo_coin] demo_db) = None \<and>
   db_BatchWrite (\<lambda>b. False) [(demo_key, \<lparr>coin = demo_coin, flags = 1\<rparr>)] [1]
     (WriteBatch [Erase_best, Write_heads [[1], replicate 32 0], Write_coin demo_key demo_coin] demo_db) =
   db_BatchWrite (\<lambda>b. True) [(demo_key, \<lparr>coin = demo_coin, flags = 1\<rparr>)] [1] demo_db"
proof -
  have b: "db_batches (\<lambda>b. True) [(demo_key, \<lparr>coin = demo_coin, flags = 1\<rparr>)] [1] (db_best demo_db) =
      [[Erase_best, Write_heads [[1], replicate 32 0], Write_coin demo_key demo_coin], [Erase_heads, Write_best [1]]]"
    using demo_coin_ok(1) by (simp add: db_batches_def db_best_def demo_db_def)
  show ?thesis
    using db_crash_recovery [OF demo_db_ok(1), of "[1]" "[(demo_key, \<lparr>coin = demo_coin, flags = 1\<rparr>)]" 1 "\<lambda>b. True" _ "\<lambda>b. False", OF _ _ _ _ refl] b
    by (simp add: hash_IsNull_def)
qed

end
