(* ===== verification/Tx_Verify.thy ===== *)
theory Tx_Verify
  imports Merkle Chain Coins
begin

text \<open>
  Checks of transactions: \<^verbatim>\<open>src/src/consensus/tx_check.cpp\<close> and \<^verbatim>\<open>src/src/consensus/tx_verify.cpp\<close>. Reasons for refusal are values of an error
  type; a failed assertion and the exception of \<^verbatim>\<open>GetValueOut\<close> are among them. Operations that read coins return the new state of the cache.
  Heights and times are integers: the sums of the source stay far below the width of their types for heights a chain can have.
  The fee in the payload of an asset unlock transaction is a parameter.
\<close>

unbundle bit_operations_syntax

section \<open>Context-free checks\<close>

datatype tx_error =
    Vin_empty | Vout_empty | Oversize | Payload_oversize | Vout_negative | Vout_toolarge | Txouttotal_toolarge | Inputs_duplicate | Cb_length | Prevout_null
  | Inputs_missingorspent | Premature_spend_of_coinbase | Inputvalues_outofrange | In_belowout | Fee_outofrange
  | Assetunlocktx_payload | Assetunlock_fee_outofrange | Accumulated_fee_outofrange | Nonfinal | Blk_sigops | Scripts_failed
  | Assertion_failed | Value_out_of_range

abbreviation (input) MAX_TX_EXTRA_PAYLOAD :: nat where "MAX_TX_EXTRA_PAYLOAD \<equiv> 10000"

fun CheckTransaction_outputs :: "CTxOut list \<Rightarrow> CAmount \<Rightarrow> tx_error option" where
  "CheckTransaction_outputs [] nValueOut = None"
| "CheckTransaction_outputs (txout # outs) nValueOut =
    (if nValue txout < 0 then Some Vout_negative
     else if nValue txout > MAX_MONEY then Some Vout_toolarge
     else let nValueOut = nValueOut + nValue txout
          in if \<not> MoneyRange nValueOut then Some Txouttotal_toolarge else CheckTransaction_outputs outs nValueOut)"

fun CheckTransaction_inputs :: "CTxIn list \<Rightarrow> COutPoint set \<Rightarrow> bool" where
  "CheckTransaction_inputs [] vInOutPoints = True"
| "CheckTransaction_inputs (txin # ins) vInOutPoints =
    (if prevout txin \<in> vInOutPoints then False else CheckTransaction_inputs ins (insert (prevout txin) vInOutPoints))"

definition CheckTransaction :: "CTransaction \<Rightarrow> tx_error option" where
  "CheckTransaction tx =
    (let allowEmptyTxIn = (nType tx = TRANSACTION_QUORUM_COMMITMENT \<or> nType tx = TRANSACTION_MNHF_SIGNAL \<or> nType tx = TRANSACTION_ASSET_UNLOCK);
         allowEmptyTxOut = (nType tx = TRANSACTION_QUORUM_COMMITMENT \<or> nType tx = TRANSACTION_MNHF_SIGNAL)
     in if \<not> allowEmptyTxIn \<and> vin tx = [] then Some Vin_empty
        else if \<not> allowEmptyTxOut \<and> vout tx = [] then Some Vout_empty
        else if GetTotalSize tx > MAX_LEGACY_BLOCK_SIZE then Some Oversize
        else if length (vExtraPayload tx) > MAX_TX_EXTRA_PAYLOAD then Some Payload_oversize
        else case CheckTransaction_outputs (vout tx) 0 of
          Some err \<Rightarrow> Some err
        | None \<Rightarrow>
            if \<not> CheckTransaction_inputs (vin tx) {} then Some Inputs_duplicate
            else if IsCoinBase tx then
              (let minCbSize = (if nType tx = TRANSACTION_COINBASE then 1 else 2); size = length (scriptSig (vin tx ! 0))
               in if size < minCbSize \<or> size > 100 then Some Cb_length else None)
            else if (\<exists>txin \<in> set (vin tx). outpoint_IsNull (prevout txin)) then Some Prevout_null
            else None)"

section \<open>Lock times\<close>

definition IsFinalTx :: "CTransaction \<Rightarrow> int \<Rightarrow> int \<Rightarrow> bool" where
  "IsFinalTx tx nBlockHeight nBlockTime \<longleftrightarrow>
    nLockTime tx = 0 \<or>
    uint (nLockTime tx) < (if uint (nLockTime tx) < int LOCKTIME_THRESHOLD then nBlockHeight else nBlockTime) \<or>
    (\<forall>txin \<in> set (vin tx). nSequence txin = SEQUENCE_FINAL)"

abbreviation (input) LOCKTIME_VERIFY_SEQUENCE :: int where "LOCKTIME_VERIFY_SEQUENCE \<equiv> 1"

text \<open>The loop over the inputs, with the heights of their coins. \<open>None\<close> is the dereference of a null ancestor.\<close>

fun CalculateSequenceLocks_loop :: "block_store \<Rightarrow> blockptr \<Rightarrow> (CTxIn \<times> int) list \<Rightarrow> int \<Rightarrow> int \<Rightarrow> (int \<times> int) option" where
  "CalculateSequenceLocks_loop S block [] nMinHeight nMinTime = Some (nMinHeight, nMinTime)"
| "CalculateSequenceLocks_loop S block ((txin, nCoinHeight) # ins) nMinHeight nMinTime =
    (if nSequence txin AND SEQUENCE_LOCKTIME_DISABLE_FLAG \<noteq> 0 then CalculateSequenceLocks_loop S block ins nMinHeight nMinTime
     else if nSequence txin AND SEQUENCE_LOCKTIME_TYPE_FLAG \<noteq> 0 then
       do { anc \<leftarrow> GetAncestor S block (max (nCoinHeight - 1) 0);
            q \<leftarrow> anc;
            nCoinTime \<leftarrow> GetMedianTimePast S q;
            CalculateSequenceLocks_loop S block ins nMinHeight
              (max nMinTime (nCoinTime + uint (push_bit SEQUENCE_LOCKTIME_GRANULARITY (nSequence txin AND SEQUENCE_LOCKTIME_MASK)) - 1)) }
     else CalculateSequenceLocks_loop S block ins (max nMinHeight (nCoinHeight + uint (nSequence txin AND SEQUENCE_LOCKTIME_MASK) - 1)) nMinTime)"

text \<open>The version is a signed 16-bit value that is widened and read as unsigned.\<close>

definition CalculateSequenceLocks :: "block_store \<Rightarrow> CTransaction \<Rightarrow> int \<Rightarrow> int list \<Rightarrow> blockptr \<Rightarrow> (int \<times> int) option" where
  "CalculateSequenceLocks S tx flgs prevHeights block =
    (if length prevHeights \<noteq> length (vin tx) then None
     else let fEnforceBIP68 = ((scast (tx_nVersion tx) :: u32) \<ge> 2 \<and> flgs AND LOCKTIME_VERIFY_SEQUENCE \<noteq> 0)
          in if \<not> fEnforceBIP68 then Some (- 1, - 1)
             else CalculateSequenceLocks_loop S block (zip (vin tx) prevHeights) (- 1) (- 1))"

definition EvaluateSequenceLocks :: "block_store \<Rightarrow> blockptr \<Rightarrow> int \<times> int \<Rightarrow> bool option" where
  "EvaluateSequenceLocks S block lockPair =
    do { b \<leftarrow> S block; p \<leftarrow> pprev b; nBlockTime \<leftarrow> GetMedianTimePast S p;
         Some (\<not> (fst lockPair \<ge> nHeight b \<or> snd lockPair \<ge> nBlockTime)) }"

definition SequenceLocks :: "block_store \<Rightarrow> CTransaction \<Rightarrow> int \<Rightarrow> int list \<Rightarrow> blockptr \<Rightarrow> bool option" where
  "SequenceLocks S tx flgs prevHeights block =
    do { lockPair \<leftarrow> CalculateSequenceLocks S tx flgs prevHeights block; EvaluateSequenceLocks S block lockPair }"

section \<open>Signature operations\<close>

definition GetLegacySigOpCount :: "CTransaction \<Rightarrow> nat" where
  "GetLegacySigOpCount tx =
    sum_list (map (\<lambda>txin. GetSigOpCount (scriptSig txin) False) (vin tx)) + sum_list (map (\<lambda>txout. GetSigOpCount (scriptPubKey txout) False) (vout tx))"

fun GetP2SHSigOpCount_loop :: "'b CCoinsView \<Rightarrow> CTxIn list \<Rightarrow> nat \<Rightarrow> 'b CCoinsViewCache \<Rightarrow> (tx_error + nat) \<times> 'b CCoinsViewCache" where
  "GetP2SHSigOpCount_loop V [] nSigOps c = (Inr nSigOps, c)"
| "GetP2SHSigOpCount_loop V (txin # ins) nSigOps c =
    (let (cn, c) = AccessCoin V (prevout txin) c
     in if coin_IsSpent cn then (Inl Assertion_failed, c)
        else GetP2SHSigOpCount_loop V ins
          (if IsPayToScriptHash (scriptPubKey (coin_out cn)) then nSigOps + GetSigOpCount_P2SH (scriptPubKey (coin_out cn)) (scriptSig txin) else nSigOps) c)"

definition GetP2SHSigOpCount :: "'b CCoinsView \<Rightarrow> CTransaction \<Rightarrow> 'b CCoinsViewCache \<Rightarrow> (tx_error + nat) \<times> 'b CCoinsViewCache" where
  "GetP2SHSigOpCount V tx c = (if IsCoinBase tx then (Inr 0, c) else GetP2SHSigOpCount_loop V (vin tx) 0 c)"

definition GetTransactionSigOpCount :: "'b CCoinsView \<Rightarrow> CTransaction \<Rightarrow> u32 \<Rightarrow> 'b CCoinsViewCache \<Rightarrow> (tx_error + nat) \<times> 'b CCoinsViewCache" where
  "GetTransactionSigOpCount V tx flgs c =
    (let nSigOps = GetLegacySigOpCount tx
     in if IsCoinBase tx then (Inr nSigOps, c)
        else if flgs AND SCRIPT_VERIFY_P2SH \<noteq> 0 then
          (let (r, c) = GetP2SHSigOpCount V tx c in (case r of Inl err \<Rightarrow> Inl err | Inr n \<Rightarrow> Inr (nSigOps + n), c))
        else (Inr nSigOps, c))"

section \<open>Inputs\<close>

definition GetAssetUnlockFee :: "(CTransaction \<Rightarrow> CAmount option) \<Rightarrow> CTransaction \<Rightarrow> tx_error + CAmount" where
  "GetAssetUnlockFee payload_fee tx =
    (case payload_fee tx of
       None \<Rightarrow> Inl Assetunlocktx_payload
     | Some txfee_aux \<Rightarrow> if txfee_aux = 0 \<or> \<not> MoneyRange txfee_aux then Inl Assetunlock_fee_outofrange else Inr txfee_aux)"

abbreviation (input) COINBASE_MATURITY :: int where "COINBASE_MATURITY \<equiv> 150"

fun CheckTxInputs_loop :: "'b CCoinsView \<Rightarrow> int \<Rightarrow> CTxIn list \<Rightarrow> CAmount \<Rightarrow> 'b CCoinsViewCache \<Rightarrow> (tx_error + CAmount) \<times> 'b CCoinsViewCache" where
  "CheckTxInputs_loop V nSpendHeight [] nValueIn c = (Inr nValueIn, c)"
| "CheckTxInputs_loop V nSpendHeight (txin # ins) nValueIn c =
    (let (cn, c) = AccessCoin V (prevout txin) c
     in if coin_IsSpent cn then (Inl Assertion_failed, c)
        else if fCoinBase cn \<and> nSpendHeight - int (coin_nHeight cn) < COINBASE_MATURITY then (Inl Premature_spend_of_coinbase, c)
        else let nValueIn = nValueIn + nValue (coin_out cn)
             in if \<not> MoneyRange (nValue (coin_out cn)) \<or> \<not> MoneyRange nValueIn then (Inl Inputvalues_outofrange, c)
                else CheckTxInputs_loop V nSpendHeight ins nValueIn c)"

definition CheckTxInputs :: "'b CCoinsView \<Rightarrow> (CTransaction \<Rightarrow> CAmount option) \<Rightarrow> CTransaction \<Rightarrow> int \<Rightarrow> 'b CCoinsViewCache \<Rightarrow> (tx_error + CAmount) \<times> 'b CCoinsViewCache" where
  "CheckTxInputs V payload_fee tx nSpendHeight c =
    (if tx_nVersion tx = 3 \<and> nType tx = TRANSACTION_ASSET_UNLOCK then (GetAssetUnlockFee payload_fee tx, c)
     else case HaveInputs V tx c of
       (False, c) \<Rightarrow> (Inl Inputs_missingorspent, c)
     | (True, c) \<Rightarrow>
         let (r, c) = CheckTxInputs_loop V nSpendHeight (vin tx) 0 c
         in (case r of
               Inl err \<Rightarrow> Inl err
             | Inr nValueIn \<Rightarrow>
                 (case GetValueOut tx of
                    None \<Rightarrow> Inl Value_out_of_range
                  | Some value_out \<Rightarrow>
                      if nValueIn < value_out then Inl In_belowout
                      else let txfee_aux = nValueIn - value_out
                           in if \<not> MoneyRange txfee_aux then Inl Fee_outofrange else Inr txfee_aux), c))"

section \<open>What the context-free checks give\<close>

definition out_value :: "CTxOut list \<Rightarrow> CAmount" where
  "out_value outs = sum_list (map nValue outs)"

lemma out_value_nonneg: "\<forall>out \<in> set outs. 0 \<le> nValue out \<and> nValue out \<le> MAX_MONEY \<Longrightarrow> 0 \<le> out_value outs"
  by (induction outs) (auto simp: out_value_def)

lemma CheckTransaction_outputs_None:
  "CheckTransaction_outputs outs v = None \<longleftrightarrow> (\<forall>out \<in> set outs. 0 \<le> nValue out \<and> nValue out \<le> MAX_MONEY) \<and> (outs = [] \<or> 0 \<le> v + out_value outs \<and> v + out_value outs \<le> MAX_MONEY)"
  if "0 \<le> v"
  using that
proof (induction outs arbitrary: v)
  case Nil
  then show ?case by simp
next
  case (Cons out outs)
  show ?case
  proof (cases "0 \<le> nValue out \<and> nValue out \<le> MAX_MONEY")
    case False
    then show ?thesis by auto
  next
    case True
    have "CheckTransaction_outputs (out # outs) v = None \<longleftrightarrow> MoneyRange (v + nValue out) \<and> CheckTransaction_outputs outs (v + nValue out) = None"
      using True by (simp add: Let_def)
    also have "\<dots> \<longleftrightarrow> MoneyRange (v + nValue out) \<and> (\<forall>out \<in> set outs. 0 \<le> nValue out \<and> nValue out \<le> MAX_MONEY) \<and>
        (outs = [] \<or> 0 \<le> v + nValue out + out_value outs \<and> v + nValue out + out_value outs \<le> MAX_MONEY)"
      using Cons True by simp
    also have "\<dots> \<longleftrightarrow> (\<forall>out \<in> set outs. 0 \<le> nValue out \<and> nValue out \<le> MAX_MONEY) \<and> 0 \<le> v + nValue out + out_value outs \<and> v + nValue out + out_value outs \<le> MAX_MONEY"
      using True Cons.prems out_value_nonneg [of outs] by (cases "outs = []") (auto simp: MoneyRange_def out_value_def)
    finally show ?thesis using True by (simp add: out_value_def algebra_simps)
  qed
qed

lemma GetValueOut_loop_sum:
  assumes "\<forall>out \<in> set outs. 0 \<le> nValue out \<and> nValue out \<le> MAX_MONEY" "0 \<le> v" "v + out_value outs \<le> MAX_MONEY"
  shows "GetValueOut_loop outs v = Some (v + out_value outs)"
  using assms
proof (induction outs arbitrary: v)
  case Nil
  then show ?case by (simp add: out_value_def)
next
  case (Cons out outs)
  have "0 \<le> out_value outs" using Cons.prems(1) out_value_nonneg [of outs] by simp
  then show ?case using Cons.IH [of "v + nValue out"] Cons.prems by (simp add: MoneyRange_def out_value_def algebra_simps)
qed

lemma CheckTransaction_inputs_distinct:
  "CheckTransaction_inputs ins seen \<longleftrightarrow> distinct (map prevout ins) \<and> set (map prevout ins) \<inter> seen = {}"
  by (induction ins arbitrary: seen) auto

lemma CheckTransaction_None:
  assumes "CheckTransaction tx = None"
  shows "distinct (map prevout (vin tx))" "\<forall>out \<in> set (vout tx). 0 \<le> nValue out \<and> nValue out \<le> MAX_MONEY"
    "GetValueOut tx = Some (out_value (vout tx))" "0 \<le> out_value (vout tx)" "out_value (vout tx) \<le> MAX_MONEY"
    "\<not> IsCoinBase tx \<Longrightarrow> txin \<in> set (vin tx) \<Longrightarrow> \<not> outpoint_IsNull (prevout txin)"
proof -
  have c: "CheckTransaction_outputs (vout tx) 0 = None" "CheckTransaction_inputs (vin tx) {}"
    using assms by (auto simp: CheckTransaction_def Let_def split: if_splits option.splits)
  then show "distinct (map prevout (vin tx))" by (simp add: CheckTransaction_inputs_distinct)
  show v: "\<forall>out \<in> set (vout tx). 0 \<le> nValue out \<and> nValue out \<le> MAX_MONEY" using c(1) CheckTransaction_outputs_None [of 0 "vout tx"] by simp
  show "0 \<le> out_value (vout tx)" using v by (rule out_value_nonneg)
  show l: "out_value (vout tx) \<le> MAX_MONEY" using c(1) CheckTransaction_outputs_None [of 0 "vout tx"] by (auto simp: out_value_def)
  show "GetValueOut tx = Some (out_value (vout tx))" using GetValueOut_loop_sum [OF v, of 0] l by (simp add: GetValueOut_def)
  show "\<not> IsCoinBase tx \<Longrightarrow> txin \<in> set (vin tx) \<Longrightarrow> \<not> outpoint_IsNull (prevout txin)"
    using assms by (auto simp: CheckTransaction_def Let_def split: if_splits option.splits)
qed

section \<open>What the check of the inputs gives\<close>

definition in_value :: "(COutPoint \<rightharpoonup> Coin) \<Rightarrow> CTxIn list \<Rightarrow> CAmount" where
  "in_value m ins = sum_list (map (\<lambda>txin. nValue (coin_out (the (m (prevout txin))))) ins)"

definition input_ok :: "(COutPoint \<rightharpoonup> Coin) \<Rightarrow> int \<Rightarrow> CTxIn \<Rightarrow> bool" where
  "input_ok m height txin \<longleftrightarrow> (\<exists>cn. m (prevout txin) = Some cn \<and> (fCoinBase cn \<longrightarrow> 150 \<le> height - int (coin_nHeight cn)) \<and>
     0 \<le> nValue (coin_out cn) \<and> nValue (coin_out cn) \<le> MAX_MONEY)"

context coins_view
begin

lemma HaveInputs_loop_ok:
  assumes "cok c" "HaveInputs_loop V ins c = (r, c')"
  shows "r = (\<forall>txin \<in> set ins. cutxo c (prevout txin) \<noteq> None) \<and> cok c' \<and> cutxo c' = cutxo c \<and> cbest c' = cbest c"
  using assms
proof (induction ins arbitrary: c)
  case Nil
  then show ?case by simp
next
  case (Cons txin ins)
  obtain h c1 where h: "cache_HaveCoin V (prevout txin) c = (h, c1)" by (cases "cache_HaveCoin V (prevout txin) c")
  have c1: "h = (cutxo c (prevout txin) \<noteq> None)" "cok c1" "cutxo c1 = cutxo c" "cbest c1 = cbest c" using cache_HaveCoin_ok [OF Cons.prems(1) h] by auto
  show ?case
  proof (cases h)
    case True
    then have "HaveInputs_loop V ins c1 = (r, c')" using Cons.prems(2) h by simp
    from Cons.IH [OF c1(2) this] show ?thesis using True c1 by auto
  next
    case False
    then show ?thesis using Cons.prems(2) h c1 by auto
  qed
qed

lemma CheckTxInputs_loop_ok:
  assumes "cok c" "CheckTxInputs_loop V height ins v c = (r, c')" "0 \<le> v"
  shows "cok c' \<and> cutxo c' = cutxo c \<and> cbest c' = cbest c \<and>
    (\<forall>w. r = Inr w \<longleftrightarrow> (\<forall>txin \<in> set ins. input_ok (cutxo c) height txin) \<and> w = v + in_value (cutxo c) ins \<and> (ins = [] \<or> w \<le> MAX_MONEY))"
  using assms
proof (induction ins arbitrary: c v)
  case Nil
  then show ?case by (auto simp: in_value_def)
next
  case (Cons txin ins)
  obtain cn c1 where a: "AccessCoin V (prevout txin) c = (cn, c1)" by (cases "AccessCoin V (prevout txin) c")
  have c1: "(if coin_IsSpent cn then None else Some cn) = cutxo c (prevout txin)" "cok c1" "cutxo c1 = cutxo c" "cbest c1 = cbest c"
    using AccessCoin_ok [OF Cons.prems(1) a] by auto
  define v' where "v' = v + nValue (coin_out cn)"
  show ?case
  proof (cases "input_ok (cutxo c) height txin \<and> v' \<le> MAX_MONEY")
    case True
    then have cn: "cutxo c (prevout txin) = Some cn" "\<not> coin_IsSpent cn" "fCoinBase cn \<Longrightarrow> 150 \<le> height - int (coin_nHeight cn)"
      "0 \<le> nValue (coin_out cn)" "nValue (coin_out cn) \<le> MAX_MONEY" using c1(1) by (auto simp: input_ok_def split: if_splits)
    then have "CheckTxInputs_loop V height ins v' c1 = (r, c')" "0 \<le> v'"
      using Cons.prems(2,3) a True by (auto simp: MoneyRange_def v'_def split: if_splits)
    from Cons.IH [OF c1(2) this(1,2)] show ?thesis
      using True cn c1(3,4) by (auto simp: in_value_def v'_def)
  next
    case False
    have "\<not> (\<exists>w. r = Inr w) \<and> c' = c1"
      using Cons.prems(2,3) a False c1(1)
      by (auto simp: input_ok_def MoneyRange_def v'_def Let_def split: if_splits)
    moreover have "\<not> ((\<forall>i \<in> set (txin # ins). input_ok (cutxo c) height i) \<and> v + in_value (cutxo c) (txin # ins) \<le> MAX_MONEY)"
    proof
      assume *: "(\<forall>i \<in> set (txin # ins). input_ok (cutxo c) height i) \<and> v + in_value (cutxo c) (txin # ins) \<le> MAX_MONEY"
      then have "0 \<le> in_value (cutxo c) ins" unfolding in_value_def by (intro sum_list_nonneg) (force simp: input_ok_def)
      moreover have "cutxo c (prevout txin) = Some cn" using * c1(1) by (auto simp: input_ok_def split: if_splits)
      ultimately have "v' \<le> MAX_MONEY" using * by (simp add: in_value_def v'_def)
      with False * show False by simp
    qed
    ultimately show ?thesis using c1 by auto
  qed
qed

lemma CheckTxInputs_ok:
  assumes "cok c" "CheckTransaction tx = None" "\<not> IsCoinBase tx" "\<not> (tx_nVersion tx = 3 \<and> nType tx = TRANSACTION_ASSET_UNLOCK)"
    and "CheckTxInputs V payload_fee tx height c = (r, c')"
  shows "cok c' \<and> cutxo c' = cutxo c \<and> cbest c' = cbest c \<and>
    (\<forall>fee. r = Inr fee \<longleftrightarrow> (\<forall>txin \<in> set (vin tx). input_ok (cutxo c) height txin) \<and> in_value (cutxo c) (vin tx) \<le> MAX_MONEY \<and>
      out_value (vout tx) \<le> in_value (cutxo c) (vin tx) \<and> fee = in_value (cutxo c) (vin tx) - out_value (vout tx))"
proof -
  obtain h c1 where h: "HaveInputs_loop V (vin tx) c = (h, c1)" by (cases "HaveInputs_loop V (vin tx) c")
  have c1: "h = (\<forall>txin \<in> set (vin tx). cutxo c (prevout txin) \<noteq> None)" "cok c1" "cutxo c1 = cutxo c" "cbest c1 = cbest c"
    using HaveInputs_loop_ok [OF assms(1) h] by auto
  obtain q c2 where q: "CheckTxInputs_loop V height (vin tx) 0 c1 = (q, c2)" by (cases "CheckTxInputs_loop V height (vin tx) 0 c1")
  define good where "good \<longleftrightarrow> (\<forall>txin \<in> set (vin tx). input_ok (cutxo c) height txin) \<and> in_value (cutxo c) (vin tx) \<le> MAX_MONEY"
  have c2: "cok c2" "cutxo c2 = cutxo c" "cbest c2 = cbest c" "\<And>w. q = Inr w \<longleftrightarrow> good \<and> w = in_value (cutxo c) (vin tx)"
    using CheckTxInputs_loop_ok [OF c1(2) q] c1(3,4) by (auto simp: good_def in_value_def)
  have out: "GetValueOut tx = Some (out_value (vout tx))" "0 \<le> out_value (vout tx)" using CheckTransaction_None(3,4) [OF assms(2)] by auto
  show ?thesis
  proof (cases h)
    case False
    then have "\<not> good" using c1(1) by (auto simp: good_def input_ok_def)
    moreover have "r = Inl Inputs_missingorspent" "c' = c1" using assms(3-5) h False by (auto simp: CheckTxInputs_def HaveInputs_def)
    ultimately show ?thesis using c1 by (auto simp: good_def)
  next
    case True
    have r: "c' = c2" "r = (case q of Inl err \<Rightarrow> Inl err | Inr v \<Rightarrow>
        if v < out_value (vout tx) then Inl In_belowout else if \<not> MoneyRange (v - out_value (vout tx)) then Inl Fee_outofrange else Inr (v - out_value (vout tx)))"
      using assms(3-5) h True q out(1) by (auto simp: CheckTxInputs_def HaveInputs_def Let_def split: sum.splits)
    show ?thesis
    proof (cases good)
      case True
      then have "q = Inr (in_value (cutxo c) (vin tx))" using c2(4) by blast
      then show ?thesis using True c2(1-3) r out(2) by (auto simp: good_def MoneyRange_def)
    next
      case False
      then obtain err where "q = Inl err" using c2(4) by (cases q) auto
      then show ?thesis using False c2(1-3) r by (auto simp: good_def)
    qed
  qed
qed

end

section \<open>Relative lock times\<close>

lemma median_times_some:
  assumes "wf_store S" "\<forall>t \<in> set acc. 0 \<le> t" "\<forall>q. p = Some q \<longrightarrow> S q \<noteq> None" "acc \<noteq> [] \<or> (n \<noteq> 0 \<and> p \<noteq> None)"
  shows "\<exists>ts. median_times S n p acc = Some ts \<and> ts \<noteq> [] \<and> (\<forall>t \<in> set ts. 0 \<le> t)"
  using assms(2-4)
proof (induction n arbitrary: p acc)
  case 0
  then show ?case by simp
next
  case (Suc n)
  show ?case
  proof (cases p)
    case None
    then show ?thesis using Suc.prems by simp
  next
    case (Some q)
    then obtain b where b: "S q = Some b" using Suc.prems(2) by auto
    have "\<forall>r. pprev b = Some r \<longrightarrow> S r \<noteq> None" using wf_storeD [OF assms(1) b] by (auto simp: wf_entry_def split: option.splits)
    from Suc.IH [OF _ this, of "GetBlockTime b # acc"] show ?thesis using Suc.prems(1) Some b by (simp add: GetBlockTime_def)
  qed
qed

lemma GetMedianTimePast_some:
  assumes "wf_store S" "S p = Some b"
  shows "\<exists>t. GetMedianTimePast S p = Some t \<and> 0 \<le> t"
proof -
  obtain ts where ts: "median_times S nMedianTimeSpan (Some p) [] = Some ts" "ts \<noteq> []" "\<forall>t \<in> set ts. 0 \<le> t"
    using median_times_some [OF assms(1), of "[]" "Some p" nMedianTimeSpan] assms(2) by (auto simp: nMedianTimeSpan_def)
  have "sort ts ! (length ts div 2) \<in> set (sort ts)" using ts(2) by (intro nth_mem) (simp add: div_less_dividend)
  then show ?thesis using ts by (simp add: GetMedianTimePast_def)
qed

text \<open>The time or height an input asks for, measured from the block before the one that has its coin, or from that block.\<close>

definition lock_met :: "block_store \<Rightarrow> blockptr \<Rightarrow> CBlockIndex \<Rightarrow> int \<Rightarrow> CTxIn \<times> int \<Rightarrow> bool" where
  "lock_met S block b nBlockTime = (\<lambda>(txin, height).
    let s = nSequence txin; n = uint (s AND 0xffff)
    in if bit s 31 then True
       else if bit s 22
       then the (GetMedianTimePast S (the (prev_iter S (nat (nHeight b - max (height - 1) 0)) block))) + 512 * n \<le> nBlockTime
       else height + n \<le> nHeight b)"

lemma uint_granularity: "uint (push_bit 9 (w AND 0xffff) :: u32) = 512 * uint (w AND 0xffff)"
proof -
  have m: "(0xffff :: u32) = mask 16" by (simp add: mask_eq_exp_minus_1)
  have "uint (w AND 0xffff) = take_bit 16 (uint w)" unfolding m take_bit_eq_mask [symmetric] by (simp add: unsigned_take_bit_eq)
  then have "0 \<le> uint (w AND 0xffff)" "uint (w AND 0xffff) < 2 ^ 16" by (simp_all only: take_bit_nonnegative take_bit_int_less_exp)
  moreover have "take_bit 32 (push_bit 9 x) = 512 * x" if "0 \<le> x" "x < 2 ^ 16" for x :: int
    using that by (simp add: push_bit_eq_mult take_bit_int_eq_self)
  ultimately have "take_bit 32 (push_bit 9 (uint (w AND 0xffff))) = 512 * uint (w AND 0xffff)" by blast
  then show ?thesis by (simp only: unsigned_push_bit_eq) simp
qed

lemma sequence_flags: "(w :: u32) AND push_bit 31 1 \<noteq> 0 \<longleftrightarrow> bit w 31" "w AND push_bit 22 1 \<noteq> 0 \<longleftrightarrow> bit w 22"
  using and_exp_eq_0_iff_not_bit [of w 31] and_exp_eq_0_iff_not_bit [of w 22] by (simp_all add: push_bit_eq_mult)

lemma CalculateSequenceLocks_loop_step:
  "CalculateSequenceLocks_loop S block ((txin, h) # ins) H T =
    (let s = nSequence txin; n = uint (s AND 0xffff)
     in if bit s 31 then CalculateSequenceLocks_loop S block ins H T
        else if bit s 22 then
          do { anc \<leftarrow> GetAncestor S block (max (h - 1) 0); q \<leftarrow> anc; m \<leftarrow> GetMedianTimePast S q;
               CalculateSequenceLocks_loop S block ins H (max T (m + 512 * n - 1)) }
        else CalculateSequenceLocks_loop S block ins (max H (h + n - 1)) T)"
  by (simp only: CalculateSequenceLocks_loop.simps sequence_flags uint_granularity Let_def)

lemma CalculateSequenceLocks_loop_met:
  assumes "wf_store S" "S block = Some b" "\<forall>(txin, h) \<in> set ins. 0 \<le> h \<and> h \<le> nHeight b + 1"
  shows "\<exists>H T. CalculateSequenceLocks_loop S block ins H0 T0 = Some (H, T) \<and>
    (H < nHeight b \<and> T < t \<longleftrightarrow> H0 < nHeight b \<and> T0 < t \<and> (\<forall>i \<in> set ins. lock_met S block b t i))"
  using assms(3)
proof (induction ins arbitrary: H0 T0)
  case Nil
  then show ?case by simp
next
  case (Cons i ins)
  obtain txin h where i: "i = (txin, h)" by (cases i)
  define s where "s = nSequence txin"
  have h: "0 \<le> h" "h \<le> nHeight b + 1" using Cons.prems by (auto simp: i)
  have IH: "\<exists>H T. CalculateSequenceLocks_loop S block ins H1 T1 = Some (H, T) \<and>
    (H < nHeight b \<and> T < t \<longleftrightarrow> H1 < nHeight b \<and> T1 < t \<and> (\<forall>i \<in> set ins. lock_met S block b t i))" for H1 T1
    using Cons.IH Cons.prems by simp
  consider "bit s 31" | "\<not> bit s 31" "bit s 22" | "\<not> bit s 31" "\<not> bit s 22" by blast
  then show ?case
  proof cases
    case 1
    then show ?thesis using IH [of H0 T0] by (simp add: i s_def CalculateSequenceLocks_loop_step lock_met_def Let_def del: CalculateSequenceLocks_loop.simps)
  next
    case 2
    define n where "n = nat (nHeight b - max (h - 1) 0)"
    have "int n \<le> nHeight b" using h wf_height [OF assms(1,2)] by (simp add: n_def)
    then obtain q bq where q: "prev_iter S n block = Some q" "S q = Some bq" using prev_iter_height [OF assms(1,2)] by blast
    obtain m where m: "GetMedianTimePast S q = Some m" using GetMedianTimePast_some [OF assms(1) q(2)] by blast
    have "GetAncestor S block (max (h - 1) 0) = Some (Some q)" using GetAncestor_prev [OF assms(1,2)] q(1) h wf_height [OF assms(1,2)] by (simp add: n_def)
    then have "CalculateSequenceLocks_loop S block (i # ins) H0 T0 = CalculateSequenceLocks_loop S block ins H0 (max T0 (m + 512 * uint (s AND 0xffff) - 1))"
      using 2 m by (simp add: i s_def CalculateSequenceLocks_loop_step Let_def del: CalculateSequenceLocks_loop.simps)
    moreover have "lock_met S block b t i \<longleftrightarrow> m + 512 * uint (s AND 0xffff) \<le> t" using 2 q m by (simp add: i s_def lock_met_def n_def Let_def)
    ultimately show ?thesis using IH [of H0 "max T0 (m + 512 * uint (s AND 0xffff) - 1)"] by auto
  next
    case 3
    then have "CalculateSequenceLocks_loop S block (i # ins) H0 T0 = CalculateSequenceLocks_loop S block ins (max H0 (h + uint (s AND 0xffff) - 1)) T0"
      by (simp add: i s_def CalculateSequenceLocks_loop_step Let_def del: CalculateSequenceLocks_loop.simps)
    moreover have "lock_met S block b t i \<longleftrightarrow> h + uint (s AND 0xffff) \<le> nHeight b" using 3 by (simp add: i s_def lock_met_def Let_def)
    ultimately show ?thesis using IH [of "max H0 (h + uint (s AND 0xffff) - 1)" T0] by auto
  qed
qed

section \<open>Properties of the checks\<close>

text \<open>
  C37. Relative lock times follow BIP 68: for a block of a well-formed index and coins at heights the chain has, the check finishes without a null
  dereference and accepts exactly when every input is free. An input is free when its sequence number has the disable bit, or its count of 512-second
  steps has passed since the median time before the block of its coin, or its count of blocks has passed. Versions below two, read as unsigned, are exempt.
\<close>

theorem SequenceLocks_bip68:
  assumes "wf_store S" "S block = Some b" "pprev b = Some p" "GetMedianTimePast S p = Some t"
    and "length hs = length (vin tx)" "\<forall>h \<in> set hs. 0 \<le> h \<and> h \<le> nHeight b + 1"
  shows "SequenceLocks S tx flgs hs block =
    Some ((scast (tx_nVersion tx) :: u32) < 2 \<or> flgs AND LOCKTIME_VERIFY_SEQUENCE = 0 \<or> (\<forall>i \<in> set (zip (vin tx) hs). lock_met S block b t i))"
proof -
  obtain bp where bp: "S p = Some bp" "nHeight bp = nHeight b - 1" using wf_prev_height [OF assms(1-3)] by blast
  have pos: "0 < nHeight b" "0 \<le> t" using wf_height [OF assms(1) bp(1)] bp(2) GetMedianTimePast_some [OF assms(1) bp(1)] assms(4) by auto
  have e: "EvaluateSequenceLocks S block (H, T) = Some (H < nHeight b \<and> T < t)" for H T
    using assms(2-4) by (auto simp: EvaluateSequenceLocks_def)
  have "\<forall>(txin, h) \<in> set (zip (vin tx) hs). 0 \<le> h \<and> h \<le> nHeight b + 1" using assms(6) by (auto dest: set_zip_rightD)
  then obtain H T where l: "CalculateSequenceLocks_loop S block (zip (vin tx) hs) (- 1) (- 1) = Some (H, T)"
    "H < nHeight b \<and> T < t \<longleftrightarrow> - 1 < nHeight b \<and> - 1 < t \<and> (\<forall>i \<in> set (zip (vin tx) hs). lock_met S block b t i)"
    using CalculateSequenceLocks_loop_met [OF assms(1,2)] by blast
  show ?thesis
    using pos l assms(5) e by (cases "(scast (tx_nVersion tx) :: u32) < 2 \<or> flgs AND LOCKTIME_VERIFY_SEQUENCE = 0")
      (auto simp: SequenceLocks_def CalculateSequenceLocks_def not_less)
qed

definition demo_spend :: CTransaction where
  "demo_spend = demo_tx\<lparr>vin := [\<lparr>prevout = demo_key, scriptSig = [], nSequence = 1\<rparr>], vout := [\<lparr>nValue = 40, scriptPubKey = []\<rparr>], tx_nVersion := 2, nType := 0, vExtraPayload := []\<rparr>"

theorem SequenceLocks_bip68_witness:
  "SequenceLocks demo_store demo_spend 1 [1] 2 = Some True \<and> SequenceLocks demo_store demo_spend 1 [2] 2 = Some False"
proof -
  define b where "b = demo_block (Some 1) (Some 0) 2"
  define i where "i = \<lparr>prevout = demo_key, scriptSig = [], nSequence = 1\<rparr>"
  have S: "demo_store 2 = Some b" "pprev b = Some 1" "nHeight b = 2" by (simp_all add: demo_store_def demo_block_def b_def)
  obtain t where t: "GetMedianTimePast demo_store 1 = Some t"
    using GetMedianTimePast_some [OF wf_demo_store, of 1] by (auto simp: demo_store_def)
  have l: "lock_met demo_store 2 b t (i, h) \<longleftrightarrow> h + 1 \<le> 2" for h by (simp add: lock_met_def S(3) i_def)
  have v: "vin demo_spend = [i]" "tx_nVersion demo_spend = 2" by (simp_all add: demo_spend_def i_def)
  show ?thesis
    using SequenceLocks_bip68 [OF wf_demo_store S(1,2) t, of "[1]" demo_spend 1] SequenceLocks_bip68 [OF wf_demo_store S(1,2) t, of "[2]" demo_spend 1]
    by (simp add: v S(3) l)
qed


definition demo_tip :: "coins_db CCoinsViewCache" where
  "demo_tip = (empty_cache demo_db)\<lparr>cacheCoins := [(demo_key, \<lparr>coin = demo_coin, flags = 3\<rparr>)]\<rparr>"

lemma demo_tip_ok: "cache_inv db_ok db_coins demo_tip" "cache_utxo db_coins demo_tip = [demo_key \<mapsto> demo_coin]"
  using demo_coin_ok demo_db_ok(1)
  by (auto simp: demo_tip_def cache_inv_def empty_cache_def entry_ok_def is_dirty_def is_fresh_def cache_utxo_def over_def demo_db_def live_def fun_eq_iff)

lemma demo_spend_ok: "CheckTransaction demo_spend = None" "\<not> IsCoinBase demo_spend" "\<not> (tx_nVersion demo_spend = 3 \<and> nType demo_spend = TRANSACTION_ASSET_UNLOCK)"
proof -
  have "GetTotalSize demo_spend \<le> 1000000"
    by (simp add: GetTotalSize_def demo_spend_def demo_tx_def demo_key_def ser_tx_def ser_vector_def ser_txin_def ser_outpoint_def ser_txout_def
        ser_bytes_def WriteCompactSize_def ser_writedata8_def ser_writedata32_def ser_writedata64_def)
  moreover show nc: "\<not> IsCoinBase demo_spend" by (simp add: demo_spend_def IsCoinBase_def outpoint_IsNull_def demo_key_def)
  ultimately show "CheckTransaction demo_spend = None" using nc
    by (simp add: CheckTransaction_def) (simp add: demo_spend_def MoneyRange_def outpoint_IsNull_def demo_key_def)
qed (simp add: demo_spend_def)


end
