(* ===== verification/Connect_Block.thy ===== *)
theory Connect_Block
  imports Tx_Verify
begin

text \<open>
  Connecting and disconnecting the transactions of a block, from \<^verbatim>\<open>src/src/validation.cpp\<close>: \<^verbatim>\<open>UpdateCoins\<close>, the BIP 30 check and the loop over the
  transactions of \<^verbatim>\<open>ConnectBlock\<close>, \<^verbatim>\<open>ApplyTxInUndo\<close> and the loop of \<^verbatim>\<open>DisconnectBlock\<close>. The optional address and spent indexes, which the
  loops fill beside the coins, are left out. Whether the scripts of a transaction pass is a predicate of the environment.
\<close>

unbundle bit_operations_syntax

section \<open>Updating the coins\<close>

fun SpendInputs :: "'b CCoinsView \<Rightarrow> CTxIn list \<Rightarrow> 'b CCoinsViewCache \<Rightarrow> coins_error + (Coin list \<times> 'b CCoinsViewCache)" where
  "SpendInputs V [] c = Inr ([], c)"
| "SpendInputs V (txin # ins) c =
    (case SpendCoin V (prevout txin) c of
       (None, c) \<Rightarrow> Inl Coins_assert
     | (Some cn, c) \<Rightarrow> (case SpendInputs V ins c of Inl err \<Rightarrow> Inl err | Inr (cns, c) \<Rightarrow> Inr (cn # cns, c)))"

text \<open>The undo data of the transaction, \<^verbatim>\<open>CTxUndo\<close>, is the list of the coins it spent.\<close>

type_synonym CTxUndo = "Coin list"

definition UpdateCoins :: "'b CCoinsView \<Rightarrow> (byte list \<Rightarrow> uint256) \<Rightarrow> CTransaction \<Rightarrow> int \<Rightarrow> 'b CCoinsViewCache \<Rightarrow> coins_error + (CTxUndo \<times> 'b CCoinsViewCache)" where
  "UpdateCoins V SerializeHash tx height c =
    (case (if \<not> IsCoinBase tx then SpendInputs V (vin tx) c else Inr ([], c)) of
       Inl err \<Rightarrow> Inl err
     | Inr (vprevout, c) \<Rightarrow>
         (case AddCoins V SerializeHash tx height False c of
            Inl err \<Rightarrow> Inl err
          | Inr c \<Rightarrow> Inr (vprevout, c)))"

section \<open>Connecting\<close>

definition MaxBlockSigOps :: "bool \<Rightarrow> nat" where
  "MaxBlockSigOps fDIP0001Active = MaxBlockSize fDIP0001Active div 50"

fun bip30_outputs :: "'b CCoinsView \<Rightarrow> uint256 \<Rightarrow> nat \<Rightarrow> nat \<Rightarrow> 'b CCoinsViewCache \<Rightarrow> bool \<times> 'b CCoinsViewCache" where
  "bip30_outputs V txid i 0 c = (True, c)"
| "bip30_outputs V txid i (Suc n) c =
    (case cache_HaveCoin V \<lparr>op_hash = txid, op_n = of_nat i\<rparr> c of
       (True, c) \<Rightarrow> (False, c)
     | (False, c) \<Rightarrow> bip30_outputs V txid (i + 1) n c)"

fun bip30_check :: "'b CCoinsView \<Rightarrow> (byte list \<Rightarrow> uint256) \<Rightarrow> CTransaction list \<Rightarrow> 'b CCoinsViewCache \<Rightarrow> bool \<times> 'b CCoinsViewCache" where
  "bip30_check V SerializeHash [] c = (True, c)"
| "bip30_check V SerializeHash (tx # txs) c =
    (case bip30_outputs V (tx_GetHash SerializeHash tx) 0 (length (vout tx)) c of
       (False, c) \<Rightarrow> (False, c)
     | (True, c) \<Rightarrow> bip30_check V SerializeHash txs c)"

text \<open>What the loop over the transactions does not change: the block index and the block, flags, and functions that stand for other parts of the node.\<close>

record 'b connect_env =
  ce_view :: "'b CCoinsView"
  ce_hash :: "byte list \<Rightarrow> uint256"
  ce_store :: block_store
  ce_pindex :: blockptr
  ce_height :: int
  ce_flags :: u32
  ce_lock_flags :: int
  ce_dip0001 :: bool
  ce_payload_fee :: "CTransaction \<Rightarrow> CAmount option"
  ce_scripts_ok :: "CTransaction \<Rightarrow> bool"

record 'b connect_state =
  cs_fees :: CAmount
  cs_sigops :: nat
  cs_undo :: "CTxUndo list"
  cs_coins :: "'b CCoinsViewCache"

fun prev_heights :: "'b CCoinsView \<Rightarrow> CTxIn list \<Rightarrow> 'b CCoinsViewCache \<Rightarrow> int list \<times> 'b CCoinsViewCache" where
  "prev_heights V [] c = ([], c)"
| "prev_heights V (txin # ins) c =
    (let (cn, c) = AccessCoin V (prevout txin) c; (hs, c) = prev_heights V ins c in (int (coin_nHeight cn) # hs, c))"

text \<open>The checks that only apply to transactions other than the coinbase: inputs, accumulated fees and relative lock times.\<close>

definition connect_inputs :: "'b connect_env \<Rightarrow> CTransaction \<Rightarrow> 'b connect_state \<Rightarrow> tx_error + 'b connect_state" where
  "connect_inputs env tx st =
    (case CheckTxInputs (ce_view env) (ce_payload_fee env) tx (ce_height env) (cs_coins st) of
       (Inl err, c) \<Rightarrow> Inl err
     | (Inr txfee, c) \<Rightarrow>
         let nFees = cs_fees st + txfee
         in if \<not> MoneyRange nFees then Inl Accumulated_fee_outofrange
            else let (hs, c) = prev_heights (ce_view env) (vin tx) c
                 in case SequenceLocks (ce_store env) tx (ce_lock_flags env) hs (ce_pindex env) of
                      None \<Rightarrow> Inl Assertion_failed
                    | Some False \<Rightarrow> Inl Nonfinal
                    | Some True \<Rightarrow> Inr (st\<lparr>cs_fees := nFees, cs_coins := c\<rparr>))"

definition connect_tx :: "'b connect_env \<Rightarrow> nat \<Rightarrow> CTransaction \<Rightarrow> 'b connect_state \<Rightarrow> tx_error + 'b connect_state" where
  "connect_tx env i tx st =
    (case (if \<not> IsCoinBase tx then connect_inputs env tx st else Inr st) of
       Inl err \<Rightarrow> Inl err
     | Inr st \<Rightarrow>
         (case GetTransactionSigOpCount (ce_view env) tx (ce_flags env) (cs_coins st) of
            (Inl err, c) \<Rightarrow> Inl err
          | (Inr n, c) \<Rightarrow>
              let nSigOps = cs_sigops st + n
              in if nSigOps > MaxBlockSigOps (ce_dip0001 env) then Inl Blk_sigops
                 else if \<not> IsCoinBase tx \<and> \<not> ce_scripts_ok env tx then Inl Scripts_failed
                 else case UpdateCoins (ce_view env) (ce_hash env) tx (ce_height env) c of
                        Inl err \<Rightarrow> Inl Assertion_failed
                      | Inr (undo, c) \<Rightarrow>
                          Inr \<lparr>cs_fees = cs_fees st, cs_sigops = nSigOps, cs_undo = (if i > 0 then cs_undo st @ [undo] else cs_undo st), cs_coins = c\<rparr>))"

fun connect_txs :: "'b connect_env \<Rightarrow> nat \<Rightarrow> CTransaction list \<Rightarrow> 'b connect_state \<Rightarrow> tx_error + 'b connect_state" where
  "connect_txs env i [] st = Inr st"
| "connect_txs env i (tx # txs) st = (case connect_tx env i tx st of Inl err \<Rightarrow> Inl err | Inr st \<Rightarrow> connect_txs env (i + 1) txs st)"

section \<open>Disconnecting\<close>

definition MAX_OUTPUTS_PER_BLOCK :: nat where
  "MAX_OUTPUTS_PER_BLOCK = MaxBlockSize True div length (ser_txout txout_null)"

fun AccessByTxid_loop :: "'b CCoinsView \<Rightarrow> uint256 \<Rightarrow> nat \<Rightarrow> nat \<Rightarrow> 'b CCoinsViewCache \<Rightarrow> Coin \<times> 'b CCoinsViewCache" where
  "AccessByTxid_loop V txid n 0 c = (coinEmpty, c)"
| "AccessByTxid_loop V txid n (Suc left) c =
    (let (alternate, c) = AccessCoin V \<lparr>op_hash = txid, op_n = of_nat n\<rparr> c
     in if \<not> coin_IsSpent alternate then (alternate, c) else AccessByTxid_loop V txid (n + 1) left c)"

definition AccessByTxid :: "'b CCoinsView \<Rightarrow> uint256 \<Rightarrow> 'b CCoinsViewCache \<Rightarrow> Coin \<times> 'b CCoinsViewCache" where
  "AccessByTxid V txid c = AccessByTxid_loop V txid 0 MAX_OUTPUTS_PER_BLOCK c"

datatype DisconnectResult = DISCONNECT_OK | DISCONNECT_UNCLEAN | DISCONNECT_FAILED

definition ApplyTxInUndo :: "'b CCoinsView \<Rightarrow> Coin \<Rightarrow> COutPoint \<Rightarrow> 'b CCoinsViewCache \<Rightarrow> coins_error + (DisconnectResult \<times> 'b CCoinsViewCache)" where
  "ApplyTxInUndo V undo out c =
    (let (have, c) = cache_HaveCoin V out c;
         fClean = (\<not> have);
         (undo, c) = (if coin_nHeight undo = 0
                      then (let (alternate, c) = AccessByTxid V (op_hash out) c
                            in (if \<not> coin_IsSpent alternate then Some (undo\<lparr>coin_nHeight := coin_nHeight alternate, fCoinBase := fCoinBase alternate\<rparr>) else None, c))
                      else (Some undo, c))
     in case undo of
          None \<Rightarrow> Inr (DISCONNECT_FAILED, c)
        | Some undo \<Rightarrow>
            (case AddCoin out undo (\<not> fClean) c of
               Inl err \<Rightarrow> Inl err
             | Inr c \<Rightarrow> Inr (if fClean then DISCONNECT_OK else DISCONNECT_UNCLEAN, c)))"

fun disconnect_outputs :: "'b CCoinsView \<Rightarrow> uint256 \<Rightarrow> int \<Rightarrow> bool \<Rightarrow> nat \<Rightarrow> CTxOut list \<Rightarrow> bool \<Rightarrow> 'b CCoinsViewCache \<Rightarrow> bool \<times> 'b CCoinsViewCache" where
  "disconnect_outputs V txid height is_coinbase o' [] fClean c = (fClean, c)"
| "disconnect_outputs V txid height is_coinbase o' (out # outs) fClean c =
    (if \<not> IsUnspendable (scriptPubKey out) then
       (let (r, c) = SpendCoin V \<lparr>op_hash = txid, op_n = of_nat o'\<rparr> c;
            ok = (case r of
                    None \<Rightarrow> False
                  | Some cn \<Rightarrow> \<not> (out \<noteq> coin_out cn \<or> height \<noteq> int (coin_nHeight cn) \<or> is_coinbase \<noteq> fCoinBase cn))
        in disconnect_outputs V txid height is_coinbase (o' + 1) outs (if ok then fClean else False) c)
     else disconnect_outputs V txid height is_coinbase (o' + 1) outs fClean c)"

text \<open>The inputs are restored from the last to the first; the arguments are the reversed lists.\<close>

fun disconnect_inputs :: "'b CCoinsView \<Rightarrow> CTxIn list \<Rightarrow> Coin list \<Rightarrow> bool \<Rightarrow> 'b CCoinsViewCache \<Rightarrow> coins_error + (bool option \<times> 'b CCoinsViewCache)" where
  "disconnect_inputs V (txin # ins) (undo # undos) fClean c =
    (case ApplyTxInUndo V undo (prevout txin) c of
       Inl err \<Rightarrow> Inl err
     | Inr (DISCONNECT_FAILED, c) \<Rightarrow> Inr (None, c)
     | Inr (res, c) \<Rightarrow> disconnect_inputs V ins undos (fClean \<and> res \<noteq> DISCONNECT_UNCLEAN) c)"
| "disconnect_inputs V _ _ fClean c = Inr (Some fClean, c)"

definition disconnect_tx :: "'b CCoinsView \<Rightarrow> (byte list \<Rightarrow> uint256) \<Rightarrow> int \<Rightarrow> nat \<Rightarrow> CTransaction \<Rightarrow> CTxUndo list \<Rightarrow> bool \<Rightarrow> 'b CCoinsViewCache \<Rightarrow> coins_error + (bool option \<times> 'b CCoinsViewCache)" where
  "disconnect_tx V SerializeHash height i tx vtxundo fClean c =
    (let (fClean, c) = disconnect_outputs V (tx_GetHash SerializeHash tx) height (IsCoinBase tx) 0 (vout tx) fClean c
     in if i > 0
        then let txundo = vtxundo ! (i - 1)
             in if length txundo \<noteq> length (vin tx) then Inr (None, c)
                else disconnect_inputs V (rev (vin tx)) (rev txundo) fClean c
        else Inr (Some fClean, c))"

text \<open>The transactions \<open>0, \<dots>, i - 1\<close> in reverse order.\<close>

fun disconnect_txs :: "'b CCoinsView \<Rightarrow> (byte list \<Rightarrow> uint256) \<Rightarrow> int \<Rightarrow> nat \<Rightarrow> CTransaction list \<Rightarrow> CTxUndo list \<Rightarrow> bool \<Rightarrow> 'b CCoinsViewCache \<Rightarrow> coins_error + (bool option \<times> 'b CCoinsViewCache)" where
  "disconnect_txs V SerializeHash height 0 vtx vtxundo fClean c = Inr (Some fClean, c)"
| "disconnect_txs V SerializeHash height (Suc i) vtx vtxundo fClean c =
    (case disconnect_tx V SerializeHash height i (vtx ! i) vtxundo fClean c of
       Inl err \<Rightarrow> Inl err
     | Inr (None, c) \<Rightarrow> Inr (None, c)
     | Inr (Some fClean, c) \<Rightarrow> disconnect_txs V SerializeHash height i vtx vtxundo fClean c)"

definition DisconnectBlock_coins :: "'b CCoinsView \<Rightarrow> (byte list \<Rightarrow> uint256) \<Rightarrow> int \<Rightarrow> uint256 \<Rightarrow> CTransaction list \<Rightarrow> CTxUndo list \<Rightarrow> 'b CCoinsViewCache \<Rightarrow> coins_error + (DisconnectResult \<times> 'b CCoinsViewCache)" where
  "DisconnectBlock_coins V SerializeHash height prev_hash vtx vtxundo c =
    (if length vtxundo + 1 \<noteq> length vtx then Inr (DISCONNECT_FAILED, c)
     else case disconnect_txs V SerializeHash height (length vtx) vtx vtxundo True c of
       Inl err \<Rightarrow> Inl err
     | Inr (None, c) \<Rightarrow> Inr (DISCONNECT_FAILED, c)
     | Inr (Some fClean, c) \<Rightarrow> Inr (if fClean then DISCONNECT_OK else DISCONNECT_UNCLEAN, SetBestBlock prev_hash c))"

section \<open>The effect of a transaction on the coins\<close>

definition out_key :: "uint256 \<Rightarrow> nat \<Rightarrow> COutPoint" where "out_key txid i = \<lparr>op_hash = txid, op_n = of_nat i\<rparr>"

fun add_outs :: "uint256 \<Rightarrow> int \<Rightarrow> bool \<Rightarrow> nat \<Rightarrow> CTxOut list \<Rightarrow> (COutPoint \<rightharpoonup> Coin) \<Rightarrow> COutPoint \<rightharpoonup> Coin" where
  "add_outs txid height cb i [] m = m"
| "add_outs txid height cb i (out # outs) m =
    add_outs txid height cb (i + 1) outs (if IsUnspendable (scriptPubKey out) then m else m(out_key txid i \<mapsto> mk_Coin out height cb))"

definition apply_tx :: "(byte list \<Rightarrow> uint256) \<Rightarrow> int \<Rightarrow> CTransaction \<Rightarrow> (COutPoint \<rightharpoonup> Coin) \<Rightarrow> COutPoint \<rightharpoonup> Coin" where
  "apply_tx H height tx m =
    add_outs (tx_GetHash H tx) height (IsCoinBase tx) 0 (vout tx) (if IsCoinBase tx then m else m |` (- set (map prevout (vin tx))))"

definition spent_coins :: "CTransaction \<Rightarrow> (COutPoint \<rightharpoonup> Coin) \<Rightarrow> Coin list" where
  "spent_coins tx m = (if IsCoinBase tx then [] else map (\<lambda>txin. the (m (prevout txin))) (vin tx))"

text \<open>When a transaction can be applied: its inputs are different unspent coins, and its outputs are new.\<close>

definition tx_fits :: "(byte list \<Rightarrow> uint256) \<Rightarrow> (COutPoint \<rightharpoonup> Coin) \<Rightarrow> CTransaction \<Rightarrow> bool" where
  "tx_fits H m tx \<longleftrightarrow> distinct (map prevout (vin tx)) \<and> (\<not> IsCoinBase tx \<longrightarrow> (\<forall>txin \<in> set (vin tx). m (prevout txin) \<noteq> None)) \<and>
     (\<forall>out \<in> set (vout tx). 0 \<le> nValue out) \<and> length (vout tx) \<le> 2 ^ 32 \<and> (\<forall>j < length (vout tx). m (out_key (tx_GetHash H tx) j) = None)"

text \<open>Coins that can be restored: they are not of the kind that is never added, and have a height.\<close>

definition coin_good :: "Coin \<Rightarrow> bool" where
  "coin_good cn \<longleftrightarrow> \<not> coin_IsSpent cn \<and> \<not> IsUnspendable (scriptPubKey (coin_out cn)) \<and> coin_nHeight cn \<noteq> 0"

lemma out_key_inj:
  assumes "i < 2 ^ 32" "j < 2 ^ 32"
  shows "out_key txid i = out_key txid j \<longleftrightarrow> i = j"
proof -
  have "unat (of_nat i :: u32) = i" "unat (of_nat j :: u32) = j" using assms by (simp_all add: unat_of_nat)
  then have "(of_nat i :: u32) = of_nat j \<longleftrightarrow> i = j" by metis
  then show ?thesis by (simp add: out_key_def)
qed

lemma out_key_txid: "txid \<noteq> txid' \<Longrightarrow> out_key txid i \<noteq> out_key txid' j"
  by (simp add: out_key_def)

lemma add_outs_other:
  "(\<And>j. j < length outs \<Longrightarrow> k \<noteq> out_key txid (i + j)) \<Longrightarrow> add_outs txid height cb i outs (m(k := x)) = (add_outs txid height cb i outs m)(k := x)"
proof (induction outs arbitrary: i m)
  case Nil
  then show ?case by simp
next
  case (Cons out outs)
  have ne: "k \<noteq> out_key txid i" using Cons.prems [of 0] by simp
  have "k \<noteq> out_key txid (i + 1 + j)" if "j < length outs" for j using Cons.prems [of "Suc j"] that by simp
  note IH = Cons.IH [of "i + 1", OF this]
  have "m(k := x, out_key txid i \<mapsto> y) = m(out_key txid i \<mapsto> y, k := x)" for y using ne by (rule fun_upd_twist)
  then show ?case by (cases "IsUnspendable (scriptPubKey out)") (simp_all only: add_outs.simps IH if_True if_False simp_thms)
qed

lemma add_outs_at:
  assumes "\<And>j. j < length outs \<Longrightarrow> k \<noteq> out_key txid (i + j)"
  shows "add_outs txid height cb i outs m k = m k"
  using add_outs_other [OF assms, where m = m and x = "m k"] by (metis fun_upd_same fun_upd_triv)

context coins_view
begin

lemma AddCoins_loop_ok:
  assumes "cok c" "\<forall>out \<in> set outs. 0 \<le> nValue out" "i + length outs \<le> 2 ^ 32" "\<forall>j < length outs. cutxo c (out_key txid (i + j)) = None"
  shows "\<exists>c'. AddCoins_loop V txid height cb False i outs c = Inr c' \<and> cok c' \<and> cbest c' = cbest c \<and> cutxo c' = add_outs txid height cb i outs (cutxo c)"
  using assms
proof (induction outs arbitrary: c i)
  case Nil
  then show ?case by simp
next
  case (Cons out outs)
  have s: "\<not> coin_IsSpent (mk_Coin out height cb)" "scriptPubKey (coin_out (mk_Coin out height cb)) = scriptPubKey out"
    using Cons.prems(2) by (auto simp: coin_IsSpent_def txout_IsNull_def mk_Coin_def)
  have "cutxo c (out_key txid i) = None" using Cons.prems(4) by force
  then obtain c1 where c1: "AddCoin (out_key txid i) (mk_Coin out height cb) cb c = Inr c1" "cok c1" "cbest c1 = cbest c"
    "cutxo c1 = (if IsUnspendable (scriptPubKey out) then cutxo c else (cutxo c)(out_key txid i \<mapsto> mk_Coin out height cb))"
    using AddCoin_ok [OF Cons.prems(1) s(1), of cb "out_key txid i"] s(2) by auto
  have "cutxo c1 (out_key txid (i + 1 + j)) = None" if "j < length outs" for j
  proof -
    have "cutxo c (out_key txid (i + Suc j)) = None" using Cons.prems(4) that by (metis Suc_less_eq length_Cons)
    moreover have "out_key txid (i + Suc j) \<noteq> out_key txid i" using Cons.prems(3) that by (subst out_key_inj) auto
    ultimately show ?thesis using c1(4) by simp
  qed
  then have "\<exists>c'. AddCoins_loop V txid height cb False (i + 1) outs c1 = Inr c' \<and> cok c' \<and> cbest c' = cbest c1 \<and> cutxo c' = add_outs txid height cb (i + 1) outs (cutxo c1)"
    using Cons.IH [OF c1(2), of "i + 1"] Cons.prems(2,3) by simp
  then show ?case using c1 by (auto simp: out_key_def)
qed

lemma SpendInputs_ok:
  assumes "cok c" "distinct (map prevout ins)" "\<forall>txin \<in> set ins. cutxo c (prevout txin) \<noteq> None"
  shows "\<exists>c'. SpendInputs V ins c = Inr (map (\<lambda>txin. the (cutxo c (prevout txin))) ins, c') \<and> cok c' \<and> cbest c' = cbest c \<and>
    cutxo c' = cutxo c |` (- set (map prevout ins))"
  using assms
proof (induction ins arbitrary: c)
  case Nil
  then show ?case by simp
next
  case (Cons txin ins)
  obtain cn where cn: "cutxo c (prevout txin) = Some cn" using Cons.prems(3) by auto
  obtain r c1 where s: "SpendCoin V (prevout txin) c = (r, c1)" by (cases "SpendCoin V (prevout txin) c")
  have c1: "cok c1" "cbest c1 = cbest c" "cutxo c1 = (cutxo c)(prevout txin := None)" "r = Some cn" using SpendCoin_ok [OF Cons.prems(1) s] cn by auto
  have d: "prevout txin \<notin> set (map prevout ins)" "distinct (map prevout ins)" using Cons.prems(2) by auto
  have eq: "cutxo c1 (prevout t) = cutxo c (prevout t)" if "t \<in> set ins" for t

  proof -
    have "prevout t \<noteq> prevout txin" using d(1) that by (metis image_eqI list.set_map)
    then show ?thesis using c1(3) by simp
  qed
  obtain c' where c': "SpendInputs V ins c1 = Inr (map (\<lambda>t. the (cutxo c1 (prevout t))) ins, c')" "cok c'" "cbest c' = cbest c1"
    "cutxo c' = cutxo c1 |` (- set (map prevout ins))" using Cons.IH [OF c1(1) d(2)] eq Cons.prems(3) by auto
  have "cutxo c' = cutxo c |` (- set (map prevout (txin # ins)))" using c'(4) c1(3) by (auto simp: restrict_map_def fun_eq_iff)
  moreover have "SpendInputs V (txin # ins) c = Inr (map (\<lambda>t. the (cutxo c (prevout t))) (txin # ins), c')"
    using s c1(4) c'(1) cn eq by (simp cong: map_cong)
  ultimately show ?case using c' c1(2) by auto
qed

lemma UpdateCoins_inputs:
  assumes "cok c" "tx_fits H (cutxo c) tx"
  shows "\<exists>c1. (if \<not> IsCoinBase tx then SpendInputs V (vin tx) c else Inr ([], c)) = Inr (spent_coins tx (cutxo c), c1) \<and> cok c1 \<and> cbest c1 = cbest c \<and>
    cutxo c1 = (if IsCoinBase tx then cutxo c else cutxo c |` (- set (map prevout (vin tx))))"
proof (cases "IsCoinBase tx")
  case True
  then show ?thesis using assms(1) by (intro exI [of _ c]) (simp add: spent_coins_def)
next
  case False
  then have "distinct (map prevout (vin tx))" "\<forall>txin \<in> set (vin tx). cutxo c (prevout txin) \<noteq> None" using assms(2) by (simp_all add: tx_fits_def)
  from SpendInputs_ok [OF assms(1) this] show ?thesis using False by (simp add: spent_coins_def)
qed

lemma UpdateCoins_ok:
  assumes "cok c" "tx_fits H (cutxo c) tx"
  shows "\<exists>c'. UpdateCoins V H tx height c = Inr (spent_coins tx (cutxo c), c') \<and> cok c' \<and> cbest c' = cbest c \<and> cutxo c' = apply_tx H height tx (cutxo c)"
proof -
  define m where "m = (if IsCoinBase tx then cutxo c else cutxo c |` (- set (map prevout (vin tx))))"
  obtain c1 where c1: "(if \<not> IsCoinBase tx then SpendInputs V (vin tx) c else Inr ([], c)) = Inr (spent_coins tx (cutxo c), c1)"
    "cok c1" "cbest c1 = cbest c" "cutxo c1 = m" using UpdateCoins_inputs [OF assms] unfolding m_def by blast
  have "\<forall>j < length (vout tx). cutxo c1 (out_key (tx_GetHash H tx) (0 + j)) = None"
    using assms(2) unfolding c1(4) m_def tx_fits_def by (simp add: restrict_map_def)
  moreover have "\<forall>out \<in> set (vout tx). 0 \<le> nValue out" "0 + length (vout tx) \<le> 2 ^ 32" using assms(2) by (simp_all add: tx_fits_def)
  ultimately obtain c' where "AddCoins V H tx height False c1 = Inr c'" "cok c'" "cbest c' = cbest c1" "cutxo c' = apply_tx H height tx (cutxo c)"
    using AddCoins_loop_ok [OF c1(2), of "vout tx" 0 "tx_GetHash H tx" height "IsCoinBase tx"] unfolding AddCoins_def apply_tx_def c1(4) m_def by blast
  then show ?thesis unfolding UpdateCoins_def c1(1) using c1(3) by simp
qed

lemma disconnect_outputs_ok:
  assumes "cok c" "cutxo c = add_outs txid height cb i outs m" "i + length outs \<le> 2 ^ 32" "\<forall>j < length outs. m (out_key txid (i + j)) = None"
    and "0 < height" "height < 2 ^ 31" "\<forall>out \<in> set outs. 0 \<le> nValue out"
  shows "\<exists>c'. disconnect_outputs V txid height cb i outs fClean c = (fClean, c') \<and> cok c' \<and> cbest c' = cbest c \<and> cutxo c' = m"
  using assms(1-4,7)
proof (induction outs arbitrary: c i m)
  case Nil
  then show ?case by simp
next
  case (Cons out outs)
  have tl: "m (out_key txid (i + 1 + j)) = None" if "j < length outs" for j using Cons.prems(4) that by (metis Suc_less_eq length_Cons add_Suc_shift plus_1_eq_Suc add.commute)
  have ne: "out_key txid i \<noteq> out_key txid (i + 1 + j)" if "j < length outs" for j using Cons.prems(3) that by (subst out_key_inj) auto
  have mi: "m (out_key txid i) = None" using Cons.prems(4) by force
  have len: "i + 1 + length outs \<le> 2 ^ 32" using Cons.prems(3) by simp
  show ?case
  proof (cases "IsUnspendable (scriptPubKey out)")
    case True
    then have "cutxo c = add_outs txid height cb (i + 1) outs m" using Cons.prems(2) by simp
    from Cons.IH [OF Cons.prems(1) this len] tl Cons.prems(5) show ?thesis using True by simp
  next
    case False
    define cn where "cn = mk_Coin out height cb"
    have cn: "coin_out cn = out" "int (coin_nHeight cn) = height" "fCoinBase cn = cb" using assms(5,6) by (simp_all add: cn_def mk_Coin_def)
    have ao: "add_outs txid height cb (i + 1) outs (m(out_key txid i \<mapsto> cn)) = (add_outs txid height cb (i + 1) outs m)(out_key txid i \<mapsto> cn)"
      by (rule add_outs_other) (rule ne)
    have cc: "cutxo c = (add_outs txid height cb (i + 1) outs m)(out_key txid i \<mapsto> cn)"
      using Cons.prems(2) False ao by (simp only: add_outs.simps if_False cn_def [symmetric] simp_thms)
    obtain r c1 where s: "SpendCoin V (out_key txid i) c = (r, c1)" by (cases "SpendCoin V (out_key txid i) c")
    have c1: "cok c1" "cbest c1 = cbest c" "cutxo c1 = (cutxo c)(out_key txid i := None)" "r = Some cn" using SpendCoin_ok [OF Cons.prems(1) s] cc by auto
    have "add_outs txid height cb (i + 1) outs m (out_key txid i) = None"
      using add_outs_at [of outs "out_key txid i" txid "i + 1", OF ne] mi by simp
    then have "cutxo c1 = add_outs txid height cb (i + 1) outs m" unfolding c1(3) cc by (simp add: fun_eq_iff)
    from Cons.IH [OF c1(1) this len] tl Cons.prems(5) obtain c' where "disconnect_outputs V txid height cb (i + 1) outs fClean c1 = (fClean, c')" "cok c'"
      "cbest c' = cbest c1" "cutxo c' = m" by auto
    then show ?thesis using False s c1(2,4) cn by (simp add: out_key_def)
  qed
qed

lemma ApplyTxInUndo_ok:
  assumes "cok c" "cutxo c k = None" "coin_good cn"
  shows "\<exists>c'. ApplyTxInUndo V cn k c = Inr (DISCONNECT_OK, c') \<and> cok c' \<and> cbest c' = cbest c \<and> cutxo c' = (cutxo c)(k \<mapsto> cn)"
proof -
  obtain h c1 where h: "cache_HaveCoin V k c = (h, c1)" by (cases "cache_HaveCoin V k c")
  have c1: "\<not> h" "cok c1" "cutxo c1 = cutxo c" "cbest c1 = cbest c" using cache_HaveCoin_ok [OF assms(1) h] assms(2) by auto
  have n: "\<not> coin_IsSpent cn" "False \<or> cutxo c1 k = None" using assms(2,3) c1(3) by (simp_all add: coin_good_def)
  obtain c' where "AddCoin k cn False c1 = Inr c'" "cok c'" "cbest c' = cbest c1" "cutxo c' = (cutxo c1)(k \<mapsto> cn)"
    using AddCoin_ok [OF c1(2) n] assms(3) by (auto simp: coin_good_def)
  then show ?thesis using h c1 assms(3) by (simp add: ApplyTxInUndo_def coin_good_def)
qed

lemma disconnect_inputs_ok:
  assumes "cok c" "distinct (map prevout ins)" "cutxo c = m |` (- set (map prevout ins))"
    and "\<forall>txin \<in> set ins. \<exists>cn. m (prevout txin) = Some cn \<and> coin_good cn"
  shows "\<exists>c'. disconnect_inputs V ins (map (\<lambda>txin. the (m (prevout txin))) ins) fClean c = Inr (Some fClean, c') \<and> cok c' \<and> cbest c' = cbest c \<and> cutxo c' = m"
  using assms
proof (induction ins arbitrary: c)
  case Nil
  then show ?case by simp
next
  case (Cons txin ins)
  obtain cn where cn: "m (prevout txin) = Some cn" "coin_good cn" using Cons.prems(4) by auto
  have "cutxo c (prevout txin) = None" using Cons.prems(3) by simp
  from ApplyTxInUndo_ok [OF Cons.prems(1) this cn(2)] obtain c1 where c1: "ApplyTxInUndo V cn (prevout txin) c = Inr (DISCONNECT_OK, c1)" "cok c1"
    "cbest c1 = cbest c" "cutxo c1 = (cutxo c)(prevout txin \<mapsto> cn)" by blast
  have d: "prevout txin \<notin> set (map prevout ins)" "distinct (map prevout ins)" using Cons.prems(2) by auto
  have "cutxo c1 = m |` (- set (map prevout ins))"
    unfolding c1(4) Cons.prems(3) using cn(1) d(1) by (auto simp: restrict_map_def fun_eq_iff)
  from Cons.IH [OF c1(2) d(2) this] Cons.prems(4) obtain c' where
    "disconnect_inputs V ins (map (\<lambda>txin. the (m (prevout txin))) ins) fClean c1 = Inr (Some fClean, c')" "cok c'" "cbest c' = cbest c1" "cutxo c' = m" by auto
  then show ?case using c1(1,3) cn(1) by simp
qed

lemma disconnect_tx_ok:
  assumes "cok c" "cutxo c = apply_tx H height tx m" "tx_fits H m tx" "\<forall>k cn. m k = Some cn \<longrightarrow> coin_good cn"
    and "0 < height" "height < 2 ^ 31" "i > 0 \<longleftrightarrow> \<not> IsCoinBase tx" "i > 0 \<Longrightarrow> vtxundo ! (i - 1) = spent_coins tx m"
  shows "\<exists>c'. disconnect_tx V H height i tx vtxundo fClean c = Inr (Some fClean, c') \<and> cok c' \<and> cbest c' = cbest c \<and> cutxo c' = m"
proof -
  define m1 where "m1 = (if IsCoinBase tx then m else m |` (- set (map prevout (vin tx))))"
  have "\<forall>j < length (vout tx). m1 (out_key (tx_GetHash H tx) (0 + j)) = None" using assms(3) by (simp add: tx_fits_def m1_def restrict_map_def)
  moreover have "cutxo c = add_outs (tx_GetHash H tx) height (IsCoinBase tx) 0 (vout tx) m1" unfolding assms(2) apply_tx_def m1_def ..
  moreover have "0 + length (vout tx) \<le> 2 ^ 32" "\<forall>out \<in> set (vout tx). 0 \<le> nValue out" using assms(3) by (simp_all add: tx_fits_def)
  ultimately obtain c1 where c1: "disconnect_outputs V (tx_GetHash H tx) height (IsCoinBase tx) 0 (vout tx) fClean c = (fClean, c1)" "cok c1"
    "cbest c1 = cbest c" "cutxo c1 = m1" using disconnect_outputs_ok [OF assms(1) _ _ _ assms(5,6)] by blast
  show ?thesis
  proof (cases "IsCoinBase tx")
    case True
    then show ?thesis using assms(7) c1 by (simp add: disconnect_tx_def m1_def)
  next
    case False
    have u: "vtxundo ! (i - Suc 0) = map (\<lambda>txin. the (m (prevout txin))) (vin tx)" using assms(7,8) False by (simp add: spent_coins_def)
    have d: "distinct (map prevout (rev (vin tx)))" using assms(3) by (simp add: tx_fits_def rev_map [symmetric])
    have r: "cutxo c1 = m |` (- set (map prevout (rev (vin tx))))" using c1(4) False by (simp add: m1_def)
    have g: "\<forall>txin \<in> set (rev (vin tx)). \<exists>cn. m (prevout txin) = Some cn \<and> coin_good cn" using assms(3,4) False by (auto simp: tx_fits_def)
    from disconnect_inputs_ok [OF c1(2) d r g, of fClean] show ?thesis
      using c1(1,3) False assms(7) by (simp add: disconnect_tx_def u rev_map)
  qed
qed

lemma prev_heights_ok:
  "cok c \<Longrightarrow> prev_heights V ins c = (hs, c') \<Longrightarrow> cok c' \<and> cutxo c' = cutxo c \<and> cbest c' = cbest c"
proof (induction ins arbitrary: c hs c')
  case Nil
  then show ?case by simp
next
  case (Cons txin ins)
  obtain cn c1 where a: "AccessCoin V (prevout txin) c = (cn, c1)" by (cases "AccessCoin V (prevout txin) c")
  obtain hs' c2 where p: "prev_heights V ins c1 = (hs', c2)" by (cases "prev_heights V ins c1")
  have "cok c1" "cutxo c1 = cutxo c" "cbest c1 = cbest c" using AccessCoin_ok [OF Cons.prems(1) a] by auto
  moreover have "c' = c2" using Cons.prems(2) a p by simp
  ultimately show ?case using Cons.IH [OF _ p] by simp
qed

lemma GetP2SHSigOpCount_loop_ok:
  "cok c \<Longrightarrow> GetP2SHSigOpCount_loop V ins n c = (r, c') \<Longrightarrow> cok c' \<and> cutxo c' = cutxo c \<and> cbest c' = cbest c"
proof (induction ins arbitrary: c n)
  case Nil
  then show ?case by simp
next
  case (Cons txin ins)
  obtain cn c1 where a: "AccessCoin V (prevout txin) c = (cn, c1)" by (cases "AccessCoin V (prevout txin) c")
  have c1: "cok c1" "cutxo c1 = cutxo c" "cbest c1 = cbest c" using AccessCoin_ok [OF Cons.prems(1) a] by auto
  show ?case
  proof (cases "coin_IsSpent cn")
    case True
    then show ?thesis using Cons.prems(2) a c1 by simp
  next
    case False
    then show ?thesis using Cons.prems(2) a c1 Cons.IH [OF c1(1)] by simp
  qed
qed

lemma GetTransactionSigOpCount_ok:
  assumes "cok c" "GetTransactionSigOpCount V tx flgs c = (r, c')"
  shows "cok c' \<and> cutxo c' = cutxo c \<and> cbest c' = cbest c"
proof (cases "IsCoinBase tx \<or> flgs AND SCRIPT_VERIFY_P2SH = 0")
  case True
  then have "c' = c" using assms(2) by (auto simp: GetTransactionSigOpCount_def Let_def split: if_splits)
  then show ?thesis using assms(1) by simp
next
  case False
  obtain q c1 where q: "GetP2SHSigOpCount_loop V (vin tx) 0 c = (q, c1)" by (cases "GetP2SHSigOpCount_loop V (vin tx) 0 c")
  have "c' = c1" using assms(2) False q by (auto simp: GetTransactionSigOpCount_def GetP2SHSigOpCount_def Let_def split: if_splits)
  then show ?thesis using GetP2SHSigOpCount_loop_ok [OF assms(1) q] by simp
qed

lemma connect_inputs_ok:
  assumes "cok (cs_coins st)" "ce_view env = V" "connect_inputs env tx st = Inr st'"
    and "CheckTransaction tx = None" "\<not> IsCoinBase tx" "\<not> (tx_nVersion tx = 3 \<and> nType tx = TRANSACTION_ASSET_UNLOCK)"
  shows "cok (cs_coins st') \<and> cutxo (cs_coins st') = cutxo (cs_coins st) \<and> cs_undo st' = cs_undo st \<and>
    (\<forall>txin \<in> set (vin tx). cutxo (cs_coins st) (prevout txin) \<noteq> None) \<and>
    cs_fees st' = cs_fees st + (in_value (cutxo (cs_coins st)) (vin tx) - out_value (vout tx))"
proof -
  obtain r c1 where r: "CheckTxInputs V (ce_payload_fee env) tx (ce_height env) (cs_coins st) = (r, c1)"
    by (cases "CheckTxInputs V (ce_payload_fee env) tx (ce_height env) (cs_coins st)")
  note c1 = CheckTxInputs_ok [OF assms(1,4-6) r]
  obtain fee where fee: "r = Inr fee" using assms(2,3) r by (cases r) (simp_all add: connect_inputs_def)
  obtain hs c2 where p: "prev_heights V (vin tx) c1 = (hs, c2)" by (cases "prev_heights V (vin tx) c1")
  have c2: "cok c2" "cutxo c2 = cutxo c1" using prev_heights_ok [OF _ p] c1 by auto
  have "st' = st\<lparr>cs_fees := cs_fees st + fee, cs_coins := c2\<rparr>"
    using assms(2,3) r fee p by (auto simp: connect_inputs_def Let_def split: if_splits option.splits bool.splits)
  then show ?thesis using c1 c2 fee by (auto simp: input_ok_def)
qed

lemma connect_tx_ok:
  assumes "cok (cs_coins st)" "ce_view env = V" "connect_tx env i tx st = Inr st'"
    and "CheckTransaction tx = None" "\<not> (tx_nVersion tx = 3 \<and> nType tx = TRANSACTION_ASSET_UNLOCK)"
    and "\<forall>j < length (vout tx). cutxo (cs_coins st) (out_key (tx_GetHash (ce_hash env) tx) j) = None" "length (vout tx) \<le> 2 ^ 32"
  shows "tx_fits (ce_hash env) (cutxo (cs_coins st)) tx \<and> cok (cs_coins st') \<and>
    cutxo (cs_coins st') = apply_tx (ce_hash env) (ce_height env) tx (cutxo (cs_coins st)) \<and>
    cs_undo st' = (if i > 0 then cs_undo st @ [spent_coins tx (cutxo (cs_coins st))] else cs_undo st) \<and>
    cs_fees st' = cs_fees st + (if IsCoinBase tx then 0 else in_value (cutxo (cs_coins st)) (vin tx) - out_value (vout tx))"
proof -
  obtain st1 where st1: "(if \<not> IsCoinBase tx then connect_inputs env tx st else Inr st) = Inr st1"
    using assms(3) unfolding connect_tx_def by (cases "if \<not> IsCoinBase tx then connect_inputs env tx st else Inr st") simp_all
  have s1: "cok (cs_coins st1)" "cutxo (cs_coins st1) = cutxo (cs_coins st)" "cs_undo st1 = cs_undo st"
    "\<not> IsCoinBase tx \<Longrightarrow> \<forall>txin \<in> set (vin tx). cutxo (cs_coins st) (prevout txin) \<noteq> None"
    "cs_fees st1 = cs_fees st + (if IsCoinBase tx then 0 else in_value (cutxo (cs_coins st)) (vin tx) - out_value (vout tx))"
    using connect_inputs_ok [OF assms(1,2) _ assms(4) _ assms(5), of st1] st1 assms(1) by (cases "IsCoinBase tx"; simp)+
  obtain r c where g: "GetTransactionSigOpCount V tx (ce_flags env) (cs_coins st1) = (r, c)" by (cases "GetTransactionSigOpCount V tx (ce_flags env) (cs_coins st1)")
  have c: "cok c" "cutxo c = cutxo (cs_coins st)" using GetTransactionSigOpCount_ok [OF s1(1) g] s1(2) by auto
  have fits: "tx_fits (ce_hash env) (cutxo c) tx" unfolding tx_fits_def c(2) using CheckTransaction_None(1,2) [OF assms(4)] s1(4) assms(6,7) by blast
  obtain c' where u: "UpdateCoins V (ce_hash env) tx (ce_height env) c = Inr (spent_coins tx (cutxo c), c')" "cok c'"
    "cutxo c' = apply_tx (ce_hash env) (ce_height env) tx (cutxo c)" using UpdateCoins_ok [OF c(1) fits] by blast
  obtain n where n: "r = Inr n" using assms(2,3) g unfolding connect_tx_def st1 by (cases r) simp_all
  have "st' = \<lparr>cs_fees = cs_fees st1, cs_sigops = cs_sigops st1 + n,
      cs_undo = (if i > 0 then cs_undo st1 @ [spent_coins tx (cutxo c)] else cs_undo st1), cs_coins = c'\<rparr>"
    using assms(2,3) g n u(1) unfolding connect_tx_def st1 by (simp add: Let_def split: if_splits)
  then show ?thesis using s1(3,5) u(2,3) fits c(2) by simp
qed

end

section \<open>The effect of a block\<close>

abbreviation (input) apply_txs :: "(byte list \<Rightarrow> uint256) \<Rightarrow> int \<Rightarrow> CTransaction list \<Rightarrow> (COutPoint \<rightharpoonup> Coin) \<Rightarrow> COutPoint \<rightharpoonup> Coin" where
  "apply_txs H height \<equiv> fold (apply_tx H height)"

fun spent_list :: "(byte list \<Rightarrow> uint256) \<Rightarrow> int \<Rightarrow> CTransaction list \<Rightarrow> (COutPoint \<rightharpoonup> Coin) \<Rightarrow> Coin list list" where
  "spent_list H height [] m = []"
| "spent_list H height (tx # txs) m = spent_coins tx m # spent_list H height txs (apply_tx H height tx m)"

fun fees_of :: "(byte list \<Rightarrow> uint256) \<Rightarrow> int \<Rightarrow> CTransaction list \<Rightarrow> (COutPoint \<rightharpoonup> Coin) \<Rightarrow> CAmount" where
  "fees_of H height [] m = 0"
| "fees_of H height (tx # txs) m = (if IsCoinBase tx then 0 else in_value m (vin tx) - out_value (vout tx)) + fees_of H height txs (apply_tx H height tx m)"

fun txs_fit :: "(byte list \<Rightarrow> uint256) \<Rightarrow> int \<Rightarrow> CTransaction list \<Rightarrow> (COutPoint \<rightharpoonup> Coin) \<Rightarrow> bool" where
  "txs_fit H height [] m \<longleftrightarrow> True"
| "txs_fit H height (tx # txs) m \<longleftrightarrow> tx_fits H m tx \<and> txs_fit H height txs (apply_tx H height tx m)"

lemma length_spent_list [simp]: "length (spent_list H height txs m) = length txs"
  by (induction txs arbitrary: m) simp_all

lemma spent_list_nth: "n < length txs \<Longrightarrow> spent_list H height txs m ! n = spent_coins (txs ! n) (apply_txs H height (take n txs) m)"
  by (induction txs arbitrary: m n) (auto simp: less_Suc_eq_0_disj)

lemma txs_fit_nth: "txs_fit H height txs m \<Longrightarrow> n < length txs \<Longrightarrow> tx_fits H (apply_txs H height (take n txs) m) (txs ! n)"
  by (induction txs arbitrary: m n) (auto simp: less_Suc_eq_0_disj)

lemma apply_tx_other:
  assumes "m k = None" "op_hash k \<noteq> tx_GetHash H tx"
  shows "apply_tx H height tx m k = None"
proof -
  have "k \<noteq> out_key (tx_GetHash H tx) (0 + j)" for j using assms(2) by (auto simp: out_key_def)
  then show ?thesis using assms(1) by (simp add: apply_tx_def add_outs_at restrict_map_def)
qed

lemma add_outs_good:
  assumes "\<forall>k cn. m k = Some cn \<longrightarrow> coin_good cn" "\<forall>out \<in> set outs. 0 \<le> nValue out" "0 < height" "height < 2 ^ 31"
  shows "\<forall>k cn. add_outs txid height cb i outs m k = Some cn \<longrightarrow> coin_good cn"
  using assms(1,2)
proof (induction outs arbitrary: i m)
  case Nil
  then show ?case by simp
next
  case (Cons out outs)
  define m' where "m' = (if IsUnspendable (scriptPubKey out) then m else m(out_key txid i \<mapsto> mk_Coin out height cb))"
  have "coin_good (mk_Coin out height cb)" if "\<not> IsUnspendable (scriptPubKey out)"
    using that Cons.prems(2) assms(3,4) by (auto simp: coin_good_def mk_Coin_def coin_IsSpent_def txout_IsNull_def)
  then have "\<forall>k cn. m' k = Some cn \<longrightarrow> coin_good cn" using Cons.prems(1) by (auto simp: m'_def)
  from Cons.IH [OF this] Cons.prems(2) show ?case by (simp add: m'_def)
qed

lemma apply_tx_good:
  assumes "\<forall>k cn. m k = Some cn \<longrightarrow> coin_good cn" "tx_fits H m tx" "0 < height" "height < 2 ^ 31"
  shows "\<forall>k cn. apply_tx H height tx m k = Some cn \<longrightarrow> coin_good cn"
  unfolding apply_tx_def using assms by (intro add_outs_good) (auto simp: tx_fits_def restrict_map_def)

lemma apply_txs_good:
  assumes "\<forall>k cn. m k = Some cn \<longrightarrow> coin_good cn" "txs_fit H height txs m" "0 < height" "height < 2 ^ 31"
  shows "\<forall>k cn. apply_txs H height (take n txs) m k = Some cn \<longrightarrow> coin_good cn"
  using assms(1,2)
proof (induction txs arbitrary: m n)
  case Nil
  then show ?case by simp
next
  case (Cons tx txs)
  show ?case
  proof (cases n)
    case 0
    then show ?thesis using Cons.prems(1) by simp
  next
    case (Suc n')
    have "tx_fits H m tx" using Cons.prems(2) by simp
    then have "\<forall>k cn. apply_tx H height tx m k = Some cn \<longrightarrow> coin_good cn" by (rule apply_tx_good [OF Cons.prems(1) _ assms(3,4)])
    from Cons.IH [OF this] Cons.prems(2) show ?thesis by (simp add: Suc)
  qed
qed

text \<open>What the checks before the loop establish for the transactions of a block.\<close>

definition block_txs_ok :: "(byte list \<Rightarrow> uint256) \<Rightarrow> CTransaction list \<Rightarrow> bool" where
  "block_txs_ok H txs \<longleftrightarrow> distinct (map (tx_GetHash H) txs) \<and>
     (\<forall>tx \<in> set txs. CheckTransaction tx = None \<and> \<not> (tx_nVersion tx = 3 \<and> nType tx = TRANSACTION_ASSET_UNLOCK))"

lemma ser_txout_length: "1 \<le> length (ser_txout out)"
  by (simp add: ser_txout_def ser_writedata64_def)

lemma length_concat_ge:
  assumes "\<And>x. 1 \<le> length (f x)"
  shows "length xs \<le> length (concat (map f xs))"
proof (induction xs)
  case (Cons x xs)
  then show ?case using assms [of x] by simp
qed simp

lemma CheckTransaction_vout:
  assumes "CheckTransaction tx = None"
  shows "length (vout tx) \<le> 2 ^ 32"
proof -
  have "length (vout tx) \<le> length (concat (map ser_txout (vout tx)))" by (rule length_concat_ge) (rule ser_txout_length)
  also have "\<dots> \<le> GetTotalSize tx" by (simp add: GetTotalSize_def ser_tx_def ser_vector_def)
  also have "\<dots> \<le> 1000000" using assms by (auto simp: CheckTransaction_def Let_def split: if_splits)
  finally show ?thesis by simp
qed

context coins_view
begin

lemma connect_txs_ok:
  assumes "cok (cs_coins st)" "ce_view env = V" "connect_txs env i txs st = Inr st'" "block_txs_ok (ce_hash env) txs"
    and "\<forall>tx \<in> set txs. \<forall>j < length (vout tx). cutxo (cs_coins st) (out_key (tx_GetHash (ce_hash env) tx) j) = None"
  shows "txs_fit (ce_hash env) (ce_height env) txs (cutxo (cs_coins st)) \<and> cok (cs_coins st') \<and>
    cutxo (cs_coins st') = apply_txs (ce_hash env) (ce_height env) txs (cutxo (cs_coins st)) \<and>
    cs_undo st' = cs_undo st @ (let l = spent_list (ce_hash env) (ce_height env) txs (cutxo (cs_coins st)) in if i > 0 then l else tl l) \<and>
    cs_fees st' = cs_fees st + fees_of (ce_hash env) (ce_height env) txs (cutxo (cs_coins st))"
  using assms(1,3-5)
proof (induction txs arbitrary: i st)
  case Nil
  then show ?case by simp
next
  case (Cons tx txs)
  define m where "m = cutxo (cs_coins st)"
  obtain st1 where st1: "connect_tx env i tx st = Inr st1" "connect_txs env (i + 1) txs st1 = Inr st'"
    using Cons.prems(2) by (cases "connect_tx env i tx st") simp_all
  have tx: "CheckTransaction tx = None" "\<not> (tx_nVersion tx = 3 \<and> nType tx = TRANSACTION_ASSET_UNLOCK)" using Cons.prems(3) by (simp_all add: block_txs_ok_def)
  have keys: "\<forall>j < length (vout tx). cutxo (cs_coins st) (out_key (tx_GetHash (ce_hash env) tx) j) = None" using Cons.prems(4) by simp
  have c1: "tx_fits (ce_hash env) m tx" "cok (cs_coins st1)" "cutxo (cs_coins st1) = apply_tx (ce_hash env) (ce_height env) tx m"
    "cs_undo st1 = (if i > 0 then cs_undo st @ [spent_coins tx m] else cs_undo st)"
    "cs_fees st1 = cs_fees st + (if IsCoinBase tx then 0 else in_value m (vin tx) - out_value (vout tx))"
    using connect_tx_ok [OF Cons.prems(1) assms(2) st1(1) tx keys CheckTransaction_vout [OF tx(1)]] unfolding m_def by blast+
  have rest: "block_txs_ok (ce_hash env) txs" using Cons.prems(3) by (simp add: block_txs_ok_def)
  have "cutxo (cs_coins st1) (out_key (tx_GetHash (ce_hash env) t) j) = None" if "t \<in> set txs" "j < length (vout t)" for t j
    unfolding c1(3)
  proof (rule apply_tx_other)
    show "m (out_key (tx_GetHash (ce_hash env) t) j) = None" using Cons.prems(4) that by (simp add: m_def)
    show "op_hash (out_key (tx_GetHash (ce_hash env) t) j) \<noteq> tx_GetHash (ce_hash env) tx"
      using Cons.prems(3) imageI [OF that(1), of "tx_GetHash (ce_hash env)"] by (auto simp: block_txs_ok_def out_key_def simp del: imageI)
  qed
  then have keys': "\<forall>t \<in> set txs. \<forall>j < length (vout t). cutxo (cs_coins st1) (out_key (tx_GetHash (ce_hash env) t) j) = None" by blast
  show ?case using Cons.IH [OF c1(2) st1(2) rest keys'] c1 unfolding m_def [symmetric] by (simp add: Let_def)
qed

lemma disconnect_txs_ok:
  assumes "txs_fit H height vtx m" "\<forall>k cn. m k = Some cn \<longrightarrow> coin_good cn" "0 < height" "height < 2 ^ 31"
    and "\<forall>i < length vtx. IsCoinBase (vtx ! i) \<longleftrightarrow> i = 0" "n \<le> length vtx" "cok c" "cutxo c = apply_txs H height (take n vtx) m"
  shows "\<exists>c'. disconnect_txs V H height n vtx (tl (spent_list H height vtx m)) True c = Inr (Some True, c') \<and> cok c' \<and> cutxo c' = m"
  using assms(6-8)
proof (induction n arbitrary: c)
  case 0
  then show ?case by simp
next
  case (Suc n)
  define mn where "mn = apply_txs H height (take n vtx) m"
  have n: "n < length vtx" using Suc.prems(1) by simp
  have cu: "cutxo c = apply_tx H height (vtx ! n) mn" using Suc.prems(3) n by (simp add: take_Suc_conv_app_nth mn_def)
  have undo: "n > 0 \<Longrightarrow> tl (spent_list H height vtx m) ! (n - 1) = spent_coins (vtx ! n) mn"
    using n spent_list_nth [OF n, of H height m] by (simp add: nth_tl mn_def)
  have cb: "n > 0 \<longleftrightarrow> \<not> IsCoinBase (vtx ! n)" using assms(5) n by auto
  obtain c1 where c1: "disconnect_tx V H height n (vtx ! n) (tl (spent_list H height vtx m)) True c = Inr (Some True, c1)" "cok c1" "cutxo c1 = mn"
    using disconnect_tx_ok [OF Suc.prems(2) cu _ _ assms(3,4) cb undo] txs_fit_nth [OF assms(1) n] apply_txs_good [OF assms(2,1,3,4), of n]
    unfolding mn_def by blast
  from Suc.IH [OF _ c1(2)] n c1(3) show ?case using c1(1) by (simp add: mn_def)
qed

lemma bip30_outputs_ok:
  "cok c \<Longrightarrow> bip30_outputs V txid i n c = (r, c') \<Longrightarrow> cok c' \<and> cutxo c' = cutxo c \<and> r = (\<forall>j < n. cutxo c (out_key txid (i + j)) = None)"
proof (induction n arbitrary: c i)
  case 0
  then show ?case by simp
next
  case (Suc n)
  obtain h c1 where h: "cache_HaveCoin V (out_key txid i) c = (h, c1)" by (cases "cache_HaveCoin V (out_key txid i) c")
  have c1: "h = (cutxo c (out_key txid i) \<noteq> None)" "cok c1" "cutxo c1 = cutxo c" using cache_HaveCoin_ok [OF Suc.prems(1) h] by auto
  show ?case
  proof (cases h)
    case True
    then show ?thesis using Suc.prems(2) h c1 by (auto simp: out_key_def)
  next
    case False
    then have "bip30_outputs V txid (i + 1) n c1 = (r, c')" using Suc.prems(2) h by (simp add: out_key_def)
    from Suc.IH [OF c1(2) this] show ?thesis using False c1 by (auto simp: less_Suc_eq_0_disj)
  qed
qed

lemma bip30_check_ok:
  "cok c \<Longrightarrow> bip30_check V H txs c = (r, c') \<Longrightarrow> cok c' \<and> cutxo c' = cutxo c \<and>
    r = (\<forall>tx \<in> set txs. \<forall>j < length (vout tx). cutxo c (out_key (tx_GetHash H tx) j) = None)"
proof (induction txs arbitrary: c)
  case Nil
  then show ?case by simp
next
  case (Cons tx txs)
  obtain h c1 where h: "bip30_outputs V (tx_GetHash H tx) 0 (length (vout tx)) c = (h, c1)" by (cases "bip30_outputs V (tx_GetHash H tx) 0 (length (vout tx)) c")
  have c1: "cok c1" "cutxo c1 = cutxo c" "h = (\<forall>j < length (vout tx). cutxo c (out_key (tx_GetHash H tx) j) = None)"
    using bip30_outputs_ok [OF Cons.prems(1) h] by auto
  show ?case
  proof (cases h)
    case True
    then have "bip30_check V H txs c1 = (r, c')" using Cons.prems(2) h by simp
    from Cons.IH [OF c1(1) this] show ?thesis using True c1(2,3) by auto
  next
    case False
    then have "r = False" "c' = c1" using Cons.prems(2) h by simp_all
    then show ?thesis using False c1 by simp
  qed
qed

end

section \<open>The value of the coins\<close>

definition total :: "(COutPoint \<rightharpoonup> Coin) \<Rightarrow> CAmount" where
  "total m = (\<Sum>k \<in> dom m. nValue (coin_out (the (m k))))"

definition burned :: "CTxOut list \<Rightarrow> CAmount" where
  "burned outs = out_value (filter (\<lambda>out. IsUnspendable (scriptPubKey out)) outs)"

lemma total_add:
  assumes "finite (dom m)" "m k = None"
  shows "total (m(k \<mapsto> cn)) = total m + nValue (coin_out cn)"
proof -
  have "(\<Sum>j \<in> dom m. nValue (coin_out (the ((m(k \<mapsto> cn)) j)))) = total m"
    unfolding total_def using assms(2) by (intro sum.cong) auto
  then show ?thesis using assms by (simp add: total_def domIff)
qed

lemma total_remove:
  assumes "finite (dom m)" "m k = Some cn"
  shows "total (m(k := None)) = total m - nValue (coin_out cn)"
  using total_add [of "m(k := None)" k cn] assms by (simp add: fun_upd_idem)

lemma total_add_outs:
  assumes "finite (dom m)" "i + length outs \<le> 2 ^ 32" "\<forall>j < length outs. m (out_key txid (i + j)) = None"
  shows "finite (dom (add_outs txid height cb i outs m)) \<and> total (add_outs txid height cb i outs m) + burned outs = total m + out_value outs"
  using assms
proof (induction outs arbitrary: i m)
  case Nil
  then show ?case by (simp add: burned_def)
next
  case (Cons out outs)
  define m' where "m' = (if IsUnspendable (scriptPubKey out) then m else m(out_key txid i \<mapsto> mk_Coin out height cb))"
  have "m (out_key txid i) = None" using Cons.prems(3) by force
  then have t: "total m' = total m + (if IsUnspendable (scriptPubKey out) then 0 else nValue out)" "finite (dom m')"
    using Cons.prems(1) total_add [of m "out_key txid i" "mk_Coin out height cb"] by (simp_all add: m'_def mk_Coin_def)
  have "m' (out_key txid (i + 1 + j)) = None" if "j < length outs" for j
  proof -
    have "m (out_key txid (i + Suc j)) = None" using Cons.prems(3) that by (metis Suc_less_eq length_Cons)
    moreover have "out_key txid (i + Suc j) \<noteq> out_key txid i" using Cons.prems(2) that by (subst out_key_inj) auto
    ultimately show ?thesis by (simp add: m'_def)
  qed
  then have "finite (dom (add_outs txid height cb (i + 1) outs m')) \<and> total (add_outs txid height cb (i + 1) outs m') + burned outs = total m' + out_value outs"
    using Cons.IH [OF t(2), of "i + 1"] Cons.prems(2) by simp
  then show ?case using t(1) by (auto simp: m'_def [symmetric] burned_def out_value_def)
qed

lemma total_spend:
  assumes "finite (dom m)" "distinct (map prevout ins)" "\<forall>txin \<in> set ins. m (prevout txin) \<noteq> None"
  shows "total (m |` (- set (map prevout ins))) = total m - in_value m ins"
  using assms
proof (induction ins arbitrary: m)
  case Nil
  then show ?case by (simp add: in_value_def)
next
  case (Cons txin ins)
  obtain cn where cn: "m (prevout txin) = Some cn" using Cons.prems(3) by auto
  define m' where "m' = m(prevout txin := None)"
  have fin: "finite (dom m')" using Cons.prems(1) unfolding m'_def by (rule finite_subset [rotated]) (auto simp: dom_def)
  have ne: "prevout t \<noteq> prevout txin" if "t \<in> set ins" for t using Cons.prems(2) that by (metis distinct.simps(2) image_eqI list.set_map list.simps(9))
  have "in_value m' ins = in_value m ins" using ne by (simp add: in_value_def m'_def cong: map_cong)
  moreover have "m' |` (- set (map prevout ins)) = m |` (- set (map prevout (txin # ins)))" by (auto simp: m'_def restrict_map_def fun_eq_iff)
  moreover have "total (m' |` (- set (map prevout ins))) = total m' - in_value m' ins"
    by (rule Cons.IH [OF fin]) (use Cons.prems ne in \<open>auto simp: m'_def\<close>)
  ultimately show ?case using total_remove [OF Cons.prems(1) cn] cn by (simp add: m'_def [symmetric] in_value_def)
qed

lemma total_apply_tx:
  assumes "finite (dom m)" "tx_fits H m tx"
  shows "finite (dom (apply_tx H height tx m)) \<and>
    total (apply_tx H height tx m) + burned (vout tx) = total m + out_value (vout tx) - (if IsCoinBase tx then 0 else in_value m (vin tx))"
proof -
  define m1 where "m1 = (if IsCoinBase tx then m else m |` (- set (map prevout (vin tx))))"
  have m1: "finite (dom m1)" "total m1 = total m - (if IsCoinBase tx then 0 else in_value m (vin tx))"
    using assms total_spend [OF assms(1), of "vin tx"] by (auto simp: m1_def tx_fits_def)
  have "\<forall>j < length (vout tx). m1 (out_key (tx_GetHash H tx) (0 + j)) = None" using assms(2) by (simp add: tx_fits_def m1_def restrict_map_def)
  from total_add_outs [OF m1(1) _ this] assms(2) m1(2) show ?thesis by (simp add: apply_tx_def m1_def [symmetric] tx_fits_def)
qed

lemma total_apply_txs:
  assumes "finite (dom m)" "txs_fit H height txs m"
  shows "total (apply_txs H height txs m) + fees_of H height txs m + sum_list (map (burned \<circ> vout) txs) =
    total m + sum_list (map (out_value \<circ> vout) (filter IsCoinBase txs))"
  using assms
proof (induction txs arbitrary: m)
  case Nil
  then show ?case by simp
next
  case (Cons tx txs)
  note t = total_apply_tx [OF Cons.prems(1), of H tx height]
  then show ?case using Cons.IH [of "apply_tx H height tx m"] Cons.prems(2) by (cases "IsCoinBase tx") simp_all
qed

section \<open>Properties of connecting and disconnecting\<close>


subsection \<open>A block with a coinbase and one other transaction\<close>

definition demo_cb :: CTransaction where
  "demo_cb = demo_tx\<lparr>vin := [\<lparr>prevout = outpoint_null, scriptSig = [1, 2], nSequence = 0\<rparr>], vout := [\<lparr>nValue = 60, scriptPubKey = []\<rparr>]\<rparr>"

text \<open>A function that tells the two transactions apart by the first byte of the script length of the first input.\<close>

definition demo_txid :: "byte list \<Rightarrow> uint256" where
  "demo_txid s = replicate 32 (s ! 41)"

definition demo_connect :: "coins_db CCoinsViewCache connect_env" where
  "demo_connect = \<lparr>ce_view = cache_view (db_view (\<lambda>b. True)), ce_hash = demo_txid, ce_store = demo_store, ce_pindex = 2, ce_height = 10, ce_flags = 0,
     ce_lock_flags = 0, ce_dip0001 = True, ce_payload_fee = (\<lambda>_. None), ce_scripts_ok = (\<lambda>_. True)\<rparr>"

abbreviation (input) demo_view :: "coins_db CCoinsViewCache CCoinsViewCache" where "demo_view \<equiv> empty_cache demo_tip"

lemma demo_view_ok: "block_ok demo_view" "block_utxo demo_view = [demo_key \<mapsto> demo_coin]"
  using demo_tip_ok by (simp_all add: cache_inv_def empty_cache_def cache_utxo_def over_Nil)

lemma demo_txids: "tx_GetHash demo_txid demo_cb = replicate 32 2" "tx_GetHash demo_txid demo_spend = replicate 32 0"
  by (simp_all add: tx_GetHash_def demo_txid_def ser_tx_def ser_vector_def ser_txin_def ser_outpoint_def ser_bytes_def WriteCompactSize_def ser_writedata8_def
      ser_writedata32_def demo_cb_def demo_spend_def demo_key_def outpoint_null_def nth_append)

lemma demo_cb_ok: "CheckTransaction demo_cb = None" "IsCoinBase demo_cb"
proof -
  have "GetTotalSize demo_cb \<le> 1000000"
    by (simp add: GetTotalSize_def demo_cb_def demo_tx_def outpoint_null_def ser_tx_def ser_vector_def ser_txin_def ser_outpoint_def ser_txout_def
        ser_bytes_def WriteCompactSize_def ser_writedata8_def ser_writedata32_def ser_writedata64_def)
  moreover show cb: "IsCoinBase demo_cb" by (simp add: demo_cb_def IsCoinBase_def outpoint_IsNull_def outpoint_null_def)
  ultimately show "CheckTransaction demo_cb = None"
    by (simp add: CheckTransaction_def) (simp add: demo_cb_def demo_tx_def MoneyRange_def)
qed

lemma demo_block_ok: "block_txs_ok demo_txid [demo_cb, demo_spend]"
  using demo_txids demo_cb_ok demo_spend_ok by (simp add: block_txs_ok_def) (simp add: demo_cb_def demo_tx_def)

lemma demo_sequence: "length hs = 1 \<Longrightarrow> SequenceLocks demo_store demo_spend 0 hs 2 = Some True"
proof -
  assume "length hs = 1"
  moreover obtain t where "GetMedianTimePast demo_store 1 = Some t" "0 \<le> t"
    using GetMedianTimePast_some [OF wf_demo_store, of 1] by (auto simp: demo_store_def)
  moreover have "demo_store 2 = Some (demo_block (Some 1) (Some 0) 2)" "length (vin demo_spend) = 1" by (simp_all add: demo_store_def demo_spend_def)
  ultimately show ?thesis
    by (simp add: SequenceLocks_def CalculateSequenceLocks_def EvaluateSequenceLocks_def) (simp add: demo_block_def)
qed

lemma length_prev_heights: "prev_heights V ins c = (hs, c') \<Longrightarrow> length hs = length ins"
  by (induction ins arbitrary: c hs c') (auto split: prod.splits)

lemma GetLegacySigOpCount_demo: "GetLegacySigOpCount demo_cb = 0" "GetLegacySigOpCount demo_spend = 0"
proof -
  have "GetSigOpCount [] False = 0" "GetSigOpCount [1, 2] False = 0" by code_simp+
  then show "GetLegacySigOpCount demo_cb = 0" "GetLegacySigOpCount demo_spend = 0" by (simp_all add: GetLegacySigOpCount_def demo_cb_def demo_spend_def)
qed

lemma demo_connect_cb:
  assumes "block_ok c" "block_utxo c = [demo_key \<mapsto> demo_coin]"
  shows "\<exists>st. connect_tx demo_connect 0 demo_cb \<lparr>cs_fees = 0, cs_sigops = 0, cs_undo = [], cs_coins = c\<rparr> = Inr st \<and> cs_fees st = 0 \<and> cs_sigops st = 0 \<and>
    cs_undo st = [] \<and> block_ok (cs_coins st) \<and> block_utxo (cs_coins st) demo_key = Some demo_coin \<and>
    block_utxo (cs_coins st) (out_key (replicate 32 0) 0) = None"
proof -
  have v: "vout demo_cb = [\<lparr>nValue = 60, scriptPubKey = []\<rparr>]" "vin demo_cb = [\<lparr>prevout = outpoint_null, scriptSig = [1, 2], nSequence = 0\<rparr>]" by (simp_all add: demo_cb_def)
  have k: "out_key (replicate 32 2) 0 \<noteq> demo_key" "out_key (replicate 32 0) 0 \<noteq> demo_key" "out_key (replicate 32 0) 0 \<noteq> out_key (replicate 32 2) 0"
    by (simp_all add: out_key_def demo_key_def)
  have "tx_fits demo_txid (block_utxo c) demo_cb" using k(1) demo_cb_ok(2) by (simp add: tx_fits_def v assms(2) demo_txids)
  from tip_v.UpdateCoins_ok [OF assms(1) this, of "\<lambda>b. True" 10] obtain c' where
    "UpdateCoins (cache_view (db_view (\<lambda>b. True))) demo_txid demo_cb 10 c = Inr (spent_coins demo_cb (block_utxo c), c')" "block_ok c'"
    "block_utxo c' = apply_tx demo_txid 10 demo_cb (block_utxo c)" by blast
  moreover have "apply_tx demo_txid 10 demo_cb [demo_key \<mapsto> demo_coin] = [demo_key \<mapsto> demo_coin, out_key (replicate 32 2) 0 \<mapsto> mk_Coin \<lparr>nValue = 60, scriptPubKey = []\<rparr> 10 True]"
    using demo_cb_ok(2) by (simp add: apply_tx_def v demo_txids IsUnspendable_def)
  ultimately show ?thesis
    using demo_cb_ok(2) k assms(2) by (simp add: connect_tx_def demo_connect_def GetTransactionSigOpCount_def GetLegacySigOpCount_demo MaxBlockSigOps_def)
qed

lemma demo_connect_spend:
  assumes "block_ok (cs_coins st)" "block_utxo (cs_coins st) demo_key = Some demo_coin" "block_utxo (cs_coins st) (out_key (replicate 32 0) 0) = None"
    and "cs_fees st = 0" "cs_sigops st = 0"
  shows "\<exists>st'. connect_tx demo_connect 1 demo_spend st = Inr st' \<and> cs_fees st' = 10"
proof -
  let ?V = "cache_view (db_view (\<lambda>b. True))" and ?m = "block_utxo (cs_coins st)"
  have v: "vout demo_spend = [\<lparr>nValue = 40, scriptPubKey = []\<rparr>]" "vin demo_spend = [\<lparr>prevout = demo_key, scriptSig = [], nSequence = 1\<rparr>]"
    by (simp_all add: demo_spend_def)
  have in10: "\<forall>txin \<in> set (vin demo_spend). input_ok ?m 10 txin" "in_value ?m (vin demo_spend) = 50" "out_value (vout demo_spend) = 40"
    using assms(2) by (simp_all add: v input_ok_def in_value_def out_value_def demo_coin_def)
  obtain r c1 where r: "CheckTxInputs ?V (\<lambda>_. None) demo_spend 10 (cs_coins st) = (r, c1)" by (cases "CheckTxInputs ?V (\<lambda>_. None) demo_spend 10 (cs_coins st)")
  note ck = tip_v.CheckTxInputs_ok [OF assms(1) demo_spend_ok r]
  have "r = Inr 10" "block_ok c1" "block_utxo c1 = ?m" using ck in10 by auto
  moreover obtain hs c2 where p: "prev_heights ?V (vin demo_spend) c1 = (hs, c2)" by (cases "prev_heights ?V (vin demo_spend) c1")
  ultimately have c2: "block_ok c2" "block_utxo c2 = ?m" using tip_v.prev_heights_ok [OF _ p] by auto
  have "SequenceLocks demo_store demo_spend 0 hs 2 = Some True" using length_prev_heights [OF p] by (intro demo_sequence) (simp add: v)
  then have inp: "connect_inputs demo_connect demo_spend st = Inr (st\<lparr>cs_fees := 10, cs_coins := c2\<rparr>)"
    using r \<open>r = Inr 10\<close> p assms(4) by (simp add: connect_inputs_def demo_connect_def MoneyRange_def)
  have "tx_fits demo_txid (block_utxo c2) demo_spend" using assms(2,3) by (simp add: tx_fits_def v c2(2) demo_txids)
  from tip_v.UpdateCoins_ok [OF c2(1) this, of "\<lambda>b. True" 10] obtain c' u where "UpdateCoins ?V demo_txid demo_spend 10 c2 = Inr (u, c')" by blast
  then show ?thesis using inp demo_spend_ok(2) assms(5)
    by (simp add: connect_tx_def GetTransactionSigOpCount_def GetLegacySigOpCount_demo) (simp add: demo_connect_def MaxBlockSigOps_def GetTransactionSigOpCount_def GetLegacySigOpCount_demo)
qed

lemma demo_connects:
  "\<exists>c1 st. bip30_check (ce_view demo_connect) demo_txid [demo_cb, demo_spend] demo_view = (True, c1) \<and>
    connect_txs demo_connect 0 [demo_cb, demo_spend] \<lparr>cs_fees = 0, cs_sigops = 0, cs_undo = [], cs_coins = c1\<rparr> = Inr st \<and> cs_fees st = 10"
proof -
  let ?V = "cache_view (db_view (\<lambda>b. True))"
  obtain r c1 where b: "bip30_check ?V demo_txid [demo_cb, demo_spend] demo_view = (r, c1)" by (cases "bip30_check ?V demo_txid [demo_cb, demo_spend] demo_view")
  have new: "\<forall>tx \<in> set [demo_cb, demo_spend]. \<forall>j < length (vout tx). block_utxo demo_view (out_key (tx_GetHash demo_txid tx) j) = None"
    by (simp add: demo_view_ok(2) demo_txids) (simp add: out_key_def demo_key_def)
  have c1: "r" "block_ok c1" "block_utxo c1 = [demo_key \<mapsto> demo_coin]" using tip_v.bip30_check_ok [OF demo_view_ok(1) b] new demo_view_ok(2) by auto
  obtain st1 where st1: "connect_tx demo_connect 0 demo_cb \<lparr>cs_fees = 0, cs_sigops = 0, cs_undo = [], cs_coins = c1\<rparr> = Inr st1" "cs_fees st1 = 0" "cs_sigops st1 = 0"
    "block_ok (cs_coins st1)" "block_utxo (cs_coins st1) demo_key = Some demo_coin" "block_utxo (cs_coins st1) (out_key (replicate 32 0) 0) = None"
    using demo_connect_cb [OF c1(2,3)] by blast
  obtain st where "connect_tx demo_connect 1 demo_spend st1 = Inr st" "cs_fees st = 10" using demo_connect_spend [OF st1(4-6,2,3)] by blast
  then show ?thesis using b c1(1) st1(1) by (intro exI [of _ c1] exI [of _ st]) (simp add: demo_connect_def)
qed


text \<open>
  C40. Disconnecting undoes connecting: with the undo data that connecting recorded, disconnecting the same block reports no inconsistency, restores
  the set of unspent coins exactly, and sets the given previous block. The coins are such as blocks after the genesis block create.
\<close>

theorem DisconnectBlock_undoes:
  assumes "block_ok c" "ce_view env = cache_view (db_view full)" "block_txs_ok (ce_hash env) vtx"
    and "bip30_check (ce_view env) (ce_hash env) vtx c = (True, c1)"
    and "connect_txs env 0 vtx \<lparr>cs_fees = 0, cs_sigops = 0, cs_undo = [], cs_coins = c1\<rparr> = Inr st"
    and "vtx \<noteq> []" "\<forall>i < length vtx. IsCoinBase (vtx ! i) \<longleftrightarrow> i = 0" "0 < ce_height env" "ce_height env < 2 ^ 31"
    and "\<forall>k cn. block_utxo c k = Some cn \<longrightarrow> coin_good cn"
  shows "\<exists>c'. DisconnectBlock_coins (ce_view env) (ce_hash env) (ce_height env) prev_hash vtx (cs_undo st) (cs_coins st) = Inr (DISCONNECT_OK, c') \<and>
    block_utxo c' = block_utxo c \<and> hashBlock c' = prev_hash"
proof -
  have c1: "block_ok c1" "block_utxo c1 = block_utxo c" "\<forall>tx \<in> set vtx. \<forall>j < length (vout tx). block_utxo c1 (out_key (tx_GetHash (ce_hash env) tx) j) = None"
    using tip_v.bip30_check_ok [OF assms(1), of full "ce_hash env" vtx True c1] assms(2,4) by auto
  note r = tip_v.connect_txs_ok [OF _ assms(2,5,3)]
  have fit: "txs_fit (ce_hash env) (ce_height env) vtx (block_utxo c)" and ok: "block_ok (cs_coins st)"
    and u: "block_utxo (cs_coins st) = apply_txs (ce_hash env) (ce_height env) (take (length vtx) vtx) (block_utxo c)"
    and undo: "cs_undo st = tl (spent_list (ce_hash env) (ce_height env) vtx (block_utxo c))" using r c1 by simp_all
  obtain c' where "disconnect_txs (cache_view (db_view full)) (ce_hash env) (ce_height env) (length vtx) vtx (cs_undo st) True (cs_coins st) = Inr (Some True, c')"
    "block_ok c'" "block_utxo c' = block_utxo c"
    using tip_v.disconnect_txs_ok [OF fit assms(10,8,9,7) order_refl ok u] unfolding undo by blast
  moreover have "length (cs_undo st) + 1 = length vtx" using assms(6) by (cases vtx) (simp_all add: undo)
  ultimately show ?thesis
    by (intro exI [of _ "SetBestBlock prev_hash c'"]) (simp add: DisconnectBlock_coins_def assms(2) SetBestBlock_def cache_utxo_def cache_fields)
qed

theorem DisconnectBlock_undoes_witness:
  "\<exists>c1 st c'. bip30_check (ce_view demo_connect) demo_txid [demo_cb, demo_spend] demo_view = (True, c1) \<and>
    connect_txs demo_connect 0 [demo_cb, demo_spend] \<lparr>cs_fees = 0, cs_sigops = 0, cs_undo = [], cs_coins = c1\<rparr> = Inr st \<and>
    DisconnectBlock_coins (ce_view demo_connect) demo_txid 10 [5] [demo_cb, demo_spend] (cs_undo st) (cs_coins st) = Inr (DISCONNECT_OK, c') \<and>
    block_utxo c' = [demo_key \<mapsto> demo_coin]"
proof -
  obtain c1 st where c: "bip30_check (ce_view demo_connect) demo_txid [demo_cb, demo_spend] demo_view = (True, c1)"
    "connect_txs demo_connect 0 [demo_cb, demo_spend] \<lparr>cs_fees = 0, cs_sigops = 0, cs_undo = [], cs_coins = c1\<rparr> = Inr st" using demo_connects by blast
  have e: "ce_view demo_connect = cache_view (db_view (\<lambda>b. True))" "ce_hash demo_connect = demo_txid" "ce_height demo_connect = 10" by (simp_all add: demo_connect_def)
  have "\<forall>i < length [demo_cb, demo_spend]. IsCoinBase ([demo_cb, demo_spend] ! i) \<longleftrightarrow> i = 0" using demo_cb_ok(2) demo_spend_ok(2) by (auto simp: less_Suc_eq_0_disj)
  moreover have "coin_good demo_coin" using demo_coin_ok by (simp add: coin_good_def) (simp add: demo_coin_def)
  then have "\<forall>k cn. block_utxo demo_view k = Some cn \<longrightarrow> coin_good cn" by (simp add: demo_view_ok(2))
  ultimately have "\<exists>c'. DisconnectBlock_coins (ce_view demo_connect) demo_txid 10 [5] [demo_cb, demo_spend] (cs_undo st) (cs_coins st) = Inr (DISCONNECT_OK, c') \<and>
      block_utxo c' = block_utxo demo_view \<and> hashBlock c' = [5]"
    by (intro DisconnectBlock_undoes [OF demo_view_ok(1) e(1), unfolded e(2,3), OF demo_block_ok c]) simp_all
  then show ?thesis using c unfolding demo_view_ok(2) by blast
qed

end
