(* ===== verification/Spec2Isabelle.thy ===== *)
theory Spec2Isabelle
  imports Header_Compress Connect_Block
begin

text \<open>
  A verification development for the consensus core of HootChain (\<^verbatim>\<open>src/src\<close>).
\<close>

end
